(* ===== verification/Prelude.thy ===== *)
theory Prelude
  imports Main "HOL-Library.Signed_Division"
begin

text \<open>
  What every component shares: the result type that carries the memory faults of C as
  values, blocks of allocated memory, C strings, and 32-bit signed integers.

  \<^item> \<open>'a res\<close> is \<open>fault + 'a\<close>. A step of the code whose behaviour C leaves undefined
    (a NULL dereference, an access outside its block, a read of a byte nothing has
    written, a use of a freed handle, a free of what \<open>malloc\<close> did not give, a division by zero) is \<open>Inl\<close> of the fault.
  \<^item> \<open>block\<close> is one \<open>malloc\<close>ed block or array: its size in bytes and the bytes written
    so far from its start. A byte with no written value is \<open>None\<close>.
  \<^item> A C string known to be terminated is an Isabelle \<open>string\<close> without the terminator;
    \<open>no_nul\<close> says that the terminator does not occur inside it.
\<close>

named_theorems block_simps \<open>how the block operations read and write\<close>

section \<open>Results\<close>

datatype fault =
    Null_Deref | Out_Of_Bounds | Uninit_Read | Use_After_Free | Bad_Free | Div_By_Zero

type_synonym 'a res = "fault + 'a"

definition rbind :: "'a res \<Rightarrow> ('a \<Rightarrow> 'b res) \<Rightarrow> 'b res" where
  "rbind m f = (case m of Inl e \<Rightarrow> Inl e | Inr x \<Rightarrow> f x)"

lemma rbind_Inl [simp]: "rbind (Inl e) f = Inl e"
  by (simp add: rbind_def)

lemma rbind_Inr [simp]: "rbind (Inr x) f = f x"
  by (simp add: rbind_def)

lemma rbind_eq_Inr_iff: "rbind m f = Inr y \<longleftrightarrow> (\<exists>x. m = Inr x \<and> f x = Inr y)"
  by (cases m) auto

lemma rbind_eq_Inl_iff: "rbind m f = Inl e \<longleftrightarrow> m = Inl e \<or> (\<exists>x. m = Inr x \<and> f x = Inl e)"
  by (cases m) auto

lemma rbind_assoc: "rbind (rbind m f) g = rbind m (\<lambda>x. rbind (f x) g)"
  by (cases m) auto

lemma rbind_cong [fundef_cong]:
  "m = n \<Longrightarrow> (\<And>x. n = Inr x \<Longrightarrow> f x = g x) \<Longrightarrow> rbind m f = rbind n g"
  by (cases n) auto

lemma rbind_split:
  "P (rbind m f) \<longleftrightarrow> (\<forall>e. m = Inl e \<longrightarrow> P (Inl e)) \<and> (\<forall>x. m = Inr x \<longrightarrow> P (f x))"
  by (cases m) auto

definition is_ok :: "'a res \<Rightarrow> bool" where
  "is_ok r = (case r of Inl _ \<Rightarrow> False | Inr _ \<Rightarrow> True)"

lemma is_ok_simps [simp]: "is_ok (Inr x)" "\<not> is_ok (Inl e)"
  by (simp_all add: is_ok_def)

lemma is_ok_iff: "is_ok r \<longleftrightarrow> (\<exists>x. r = Inr x)"
  by (cases r) auto

text \<open>\<open>returns P r\<close>: if \<open>r\<close> is a value, it satisfies \<open>P\<close>.\<close>

definition returns :: "('a \<Rightarrow> bool) \<Rightarrow> 'a res \<Rightarrow> bool" where
  "returns P r = (case r of Inl _ \<Rightarrow> True | Inr x \<Rightarrow> P x)"

lemma returns_simps [simp]: "returns P (Inl e)" "returns P (Inr x) \<longleftrightarrow> P x"
  by (simp_all add: returns_def)

lemma returns_rbind: "(\<And>x. returns P (f x)) \<Longrightarrow> returns P (rbind m f)"
  by (cases m) simp_all

lemma returns_if:
  "(c \<Longrightarrow> returns P x) \<Longrightarrow> (\<not> c \<Longrightarrow> returns P y) \<Longrightarrow> returns P (if c then x else y)"
  by simp

lemma returnsD: "returns P r \<Longrightarrow> r = Inr x \<Longrightarrow> P x"
  by simp

section \<open>C strings\<close>

abbreviation NUL :: char where "NUL \<equiv> CHR 0x00"
abbreviation TAB :: char where "TAB \<equiv> CHR 0x09"
abbreviation LF :: char where "LF \<equiv> CHR 0x0A"
abbreviation CR :: char where "CR \<equiv> CHR 0x0D"

abbreviation CRLF :: string where "CRLF \<equiv> [CR, LF]"

definition no_nul :: "string \<Rightarrow> bool" where
  "no_nul s = list_all (\<lambda>c. c \<noteq> NUL) s"

lemma no_nul_simps [simp]:
  "no_nul []" "no_nul (c # s) \<longleftrightarrow> c \<noteq> NUL \<and> no_nul s"
  "no_nul (s @ t) \<longleftrightarrow> no_nul s \<and> no_nul t"
  by (simp_all add: no_nul_def)

lemma no_nul_iff: "no_nul s \<longleftrightarrow> NUL \<notin> set s"
  by (induction s) auto

text \<open>The C string that starts at the head of a list of bytes ends before the first NUL.\<close>

definition cstr :: "string \<Rightarrow> string" where
  "cstr s = takeWhile (\<lambda>c. c \<noteq> NUL) s"

lemma cstr_no_nul: "no_nul s \<Longrightarrow> cstr s = s"
  by (induction s) (auto simp: cstr_def)

lemma no_nul_cstr [simp]: "no_nul (cstr s)"
  by (induction s) (auto simp: cstr_def)

lemma cstr_append_nul: "no_nul s \<Longrightarrow> cstr (s @ NUL # t) = s"
  by (induction s) (auto simp: cstr_def)

text \<open>
  \<open>strncmp(s, t, n) == 0\<close> for two terminated strings: the first \<open>n\<close> characters agree,
  or the strings are equal and shorter.
\<close>

definition strncmp_eq :: "string \<Rightarrow> string \<Rightarrow> nat \<Rightarrow> bool" where
  "strncmp_eq s t n \<longleftrightarrow> take n s = take n t"

definition starts_with :: "string \<Rightarrow> string \<Rightarrow> bool" where
  "starts_with p s \<longleftrightarrow> take (length p) s = p"

lemma starts_with_Nil [simp]: "starts_with [] s"
  by (simp add: starts_with_def)

lemma starts_with_Cons [simp]:
  "starts_with (c # p) [] = False"
  "starts_with (c # p) (d # s) \<longleftrightarrow> c = d \<and> starts_with p s"
  by (auto simp: starts_with_def)

lemma starts_with_append [simp]: "starts_with p (p @ s)"
  by (simp add: starts_with_def)

section \<open>32-bit signed integers\<close>

text \<open>The value a conversion to \<open>int\<close> leaves: the low 32 bits as two's complement.\<close>

definition i32 :: "int \<Rightarrow> int" where
  "i32 x = (x + 2 ^ 31) mod 2 ^ 32 - 2 ^ 31"

text \<open>The value a conversion to \<open>size_t\<close> (64 bits) leaves.\<close>

definition u64 :: "int \<Rightarrow> int" where
  "u64 x = x mod 2 ^ 64"

text \<open>The value a conversion to \<open>long\<close> (64 bits) leaves.\<close>

definition i64 :: "int \<Rightarrow> int" where
  "i64 x = (x + 2 ^ 63) mod 2 ^ 64 - 2 ^ 63"

lemma i32_id: "- (2 ^ 31) \<le> x \<Longrightarrow> x < 2 ^ 31 \<Longrightarrow> i32 x = x"
  by (simp add: i32_def)

lemma i32_range: "- (2 ^ 31) \<le> i32 x \<and> i32 x < 2 ^ 31"
proof -
  have "0 \<le> (x + 2 ^ 31) mod 2 ^ 32" "(x + 2 ^ 31) mod 2 ^ 32 < 2 ^ 32"
    by simp_all
  then show ?thesis by (simp add: i32_def)
qed

lemma u64_id: "0 \<le> x \<Longrightarrow> x < 2 ^ 64 \<Longrightarrow> u64 x = x"
  by (simp add: u64_def)

lemma i64_id: "- (2 ^ 63) \<le> x \<Longrightarrow> x < 2 ^ 63 \<Longrightarrow> i64 x = x"
  by (simp add: i64_def)

section \<open>Blocks of memory\<close>

record block =
  bsize :: nat
  cells :: "char option list"

definition malloc :: "nat \<Rightarrow> block" where
  "malloc n = \<lparr>bsize = n, cells = []\<rparr>"

text \<open>The content of byte \<open>i\<close>: \<open>None\<close> where nothing was written.\<close>

definition cell :: "block \<Rightarrow> nat \<Rightarrow> char option" where
  "cell b i = (if i < length (cells b) then cells b ! i else None)"

text \<open>Reading a byte whose value the code goes on to use.\<close>

definition blk_get :: "block \<Rightarrow> nat \<Rightarrow> char res" where
  "blk_get b i =
     (if i < bsize b
      then (case cell b i of None \<Rightarrow> Inl Uninit_Read | Some c \<Rightarrow> Inr c)
      else Inl Out_Of_Bounds)"

text \<open>
  \<open>memcpy\<close> out of a block (the bytes may be unwritten) and into one. Bytes between the
  written part and the offset stay unwritten.
\<close>

definition blk_slice :: "block \<Rightarrow> nat \<Rightarrow> nat \<Rightarrow> char option list res" where
  "blk_slice b off n =
     (if off + n \<le> bsize b then Inr (map (cell b) [off..<off + n]) else Inl Out_Of_Bounds)"

definition blk_copy :: "block \<Rightarrow> nat \<Rightarrow> char option list \<Rightarrow> block res" where
  "blk_copy b off xs =
     (if off + length xs \<le> bsize b
      then Inr (b\<lparr>cells := take off (cells b @ replicate (off - length (cells b)) None)
                           @ xs @ drop (off + length xs) (cells b)\<rparr>)
      else Inl Out_Of_Bounds)"

abbreviation blk_set :: "block \<Rightarrow> nat \<Rightarrow> char \<Rightarrow> block res" where
  "blk_set b i c \<equiv> blk_copy b i [Some c]"

text \<open>The block holds the bytes \<open>s\<close> from its start, and possibly more after them.\<close>

definition blk_holds :: "block \<Rightarrow> string \<Rightarrow> bool" where
  "blk_holds b s \<longleftrightarrow> length s \<le> bsize b \<and> take (length s) (cells b) = map Some s"

lemma malloc_simps [simp]: "bsize (malloc n) = n" "cells (malloc n) = []"
  by (simp_all add: malloc_def)

lemma blk_holds_Nil [simp]: "blk_holds b []"
  by (simp add: blk_holds_def)

lemma blk_holds_length: "blk_holds b s \<Longrightarrow> length s \<le> length (cells b)"
  unfolding blk_holds_def by (metis length_map length_take min.cobounded1 min_def)

lemma blk_holds_cell: "blk_holds b s \<Longrightarrow> i < length s \<Longrightarrow> cell b i = Some (s ! i)"
proof -
  assume b: "blk_holds b s" and i: "i < length s"
  have "cells b ! i = take (length s) (cells b) ! i" using i by simp
  also have "\<dots> = Some (s ! i)" using b i by (simp add: blk_holds_def)
  finally show ?thesis using blk_holds_length [OF b] i by (simp add: cell_def)
qed

lemma blk_holds_get [block_simps]:
  "blk_holds b s \<Longrightarrow> i < length s \<Longrightarrow> blk_get b i = Inr (s ! i)"
  using blk_holds_cell [of b s i] by (auto simp: blk_get_def blk_holds_def)

lemma blk_holds_prefix: "blk_holds b (s @ t) \<Longrightarrow> blk_holds b s"
proof -
  assume b: "blk_holds b (s @ t)"
  have "take (length s) (cells b) = take (length s) (take (length (s @ t)) (cells b))"
    by simp
  also have "\<dots> = map Some s" using b by (simp add: blk_holds_def)
  finally show ?thesis using b by (simp add: blk_holds_def)
qed

lemma blk_holds_slice [block_simps]:
  assumes "blk_holds b s"
  shows "blk_slice b 0 (length s) = Inr (map Some s)"
proof -
  have "map (cell b) [0..<length s] = map Some s"
    by (rule nth_equalityI) (auto simp: blk_holds_cell [OF assms])
  then show ?thesis using assms by (simp add: blk_slice_def blk_holds_def)
qed

lemma blk_slice_0 [simp]: "blk_slice b off 0 = (if off \<le> bsize b then Inr [] else Inl Out_Of_Bounds)"
  by (simp add: blk_slice_def)

lemma blk_copy_size: "blk_copy b off xs = Inr b' \<Longrightarrow> bsize b' = bsize b"
  by (auto simp: blk_copy_def split: if_splits)

text \<open>Appending at the end of what the block holds.\<close>

lemma blk_holds_append:
  assumes "blk_holds b s" "length s + length t \<le> bsize b"
  shows "\<exists>b'. blk_copy b (length s) (map Some t) = Inr b' \<and> blk_holds b' (s @ t)
           \<and> bsize b' = bsize b"
  using assms blk_holds_length [OF assms(1)] by (auto simp: blk_copy_def blk_holds_def)

text \<open>The block holds the bytes \<open>s\<close> and nothing was written behind them.\<close>

definition blk_exact :: "block \<Rightarrow> string \<Rightarrow> bool" where
  "blk_exact b s \<longleftrightarrow> length s \<le> bsize b \<and> cells b = map Some s"

lemma blk_exact_holds: "blk_exact b s \<Longrightarrow> blk_holds b s"
  by (simp add: blk_exact_def blk_holds_def)

lemma blk_exact_malloc [simp]: "blk_exact (malloc n) []"
  by (simp add: blk_exact_def)

lemma blk_exact_append:
  "blk_exact b s \<Longrightarrow> length s + length t \<le> bsize b \<Longrightarrow>
     \<exists>b'. blk_copy b (length s) (map Some t) = Inr b' \<and> blk_exact b' (s @ t) \<and> bsize b' = bsize b"
  by (simp add: blk_copy_def blk_exact_def)

lemma blk_exact_set:
  "blk_exact b s \<Longrightarrow> i < length s \<Longrightarrow>
     \<exists>b'. blk_set b i c = Inr b' \<and> blk_exact b' (s[i := c]) \<and> bsize b' = bsize b"
  by (cases "length s") (auto simp: blk_copy_def blk_exact_def upd_conv_take_nth_drop take_map drop_map)

lemma blk_exact_end: "blk_exact b s \<Longrightarrow> \<exists>e. blk_get b (length s) = Inl e"
  by (simp add: blk_get_def blk_exact_def cell_def)

lemma blk_copy_fault [block_simps]:
  "bsize b < off + length xs \<Longrightarrow> blk_copy b off xs = Inl Out_Of_Bounds"
  by (simp add: blk_copy_def)

text \<open>
  \<open>strncmp(b + i, p, strlen p) == 0\<close> against a literal \<open>p\<close>: the bytes are compared one by
  one, and the comparison stops at the first difference. Only the bytes it reaches are read.
\<close>

fun strncmp_lit :: "block \<Rightarrow> nat \<Rightarrow> string \<Rightarrow> bool res" where
  "strncmp_lit b i [] = Inr True"
| "strncmp_lit b i (p # ps) =
     rbind (blk_get b i) (\<lambda>c. if c = p then strncmp_lit b (Suc i) ps else Inr False)"

lemma strncmp_lit_holds:
  "blk_holds b (s @ t) \<Longrightarrow> length p \<le> length t \<Longrightarrow>
     strncmp_lit b (length s) p = Inr (starts_with p t)"
proof (induction p arbitrary: s t)
  case Nil
  then show ?case by simp
next
  case (Cons x p)
  then obtain y t' where t: "t = y # t'" by (cases t) auto
  have "strncmp_lit b (length (s @ [y])) p = Inr (starts_with p t')"
    using Cons.prems t by (intro Cons.IH) auto
  moreover have "blk_get b (length s) = Inr y"
    using blk_holds_get [OF Cons.prems(1), of "length s"] t by simp
  ultimately show ?case by (auto simp: t)
qed

text \<open>Reading the C string that starts at byte \<open>off\<close> of a block, as \<open>strlen\<close> does.\<close>

fun cstr_cells :: "char option list \<Rightarrow> fault \<Rightarrow> string res" where
  "cstr_cells [] e = Inl e"
| "cstr_cells (None # xs) e = Inl Uninit_Read"
| "cstr_cells (Some c # xs) e =
     (if c = NUL then Inr [] else rbind (cstr_cells xs e) (\<lambda>s. Inr (c # s)))"

definition blk_cstr :: "block \<Rightarrow> string res" where
  "blk_cstr b =
     cstr_cells (cells b) (if length (cells b) < bsize b then Uninit_Read else Out_Of_Bounds)"

lemma cstr_cells_term:
  "no_nul s \<Longrightarrow> cstr_cells (map Some s @ Some NUL # xs) e = Inr s"
  by (induction s) auto

lemma blk_cstr_holds:
  assumes "blk_holds b (s @ [NUL])" "no_nul s"
  shows "blk_cstr b = Inr s"
proof -
  have "cells b = map Some (s @ [NUL]) @ drop (length (s @ [NUL])) (cells b)"
    using assms(1) unfolding blk_holds_def by (metis append_take_drop_id)
  then have "cells b = map Some s @ Some NUL # drop (length (s @ [NUL])) (cells b)"
    by simp
  then show ?thesis using cstr_cells_term [OF assms(2)] unfolding blk_cstr_def by metis
qed

section \<open>Buffers that grow\<close>

text \<open>
  The contract of the two append-only string buffers of the program (the SMTP response of
  \<^verbatim>\<open>src/response.c\<close> and the JSON buffer of \<^verbatim>\<open>src/mailhandler/string_buffer.c\<close>). A buffer
  \<open>holds\<close> a string; appending a piece that the buffer accepts succeeds and appends it.
\<close>

fun app_list :: "('b \<Rightarrow> string \<Rightarrow> 'b res) \<Rightarrow> 'b \<Rightarrow> string list \<Rightarrow> 'b res" where
  "app_list app b [] = Inr b"
| "app_list app b (d # ds) = rbind (app b d) (\<lambda>b'. app_list app b' ds)"

locale append_buffer =
  fixes new :: 'b
    and app :: "'b \<Rightarrow> string \<Rightarrow> 'b res"
    and holds :: "'b \<Rightarrow> string \<Rightarrow> bool"
    and accepts :: "string \<Rightarrow> bool"
  assumes holds_new: "holds new []"
    and app_holds: "holds b s \<Longrightarrow> accepts d \<Longrightarrow> \<exists>b'. app b d = Inr b' \<and> holds b' (s @ d)"
begin

lemma app_list_holds:
  "holds b s \<Longrightarrow> list_all accepts ds \<Longrightarrow>
     \<exists>b'. app_list app b ds = Inr b' \<and> holds b' (s @ concat ds)"
proof (induction ds arbitrary: b s)
  case Nil
  then show ?case by simp
next
  case (Cons d ds)
  then obtain b' where b': "app b d = Inr b'" "holds b' (s @ d)"
    using app_holds by fastforce
  with Cons.IH [OF b'(2)] Cons.prems show ?case by auto
qed

lemma app_fails_only_if:
  "holds b s \<Longrightarrow> app b d = Inl e \<Longrightarrow> \<not> accepts d"
  using app_holds by fastforce

end

section \<open>Bounded queues\<close>

text \<open>
  The contract of the message queue between the SMTP worker (which enqueues) and the mail
  handler (which dequeues). A call answers \<open>None\<close> where it would block. \<open>fifo_run\<close> is the
  specification: a list of at most \<open>cap\<close> messages, with the code of the full and of the
  empty queue.
\<close>

datatype 'm qop = Enq 'm | Deq

fun fifo_step :: "nat \<Rightarrow> int \<Rightarrow> int \<Rightarrow> 'm list \<Rightarrow> 'm qop \<Rightarrow> 'm list \<times> int \<times> 'm option" where
  "fifo_step cap full emp q (Enq m) =
     (if length q < cap then (q @ [m], 0, None) else (q, full, None))"
| "fifo_step cap full emp q Deq =
     (case q of [] \<Rightarrow> ([], emp, None) | m # q' \<Rightarrow> (q', 0, Some m))"

fun fifo_run ::
  "nat \<Rightarrow> int \<Rightarrow> int \<Rightarrow> 'm list \<Rightarrow> 'm qop list \<Rightarrow> 'm list \<times> (int \<times> 'm option) list" where
  "fifo_run cap full emp q [] = (q, [])"
| "fifo_run cap full emp q (x # xs) =
     (case fifo_step cap full emp q x of (q', r) \<Rightarrow>
      case fifo_run cap full emp q' xs of (q'', rs) \<Rightarrow> (q'', r # rs))"

fun queue_step ::
  "('s \<Rightarrow> 'm \<Rightarrow> ('s \<times> int) option res) \<Rightarrow> ('s \<Rightarrow> ('s \<times> int \<times> 'm option) option res) \<Rightarrow>
   's \<Rightarrow> 'm qop \<Rightarrow> ('s \<times> int \<times> 'm option) option res" where
  "queue_step enq deq s (Enq m) =
     rbind (enq s m) (\<lambda>r. Inr (map_option (\<lambda>(s', c). (s', c, None)) r))"
| "queue_step enq deq s Deq = deq s"

fun queue_run ::
  "('s \<Rightarrow> 'm \<Rightarrow> ('s \<times> int) option res) \<Rightarrow> ('s \<Rightarrow> ('s \<times> int \<times> 'm option) option res) \<Rightarrow>
   's \<Rightarrow> 'm qop list \<Rightarrow> ('s \<times> (int \<times> 'm option) list) option res" where
  "queue_run enq deq s [] = Inr (Some (s, []))"
| "queue_run enq deq s (x # xs) =
     rbind (queue_step enq deq s x)
       (\<lambda>r. case r of
          None \<Rightarrow> Inr None
        | Some (s', a) \<Rightarrow>
            rbind (queue_run enq deq s' xs) (\<lambda>r. Inr (map_option (\<lambda>(s'', bs). (s'', a # bs)) r)))"

locale bounded_fifo =
  fixes enq :: "'s \<Rightarrow> 'm \<Rightarrow> ('s \<times> int) option res"
    and deq :: "'s \<Rightarrow> ('s \<times> int \<times> 'm option) option res"
    and inv :: "'s \<Rightarrow> bool"
    and items :: "'s \<Rightarrow> 'm list"
    and cap :: "'s \<Rightarrow> nat"
    and full emp :: int
  assumes items_le: "inv s \<Longrightarrow> length (items s) \<le> cap s"
    and enq_room: "inv s \<Longrightarrow> length (items s) < cap s \<Longrightarrow>
      \<exists>s'. enq s m = Inr (Some (s', 0)) \<and> inv s' \<and> items s' = items s @ [m] \<and> cap s' = cap s"
    and enq_full: "inv s \<Longrightarrow> length (items s) = cap s \<Longrightarrow> enq s m = Inr (Some (s, full))"
    and deq_some: "inv s \<Longrightarrow> items s \<noteq> [] \<Longrightarrow>
      \<exists>s'. deq s = Inr (Some (s', 0, Some (hd (items s)))) \<and> inv s' \<and> items s' = tl (items s)
        \<and> cap s' = cap s"
    and deq_empty: "inv s \<Longrightarrow> items s = [] \<Longrightarrow> deq s = Inr (Some (s, emp, None))"
begin

lemma enq_refines:
  assumes "inv s"
  shows "\<exists>s' q c. enq s m = Inr (Some (s', c)) \<and> inv s' \<and> cap s' = cap s
    \<and> fifo_step (cap s) full emp (items s) (Enq m) = (items s', c, None)"
proof (cases "length (items s) < cap s")
  case True
  then show ?thesis using enq_room [OF assms] by fastforce
next
  case False
  then have "length (items s) = cap s" using items_le [OF assms] by simp
  then show ?thesis using enq_full [OF assms] assms by simp
qed

lemma deq_refines:
  assumes "inv s"
  shows "\<exists>s' c m. deq s = Inr (Some (s', c, m)) \<and> inv s' \<and> cap s' = cap s
    \<and> fifo_step (cap s) full emp (items s) Deq = (items s', c, m)"
proof (cases "items s")
  case Nil
  then show ?thesis using deq_empty [OF assms] assms by simp
next
  case (Cons m q)
  then show ?thesis using deq_some [OF assms] by fastforce
qed

lemma step_refines:
  assumes "inv s"
  shows "\<exists>s' a. queue_step enq deq s x = Inr (Some (s', a)) \<and> inv s' \<and> cap s' = cap s
    \<and> fifo_step (cap s) full emp (items s) x = (items s', a)"
proof (cases x)
  case (Enq m)
  then show ?thesis using enq_refines [OF assms, of m] by auto
next
  case Deq
  then show ?thesis using deq_refines [OF assms] by auto
qed

lemma run_refines:
  "inv s \<Longrightarrow> \<exists>s' rs. queue_run enq deq s xs = Inr (Some (s', rs)) \<and> inv s' \<and> cap s' = cap s
     \<and> fifo_run (cap s) full emp (items s) xs = (items s', rs)"
proof (induction xs arbitrary: s)
  case Nil
  then show ?case by simp
next
  case (Cons x xs)
  obtain s' a where s': "queue_step enq deq s x = Inr (Some (s', a))" "inv s'" "cap s' = cap s"
    "fifo_step (cap s) full emp (items s) x = (items s', a)"
    using step_refines [OF Cons.prems] by blast
  then show ?case using Cons.IH [OF s'(2)] by auto
qed

end

end
