(* ===== verification/Base_Types.thy ===== *)
theory Base_Types
  imports Prelude
begin

text \<open>
  The data of \<^verbatim>\<open>src/base.h\<close>: the connection states, the array bounds and the structs that
  the components of the server share. Sizes and counts that the code keeps in an \<open>int\<close> and
  only ever increases from 0 are \<open>nat\<close>; configuration values, which come from
  \<open>atoi\<close> and can be negative, are \<open>int\<close>. A field that no constructor of the struct
  initialises is an \<open>option\<close> (\<open>None\<close>: never written), as is a pointer that may be NULL.
\<close>

section \<open>Constants\<close>

datatype conn_status =
    CONN_STARTED | CONN_READING | CONN_ERROR | CONN_WRITING | CONN_CLOSED | CONN_INACTIVE

definition KEY_MAX_LEN :: nat where "KEY_MAX_LEN = 128"
definition VALUE_MAX_LEN :: nat where "VALUE_MAX_LEN = 1024"
definition HEADER_MAX_LEN :: nat where "HEADER_MAX_LEN = 20"
definition BODY_MAX_LEN :: nat where "BODY_MAX_LEN = 8000"

lemmas max_len_defs = KEY_MAX_LEN_def VALUE_MAX_LEN_def HEADER_MAX_LEN_def BODY_MAX_LEN_def

section \<open>Structs\<close>

text \<open>\<open>hdr\<close>: two arrays of bytes, the key and the value of one mail header.\<close>

record hdr =
  hdr_key :: block
  hdr_value :: block

definition new_hdr :: hdr where
  "new_hdr = \<lparr>hdr_key = malloc KEY_MAX_LEN, hdr_value = malloc VALUE_MAX_LEN\<rparr>"

record request =
  rq_headers :: "hdr list"
  rq_header_count :: "nat option"
  rq_body :: "block option"
  rq_body_len :: nat
  rq_in_data :: bool
  rq_data :: "block option"
  rq_data_alloc :: nat
  rq_data_len :: nat
  rq_quit :: bool
  rq_process :: bool

record response =
  rs_data_alloc :: nat
  rs_data_len :: nat
  rs_data :: "block option"

text \<open>
  \<open>connection\<close>, without the descriptor, port and server pointer, which never change.
  \<open>cn_read_buffer\<close>, \<open>cn_request\<close> and \<open>cn_response\<close> are pointers.
\<close>

record connection =
  cn_request :: "request option"
  cn_response :: "response option"
  cn_status :: conn_status
  cn_read_buffer :: "block option"
  cn_buffer_len :: nat

record config =
  listen_port :: int
  max_workers :: int
  max_pending :: int
  max_clients :: int
  child_stack_size :: int
  read_buffer_size :: int
  write_buffer_size :: int
  data_buffer_size :: int
  tcp_nodelay :: int
  server_name :: string
  hostname :: string
  daemonize :: int
  chroot :: string
  queue_file :: string
  queue_size :: int
  web_service_url :: string

text \<open>\<open>mail\<close>: what a queued message holds.\<close>

record mail =
  ml_headers :: "hdr list"
  ml_header_count :: nat
  ml_body :: block

text \<open>\<open>sizeof(hdr)\<close> and \<open>sizeof(mail)\<close>: arrays of \<open>char\<close> and one aligned \<open>int\<close>.\<close>

definition sizeof_hdr :: nat where
  "sizeof_hdr = KEY_MAX_LEN + VALUE_MAX_LEN"

definition sizeof_mail :: nat where
  "sizeof_mail = HEADER_MAX_LEN * sizeof_hdr + 4 + BODY_MAX_LEN"

lemma sizeof_mail_value: "sizeof_mail = 31044"
  by (simp add: sizeof_mail_def sizeof_hdr_def max_len_defs)

text \<open>
  The C string a header array holds, when the code has written it and a terminator.
\<close>

definition holds_cstr :: "block \<Rightarrow> string \<Rightarrow> bool" where
  "holds_cstr b s \<longleftrightarrow> blk_holds b (s @ [NUL]) \<and> no_nul s"

lemma holds_cstr_read: "holds_cstr b s \<Longrightarrow> blk_cstr b = Inr s"
  by (simp add: holds_cstr_def blk_cstr_holds)

end
