(* ===== verification/Response.thy ===== *)
theory Response
  imports Base_Types "HOL-Library.Word"
begin

text \<open>
  \<^verbatim>\<open>src/response.c\<close>: the buffer in which the answer to the client is put together, the
  lookup of a typed parameter, and the printing of a UUID. \<open>response_holds r s\<close> is the
  invariant: the buffer's content is the C string \<open>s\<close>. The lemmas show that appending never
  leaves the allocated block and appends (the interface \<open>append_buffer\<close>), and that the
  printed UUID has the canonical 36 characters and determines both numbers.
\<close>

section \<open>The response buffer\<close>

definition response_init :: response where
  "response_init = \<lparr>rs_data_alloc = 0, rs_data_len = 0, rs_data = None\<rparr>"

text \<open>
  \<open>memcpy\<close> from a NULL \<open>resp->data\<close> happens with length 0 only, where it copies nothing.
\<close>

definition response_grow :: "response \<Rightarrow> nat \<Rightarrow> response res" where
  "response_grow resp n =
     (let a = rs_data_len resp + n + 512 in
      rbind (case rs_data resp of
               None \<Rightarrow> (if rs_data_len resp = 0 then Inr [] else Inl Null_Deref)
             | Some b \<Rightarrow> blk_slice b 0 (rs_data_len resp)) (\<lambda>old.
      rbind (blk_copy (malloc a) 0 old) (\<lambda>tmp.
        Inr (resp\<lparr>rs_data_alloc := a, rs_data := Some tmp\<rparr>))))"

definition response_append :: "response \<Rightarrow> string \<Rightarrow> response res" where
  "response_append resp data =
     (let n = length data in
      rbind (if rs_data_len resp + n + 1 \<ge> rs_data_alloc resp
             then response_grow resp n else Inr resp) (\<lambda>resp.
      case rs_data resp of
        None \<Rightarrow> Inl Null_Deref
      | Some b \<Rightarrow>
          rbind (blk_copy b (rs_data_len resp) (map Some (data @ [NUL]))) (\<lambda>b'.
            Inr (resp\<lparr>rs_data := Some b', rs_data_len := rs_data_len resp + n\<rparr>))))"

definition response_holds :: "response \<Rightarrow> string \<Rightarrow> bool" where
  "response_holds resp s \<longleftrightarrow> rs_data_len resp = length s \<and>
     (case rs_data resp of
        None \<Rightarrow> s = [] \<and> rs_data_alloc resp = 0
      | Some b \<Rightarrow> bsize b = rs_data_alloc resp \<and> blk_holds b (s @ [NUL]))"

lemma response_grow_holds:
  assumes "response_holds resp s"
  shows "\<exists>r b. response_grow resp n = Inr r \<and> rs_data r = Some b \<and> blk_holds b s
           \<and> rs_data_len r = length s \<and> rs_data_alloc r = bsize b
           \<and> bsize b = length s + n + 512"
proof -
  let ?m = "malloc (length s + n + 512)"
  have len: "rs_data_len resp = length s" using assms by (simp add: response_holds_def)
  have old: "(case rs_data resp of
               None \<Rightarrow> (if rs_data_len resp = 0 then Inr [] else Inl Null_Deref)
             | Some b \<Rightarrow> blk_slice b 0 (rs_data_len resp)) = Inr (map Some s)"
    using assms by (auto simp: response_holds_def len blk_holds_slice dest: blk_holds_prefix
        split: option.splits)
  have "\<exists>b. blk_copy ?m 0 (map Some s) = Inr b \<and> blk_holds b s \<and> bsize b = bsize ?m"
    using blk_holds_append [of ?m "[]" s] by simp
  then show ?thesis by (auto simp: response_grow_def old len Let_def)
qed

lemma response_append_holds:
  assumes "response_holds resp s"
  shows "\<exists>r. response_append resp d = Inr r \<and> response_holds r (s @ d)"
proof -
  have "\<exists>r b. (if rs_data_len resp + length d + 1 \<ge> rs_data_alloc resp
             then response_grow resp (length d) else Inr resp) = Inr r
      \<and> rs_data r = Some b \<and> blk_holds b s \<and> rs_data_len r = length s
      \<and> rs_data_alloc r = bsize b \<and> length s + length d + 1 \<le> bsize b"
  proof (cases "rs_data_len resp + length d + 1 \<ge> rs_data_alloc resp")
    case True
    then show ?thesis using response_grow_holds [OF assms, of "length d"] by fastforce
  next
    case False
    then show ?thesis using assms
      by (auto simp: response_holds_def dest: blk_holds_prefix split: option.splits)
  qed
  then obtain r b where r: "(if rs_data_len resp + length d + 1 \<ge> rs_data_alloc resp
             then response_grow resp (length d) else Inr resp) = Inr r"
    "rs_data r = Some b" "blk_holds b s" "rs_data_len r = length s"
    "rs_data_alloc r = bsize b" "length s + length d + 1 \<le> bsize b"
    by blast
  obtain b' where "blk_copy b (length s) (map Some (d @ [NUL])) = Inr b'"
      "blk_holds b' (s @ d @ [NUL])" "bsize b' = bsize b"
    using blk_holds_append [OF r(3), of "d @ [NUL]"] r(6) by auto
  then show ?thesis using r by (simp add: response_append_def Let_def response_holds_def)
qed

lemma response_holds_init: "response_holds response_init []"
  by (simp add: response_holds_def response_init_def)

interpretation resp_buffer: append_buffer response_init response_append response_holds "\<lambda>_. True"
  by unfold_locales (auto simp: response_holds_init response_append_holds)

text \<open>What \<open>send\<close> reads: the first \<open>data_len\<close> bytes.\<close>

lemma response_holds_slice:
  "response_holds resp s \<Longrightarrow> rs_data resp = Some b \<Longrightarrow>
     blk_slice b 0 (rs_data_len resp) = Inr (map Some s)"
  by (auto simp: response_holds_def blk_holds_slice dest: blk_holds_prefix)

text \<open>\<open>response_free\<close> frees the block and the struct: nothing of the response is left.\<close>

definition response_free :: "response \<Rightarrow> response option" where
  "response_free resp = None"

section \<open>Typed parameters\<close>

text \<open>
  \<open>storage_exists\<close> and \<open>storage_get_node\<close> are functions of libjson: parameters. A node
  carries a type tag and a value.
\<close>

record 'v snode =
  sn_type :: char
  sn_value :: 'v

definition get_param_from_storage ::
  "('st \<Rightarrow> string \<Rightarrow> nat \<Rightarrow> int) \<Rightarrow> ('st \<Rightarrow> string \<Rightarrow> nat \<Rightarrow> 'v snode) \<Rightarrow>
   'st \<Rightarrow> string \<Rightarrow> char \<Rightarrow> 'v option" where
  "get_param_from_storage storage_exists storage_get_node st key type =
     (if storage_exists st key (length key) = 0
      then (let val = storage_get_node st key (length key) in
            if sn_type val = type then Some (sn_value val) else None)
      else None)"

section \<open>Printing a UUID\<close>

text \<open>The bytes of an \<open>int64_t\<close> in memory, lowest first, and two hexadecimal digits.\<close>

definition le_bytes :: "64 word \<Rightarrow> 8 word list" where
  "le_bytes w = map (\<lambda>i. ucast (drop_bit (8 * i) w)) [0..<8]"

definition hex_digit :: "nat \<Rightarrow> char" where
  "hex_digit n = ''0123456789abcdef'' ! n"

definition hex2 :: "8 word \<Rightarrow> string" where
  "hex2 b = [hex_digit (unat b div 16), hex_digit (unat b mod 16)]"

text \<open>
  The loop runs \<open>i\<close> from 15 down to 0 and puts a dash after 4, 6, 8 and 10 bytes.
\<close>

definition uuid_piece :: "8 word list \<Rightarrow> nat \<Rightarrow> string" where
  "uuid_piece uuid i =
     hex2 (uuid ! i) @
     (if 16 - i = 4 \<or> 16 - i = 6 \<or> 16 - i = 8 \<or> 16 - i = 10 then ''-'' else [])"

definition response_build_uuid :: "64 word \<Rightarrow> 64 word \<Rightarrow> string" where
  "response_build_uuid lo hi =
     (let uuid = le_bytes lo @ le_bytes hi in concat (map (uuid_piece uuid) (rev [0..<16])))"

lemma hex_digit_inj: "i < 16 \<Longrightarrow> j < 16 \<Longrightarrow> hex_digit i = hex_digit j \<Longrightarrow> i = j"
proof -
  have "distinct ''0123456789abcdef''" by simp
  then show "i < 16 \<Longrightarrow> j < 16 \<Longrightarrow> hex_digit i = hex_digit j \<Longrightarrow> i = j"
    by (simp add: hex_digit_def nth_eq_iff_index_eq)
qed

lemma hex2_inj: "hex2 a = hex2 b \<Longrightarrow> a = b"
proof -
  assume "hex2 a = hex2 b"
  moreover have "unat a < 256" "unat b < 256"
    using unsigned_less [of a] unsigned_less [of b] by simp_all
  ultimately have "unat a div 16 = unat b div 16" "unat a mod 16 = unat b mod 16"
    by (auto simp: hex2_def intro!: hex_digit_inj)
  then have "unat a = unat b" by (metis div_mult_mod_eq)
  then show "a = b" by (simp add: word_unat_eq_iff)
qed

lemma le_bytes_inj: "le_bytes v = le_bytes w \<Longrightarrow> v = w"
proof (rule bit_word_eqI)
  fix n assume eq: "le_bytes v = le_bytes w" and n: "n < LENGTH(64)"
  have "(le_bytes v) ! (n div 8) = (le_bytes w) ! (n div 8)" using eq by simp
  moreover have "n div 8 < 8" using n by simp
  ultimately have "ucast (drop_bit (8 * (n div 8)) v) = (ucast (drop_bit (8 * (n div 8)) w) :: 8 word)"
    by (simp add: le_bytes_def del: upt_Suc)
  then have "bit (ucast (drop_bit (8 * (n div 8)) v) :: 8 word) (n mod 8)
      = bit (ucast (drop_bit (8 * (n div 8)) w) :: 8 word) (n mod 8)" by simp
  then show "bit v n \<longleftrightarrow> bit w n"
    by (simp add: bit_ucast_iff bit_drop_bit_eq)
qed

lemma upt16_rev: "rev [0..<16] = [15, 14, 13, 12, 11, 10, 9, 8, 7, 6, 5, 4, 3, 2, 1, 0 :: nat]"
  by (simp add: upt_rec)

lemma le_bytes_length [simp]: "length (le_bytes w) = 8"
  by (simp add: le_bytes_def)

lemma uuid_length: "length (response_build_uuid lo hi) = 36"
  by (simp add: response_build_uuid_def Let_def upt16_rev uuid_piece_def hex2_def)

lemma uuid_inj:
  assumes "response_build_uuid lo hi = response_build_uuid lo' hi'"
  shows "lo = lo' \<and> hi = hi'"
proof -
  let ?u = "le_bytes lo @ le_bytes hi" and ?v = "le_bytes lo' @ le_bytes hi'"
  have "\<forall>i \<in> set (rev [0..<16]). hex2 (?u ! i) = hex2 (?v ! i)"
    using assms by (simp add: response_build_uuid_def Let_def upt16_rev uuid_piece_def hex2_def)
  then have "\<forall>i < 16. ?u ! i = ?v ! i" by (auto intro: hex2_inj)
  then have "?u = ?v" by (intro nth_equalityI) auto
  then show ?thesis by (auto dest: le_bytes_inj)
qed

end
