(* ===== verification/Request.thy ===== *)
theory Request
  imports Response
begin

text \<open>
  \<^verbatim>\<open>src/request.c\<close>: the SMTP dialogue over the bytes of one read
  (\<open>request_parse_commands\<close>) and the parsing of a received message into headers and body
  (\<open>request_parse_data\<close>).

  Both loops work on blocks of memory and fault where the code reads or writes outside them.
  \<open>smtp_scan\<close> is the specification of the dialogue on plain strings, \<open>request_refines\<close> its
  simulation relation; \<open>parses_to\<close> is what the header parser leaves behind.
\<close>

section \<open>Creating and freeing a request\<close>

definition request_init :: request where
  "request_init =
     \<lparr>rq_headers = replicate HEADER_MAX_LEN new_hdr, rq_header_count = None,
      rq_body = None, rq_body_len = 0, rq_in_data = False,
      rq_data = None, rq_data_alloc = 0, rq_data_len = 0,
      rq_quit = False, rq_process = False\<rparr>"

text \<open>\<open>request_free\<close> frees the headers, the data, the body and the struct.\<close>

definition request_free :: "request \<Rightarrow> request option" where
  "request_free req = None"

section \<open>The SMTP dialogue\<close>

definition DATA_CMD :: string where "DATA_CMD = ''DATA'' @ CRLF"
definition END_DATA :: string where "END_DATA = CRLF @ ''.'' @ CRLF"

definition reply_data :: string where
  "reply_data = ''354 End data with <CR><LF>.<CR><LF>'' @ CRLF"
definition reply_ehlo :: string where
  "reply_ehlo = ''250 Hi, you have a report for me?'' @ CRLF"
definition reply_ok :: string where
  "reply_ok = ''250 Ok'' @ CRLF"
definition reply_quit :: string where
  "reply_quit = ''221 Bye, see you tomorrow!'' @ CRLF"
definition reply_queued :: string where
  "reply_queued = ''250 Ok: queued as nada'' @ CRLF"

text \<open>
  One iteration outside DATA, at byte \<open>i\<close>: the result says how many further bytes are
  skipped.
\<close>

definition cmd_step :: "block \<Rightarrow> nat \<Rightarrow> request \<Rightarrow> response \<Rightarrow> (nat \<times> request \<times> response) res" where
  "cmd_step buf i req resp =
     rbind (strncmp_lit buf i DATA_CMD) (\<lambda>is_data.
     if is_data then
       rbind (response_append resp reply_data) (\<lambda>resp. Inr (5, req\<lparr>rq_in_data := True\<rparr>, resp))
     else rbind (strncmp_lit buf i ''EHLO'') (\<lambda>is_ehlo.
     if is_ehlo then rbind (response_append resp reply_ehlo) (\<lambda>resp. Inr (0, req, resp))
     else rbind (strncmp_lit buf i ''MAIL FROM:'') (\<lambda>is_mail.
     if is_mail then rbind (response_append resp reply_ok) (\<lambda>resp. Inr (0, req, resp))
     else rbind (strncmp_lit buf i ''RCPT TO:'') (\<lambda>is_rcpt.
     if is_rcpt then rbind (response_append resp reply_ok) (\<lambda>resp. Inr (0, req, resp))
     else rbind (strncmp_lit buf i ''QUIT'') (\<lambda>is_quit.
     if is_quit then
       rbind (response_append resp reply_quit) (\<lambda>resp. Inr (0, req\<lparr>rq_quit := True\<rparr>, resp))
     else Inr (0, req, resp))))))"

definition data_grow :: "request \<Rightarrow> request res" where
  "data_grow req =
     (if rq_data_len req + 2 \<ge> rq_data_alloc req then
        let a = rq_data_len req + 512 in
        rbind (case rq_data req of
                 None \<Rightarrow> Inr (malloc a)
               | Some b \<Rightarrow> rbind (blk_slice b 0 (rq_data_len req)) (blk_copy (malloc a) 0)) (\<lambda>tmp.
          Inr (req\<lparr>rq_data_alloc := a, rq_data := Some tmp\<rparr>))
      else Inr req)"

text \<open>One iteration inside DATA; the flag is \<open>False\<close> where the loop breaks off.\<close>

definition data_step :: "int \<Rightarrow> char \<Rightarrow> request \<Rightarrow> response \<Rightarrow> (request \<times> response \<times> bool) res" where
  "data_step limit cur req resp =
     rbind (data_grow req) (\<lambda>req.
     if int (rq_data_len req) < limit then
       (case rq_data req of
          None \<Rightarrow> Inl Null_Deref
        | Some b \<Rightarrow>
            rbind (blk_set b (rq_data_len req) cur) (\<lambda>b.
            let n = rq_data_len req + 1; req = req\<lparr>rq_data := Some b, rq_data_len := n\<rparr> in
            rbind (if n > 4 then strncmp_lit b (n - 5) END_DATA else Inr False) (\<lambda>is_end.
            if is_end then
              rbind (response_append resp reply_queued) (\<lambda>resp.
              rbind (blk_set b (n - 5) NUL) (\<lambda>b.
                Inr (req\<lparr>rq_data := Some b, rq_in_data := False, rq_process := True,
                         rq_quit := True\<rparr>, resp, True)))
            else Inr (req, resp, True))))
     else Inr (req, resp, False))"

function request_loop ::
  "int \<Rightarrow> block \<Rightarrow> nat \<Rightarrow> nat \<Rightarrow> request \<Rightarrow> response \<Rightarrow> conn_status \<Rightarrow>
   (request \<times> response \<times> conn_status) res" where
  "request_loop limit buf data_len i req resp status =
     (if i < data_len then
        rbind (blk_get buf i) (\<lambda>cur.
        if \<not> rq_in_data req then
          rbind (cmd_step buf i req resp) (\<lambda>(k, req, resp).
            request_loop limit buf data_len (Suc (i + k)) req resp status)
        else
          rbind (data_step limit cur req resp) (\<lambda>(req, resp, go_on).
            if go_on then request_loop limit buf data_len (Suc i) req resp status
            else Inr (req, resp, CONN_ERROR)))
      else Inr (req, resp, status))"
  by pat_completeness auto
termination
  by (relation "measure (\<lambda>(limit, buf, data_len, i, req, resp, status). data_len - i)") auto

declare request_loop.simps [simp del]

definition request_parse_commands :: "config \<Rightarrow> connection \<Rightarrow> (connection \<times> int) res" where
  "request_parse_commands cfg conn =
     (case (cn_request conn, cn_response conn, cn_read_buffer conn) of
        (Some req, Some resp, Some buf) \<Rightarrow>
          rbind (request_loop (data_buffer_size cfg) buf (cn_buffer_len conn) 0 req resp
                   (cn_status conn)) (\<lambda>(req, resp, status).
            Inr (conn\<lparr>cn_request := Some req, cn_response := Some resp, cn_status := status\<rparr>,
                 if status = CONN_ERROR then 1 else 0))
      | _ \<Rightarrow> Inl Null_Deref)"

section \<open>Parsing a message\<close>

record parse_state =
  ps_i :: nat
  ps_done :: bool
  ps_is_key :: bool
  ps_cur_len :: nat
  ps_header_count :: nat
  ps_headers :: "hdr list"

text \<open>
  Writing one byte of \<open>headers[j]->key\<close> or \<open>headers[j]->value\<close>: \<open>headers\<close> has
  \<open>HEADER_MAX_LEN\<close> pointers.
\<close>

definition put_key :: "hdr list \<Rightarrow> nat \<Rightarrow> nat \<Rightarrow> char \<Rightarrow> hdr list res" where
  "put_key headers j off c =
     (if j < length headers
      then rbind (blk_set (hdr_key (headers ! j)) off c) (\<lambda>k.
             Inr (headers[j := (headers ! j)\<lparr>hdr_key := k\<rparr>]))
      else Inl Out_Of_Bounds)"

definition put_value :: "hdr list \<Rightarrow> nat \<Rightarrow> nat \<Rightarrow> char \<Rightarrow> hdr list res" where
  "put_value headers j off c =
     (if j < length headers
      then rbind (blk_set (hdr_value (headers ! j)) off c) (\<lambda>v.
             Inr (headers[j := (headers ! j)\<lparr>hdr_value := v\<rparr>]))
      else Inl Out_Of_Bounds)"

text \<open>
  The rest of an iteration after the test for the blank line, its \<open>++i\<close> included: \<open>cur\<close> is
  the byte read before that test. \<open>in_line_folding\<close> is 0 throughout (its only assignment is
  commented out in the source), so its branch is left out.
\<close>

definition parse_char :: "block \<Rightarrow> char \<Rightarrow> parse_state \<Rightarrow> parse_state res" where
  "parse_char data cur st =
     (if cur = CHR '':'' \<and> ps_is_key st then
       rbind (put_key (ps_headers st) (ps_header_count st) (ps_cur_len st) NUL) (\<lambda>hs.
         Inr (st\<lparr>ps_headers := hs, ps_is_key := False, ps_cur_len := 0, ps_i := ps_i st + 2\<rparr>))
     else
       rbind (strncmp_lit data (ps_i st) (CRLF @ [TAB])) (\<lambda>tab.
       rbind (if tab then Inr True else strncmp_lit data (ps_i st) (CRLF @ '' '')) (\<lambda>fold.
       if fold then Inr (st\<lparr>ps_i := ps_i st + 3\<rparr>)
       else if cur = CR then
         rbind (if ps_header_count st < HEADER_MAX_LEN
                then put_value (ps_headers st) (ps_header_count st) (ps_cur_len st) NUL
                else Inr (ps_headers st)) (\<lambda>hs.
           Inr (st\<lparr>ps_headers := hs, ps_cur_len := 0, ps_is_key := True,
                   ps_header_count := ps_header_count st + 1, ps_i := ps_i st + 2\<rparr>))
       else if cur = NUL then Inr (st\<lparr>ps_i := ps_i st + 1\<rparr>)
       else if ps_is_key st then
         (if cur \<noteq> CHR '' '' \<and> ps_cur_len st < KEY_MAX_LEN - 1
          then rbind (put_key (ps_headers st) (ps_header_count st) (ps_cur_len st) cur) (\<lambda>hs.
                 Inr (st\<lparr>ps_headers := hs, ps_cur_len := ps_cur_len st + 1, ps_i := ps_i st + 1\<rparr>))
          else Inr (st\<lparr>ps_i := ps_i st + 1\<rparr>))
       else
         (if ps_cur_len st < VALUE_MAX_LEN - 1
          then rbind (put_value (ps_headers st) (ps_header_count st) (ps_cur_len st) cur) (\<lambda>hs.
                 Inr (st\<lparr>ps_headers := hs, ps_cur_len := ps_cur_len st + 1, ps_i := ps_i st + 1\<rparr>))
          else Inr (st\<lparr>ps_i := ps_i st + 1\<rparr>)))))"

text \<open>At CR LF CR LF the loop is on its last iteration, which works on the second CR LF.\<close>

definition parse_step :: "block \<Rightarrow> nat \<Rightarrow> parse_state \<Rightarrow> parse_state res" where
  "parse_step data data_len st =
     rbind (blk_get data (ps_i st)) (\<lambda>cur.
     rbind (if data_len - ps_i st > 2 then strncmp_lit data (ps_i st) (CRLF @ CRLF) else Inr False)
       (\<lambda>blank.
     parse_char data cur (if blank then st\<lparr>ps_i := ps_i st + 2, ps_done := True\<rparr> else st)))"

lemma parse_char_returns: "returns (\<lambda>st'. ps_i st < ps_i st') (parse_char data cur st)"
  unfolding parse_char_def by (intro returns_rbind returns_if) simp_all

lemma parse_step_advances: "parse_step data n st = Inr st' \<Longrightarrow> ps_i st < ps_i st'"
proof (rule returnsD [where P = "\<lambda>st'. ps_i st < ps_i st'"])
  have "returns (\<lambda>st'. ps_i st < ps_i st')
      (parse_char data cur (if blank then st\<lparr>ps_i := ps_i st + 2, ps_done := True\<rparr> else st))"
    for cur blank
    using parse_char_returns [of "st\<lparr>ps_i := ps_i st + 2, ps_done := True\<rparr>" data cur]
      parse_char_returns [of st data cur]
    by (auto simp: returns_def split: sum.splits)
  then show "returns (\<lambda>st'. ps_i st < ps_i st') (parse_step data n st)"
    unfolding parse_step_def by (intro returns_rbind)
qed

function parse_loop :: "block \<Rightarrow> nat \<Rightarrow> parse_state \<Rightarrow> parse_state res" where
  "parse_loop data data_len st =
     (if ps_i st < data_len \<and> \<not> ps_done st
      then rbind (parse_step data data_len st) (parse_loop data data_len)
      else Inr st)"
  by pat_completeness auto
termination
  by (relation "measure (\<lambda>(data, n, st). n - ps_i st)") (auto dest!: parse_step_advances)

declare parse_loop.simps [simp del]

definition request_parse_data :: "request \<Rightarrow> request res" where
  "request_parse_data req =
     (let data_len = rq_data_len req in
      rbind (case rq_data req of
               None \<Rightarrow> (if data_len = 0 then Inr (malloc 0) else Inl Null_Deref)
             | Some b \<Rightarrow> Inr b) (\<lambda>data.
      rbind (parse_loop data data_len
               \<lparr>ps_i = 0, ps_done = False, ps_is_key = True, ps_cur_len = 0,
                ps_header_count = 0, ps_headers = rq_headers req\<rparr>) (\<lambda>st.
      let req = req\<lparr>rq_headers := ps_headers st, rq_header_count := Some (ps_header_count st)\<rparr> in
      if ps_i st < data_len \<and> ps_done st then
        let body_len = data_len - ps_i st in
        rbind (blk_slice data (ps_i st) body_len) (\<lambda>bytes.
        rbind (blk_copy (malloc (body_len + 1)) 0 bytes) (\<lambda>body.
        rbind (blk_set body body_len NUL) (\<lambda>body.
          Inr (req\<lparr>rq_body_len := body_len, rq_body := Some body\<rparr>))))
      else Inr req)))"

end
