(* ===== verification/C_Library.thy ===== *)
theory C_Library
  imports Base_Types
begin

text \<open>
  The functions of the C library that the code's results depend on: \<open>atoi\<close>, the \<open>%d\<close> of
  \<open>sprintf\<close>, \<open>tolower\<close> and \<open>strchr\<close>, on terminated strings and in the C locale. The
  round trip \<open>atoi_sprintf_d\<close> relates the first two.
\<close>

section \<open>Characters\<close>

definition isspace :: "char \<Rightarrow> bool" where
  "isspace c \<longleftrightarrow> c \<in> {CHR '' '', TAB, LF, CHR 0x0B, CHR 0x0C, CR}"

definition isdigit :: "char \<Rightarrow> bool" where
  "isdigit c \<longleftrightarrow> 48 \<le> (of_char c :: nat) \<and> (of_char c :: nat) \<le> 57"

definition tolower :: "char \<Rightarrow> char" where
  "tolower c = (let n = (of_char c :: nat) in if 65 \<le> n \<and> n \<le> 90 then char_of (n + 32) else c)"

lemma tolower_code: "of_char (tolower c) =
    (let n = (of_char c :: nat) in if 65 \<le> n \<and> n \<le> 90 then n + 32 else n)"
  by (simp add: tolower_def Let_def)

lemma tolower_idem [simp]: "tolower (tolower c) = tolower c"
proof -
  have "\<not> (65 \<le> (of_char (tolower c) :: nat) \<and> (of_char (tolower c) :: nat) \<le> 90)"
    by (simp add: tolower_code Let_def)
  then show ?thesis unfolding tolower_def [of "tolower c"] Let_def by (rule if_not_P)
qed

text \<open>A character below \<open>A\<close> is no letter and has no other lower case.\<close>

lemma tolower_eq_small:
  assumes "(of_char d :: nat) < 65"
  shows "tolower c = d \<longleftrightarrow> c = d"
proof
  assume "tolower c = d"
  then have "(of_char (tolower c) :: nat) < 65" using assms by simp
  then have "tolower c = c" by (auto simp: tolower_code tolower_def Let_def split: if_splits)
  then show "c = d" using \<open>tolower c = d\<close> by simp
qed (use assms in \<open>simp add: tolower_def\<close>)

text \<open>\<open>strchr(s, c) - s\<close>; the terminator is found behind the last character.\<close>

fun strchr :: "string \<Rightarrow> char \<Rightarrow> nat option" where
  "strchr [] c = (if c = NUL then Some 0 else None)"
| "strchr (d # s) c = (if d = c then Some 0 else map_option Suc (strchr s c))"

section \<open>Decimal numbers\<close>

fun digits_value :: "int \<Rightarrow> string \<Rightarrow> int" where
  "digits_value v [] = v"
| "digits_value v (c # s) =
     (if isdigit c then digits_value (v * 10 + (of_char c - 48)) s else v)"

text \<open>\<open>strtol\<close> stops at the bounds of \<open>long\<close>; \<open>atoi\<close> converts its result to \<open>int\<close>.\<close>

definition clamp_long :: "int \<Rightarrow> int" where
  "clamp_long x = max (- (2 ^ 63)) (min (2 ^ 63 - 1) x)"

definition atoi :: "string \<Rightarrow> int" where
  "atoi s =
     (let t = dropWhile isspace s in
      i32 (clamp_long
        (case t of
           [] \<Rightarrow> 0
         | c # u \<Rightarrow> if c = CHR ''-'' then - digits_value 0 u
                   else if c = CHR ''+'' then digits_value 0 u
                   else digits_value 0 t)))"

definition digit_char :: "nat \<Rightarrow> char" where
  "digit_char n = char_of (48 + n)"

fun show_nat :: "nat \<Rightarrow> string" where
  "show_nat n = (if n < 10 then [digit_char n] else show_nat (n div 10) @ [digit_char (n mod 10)])"

declare show_nat.simps [simp del]

definition sprintf_d :: "int \<Rightarrow> string" where
  "sprintf_d x = (if x < 0 then ''-'' @ show_nat (nat (- x)) else show_nat (nat x))"

lemma digit_char_code: "n < 10 \<Longrightarrow> of_char (digit_char n) = 48 + n"
  by (simp add: digit_char_def)

lemma of_char_digit: "n < 10 \<Longrightarrow> (of_char (digit_char n) :: int) = 48 + int n"
proof -
  assume "n < 10"
  then have "(of_char (digit_char n) :: nat) = 48 + n" by (rule digit_char_code)
  then have "int (of_char (digit_char n)) = 48 + int n" by presburger
  then show ?thesis by (simp only: of_nat_of_char)
qed

lemma isdigit_digit_char [simp]: "n < 10 \<Longrightarrow> isdigit (digit_char n)"
  by (simp add: isdigit_def digit_char_code)

lemma digits_value_snoc:
  "list_all isdigit s \<Longrightarrow> isdigit c \<Longrightarrow>
     digits_value v (s @ [c]) = digits_value v s * 10 + (of_char c - 48)"
  by (induction s arbitrary: v) auto

lemma show_nat_digits: "list_all isdigit (show_nat n) \<and> show_nat n \<noteq> []"
  by (induction n rule: show_nat.induct) (subst (1 2) show_nat.simps, auto)

lemma digits_value_show_nat: "digits_value 0 (show_nat n) = int n"
proof (induction n rule: show_nat.induct)
  case (1 n)
  show ?case
  proof (cases "n < 10")
    case True
    then show ?thesis
      by (simp add: show_nat.simps [of n] of_char_digit)
  next
    case False
    then have "digits_value 0 (show_nat n)
        = int (n div 10) * 10 + (of_char (digit_char (n mod 10)) - 48)"
      using "1.IH" show_nat_digits
      by (simp add: show_nat.simps [of n] digits_value_snoc)
    also have "\<dots> = int n div 10 * 10 + int n mod 10"
      using of_char_digit [of "n mod 10"] by (simp add: zdiv_int zmod_int del: div_mult_mod_eq)
    finally show ?thesis by (simp only: div_mult_mod_eq)
  qed
qed

lemma digit_no_space: "isdigit c \<Longrightarrow> \<not> isspace c \<and> c \<noteq> CHR ''-'' \<and> c \<noteq> CHR ''+'' \<and> c \<noteq> NUL"
  by (auto simp: isdigit_def isspace_def)

lemma atoi_sprintf_d: "- (2 ^ 31) \<le> x \<Longrightarrow> x < 2 ^ 31 \<Longrightarrow> atoi (sprintf_d x) = x"
proof -
  assume x: "- (2 ^ 31) \<le> x" "x < 2 ^ 31"
  have hd: "\<exists>c s. show_nat n = c # s \<and> isdigit c" for n
    using show_nat_digits [of n] by (cases "show_nat n") auto
  have "clamp_long x = x" "i32 x = x" using x by (simp_all add: clamp_long_def i32_id)
  show ?thesis
  proof (cases "x < 0")
    case True
    then show ?thesis using \<open>clamp_long x = x\<close> \<open>i32 x = x\<close>
      by (simp add: atoi_def sprintf_d_def isspace_def digits_value_show_nat)
  next
    case False
    obtain c s where c: "show_nat (nat x) = c # s" "isdigit c" using hd by blast
    then have "atoi (sprintf_d x) = i32 (clamp_long (digits_value 0 (show_nat (nat x))))"
      using False digit_no_space [OF c(2)] by (simp add: atoi_def sprintf_d_def)
    then show ?thesis using False \<open>clamp_long x = x\<close> \<open>i32 x = x\<close> by (simp add: digits_value_show_nat)
  qed
qed

lemma sprintf_d_chars: "c \<in> set (sprintf_d x) \<Longrightarrow> isdigit c \<or> c = CHR ''-''"
  using show_nat_digits [of "nat x"] show_nat_digits [of "nat (- x)"]
  by (auto simp: sprintf_d_def list_all_iff split: if_splits)

lemma sprintf_d_nonempty [simp]: "sprintf_d x \<noteq> []"
  using show_nat_digits by (simp add: sprintf_d_def)

lemma show_nat_length: "n < 10 ^ k \<Longrightarrow> 0 < k \<Longrightarrow> length (show_nat n) \<le> k"
proof (induction k arbitrary: n)
  case 0
  then show ?case by simp
next
  case (Suc k)
  show ?case
  proof (cases "n < 10")
    case True
    then show ?thesis by (simp add: show_nat.simps [of n])
  next
    case False
    then have "0 < k" using Suc.prems by (cases k) auto
    moreover have "n div 10 < 10 ^ k" using Suc.prems by (simp add: less_mult_imp_div_less)
    ultimately show ?thesis using Suc.IH [of "n div 10"] False by (simp add: show_nat.simps [of n])
  qed
qed

text \<open>\<open>sprintf\<close> at an offset of a block: the text goes there with its terminator.\<close>

definition sprintf_s :: "block \<Rightarrow> nat \<Rightarrow> string \<Rightarrow> (block \<times> nat) res" where
  "sprintf_s b off s = rbind (blk_copy b off (map Some (s @ [NUL]))) (\<lambda>b. Inr (b, off + length s))"

lemma sprintf_s_correct:
  "blk_holds b s \<Longrightarrow> length s + length t + 1 \<le> bsize b \<Longrightarrow>
     \<exists>b'. sprintf_s b (length s) t = Inr (b', length (s @ t)) \<and> blk_holds b' ((s @ t) @ [NUL]) \<and> bsize b' = bsize b"
  using blk_holds_append [of b s "t @ [NUL]"] by (auto simp: sprintf_s_def)

end
