(* ===== verification/Config_File.thy ===== *)
theory Config_File
  imports C_Library
begin

text \<open>
  \<^verbatim>\<open>src/config_file.c\<close>: the default configuration, the line parser of the configuration
  file, and the assignment of one key. The file is the list of its bytes (\<open>None\<close> where it
  cannot be opened). What \<open>printf\<close> reports is not modelled. \<open>line_key\<close> and
  \<open>line_value\<close> specify a line without state; \<open>config_line_correct\<close> shows that the
  character loop computes them, and faults exactly where the key does not fit its array.
\<close>

section \<open>Defaults and assignment\<close>

definition config_load_default :: config where
  "config_load_default =
     \<lparr>listen_port = 25, max_workers = 1, max_pending = 128000, max_clients = 128000,
      child_stack_size = 128000, read_buffer_size = 4046, write_buffer_size = 131072,
      data_buffer_size = 40000, tcp_nodelay = 1, server_name = ''Comfirm DMARC Server'',
      hostname = ''dmarc.amail.io'', daemonize = 1, chroot = '''',
      queue_file = ''/tmp/rest-queue'', queue_size = 100000,
      web_service_url = ''http://localhost/''\<rparr>"

definition config_init :: config where
  "config_init = config_load_default"

definition config_save_value :: "string \<Rightarrow> string \<Rightarrow> config \<Rightarrow> config" where
  "config_save_value key val conf =
     (if key = ''listen-port'' then conf\<lparr>listen_port := atoi val\<rparr>
      else if key = ''max-workers'' then conf\<lparr>max_workers := atoi val\<rparr>
      else if key = ''child-stack-size'' then conf\<lparr>child_stack_size := atoi val\<rparr>
      else if key = ''max-pending'' then conf\<lparr>max_pending := atoi val\<rparr>
      else if key = ''max-clients'' then conf\<lparr>max_clients := atoi val\<rparr>
      else if key = ''server-name'' then conf\<lparr>server_name := val\<rparr>
      else if key = ''hostname'' then conf\<lparr>hostname := val\<rparr>
      else if key = ''daemonize'' then conf\<lparr>daemonize := atoi val\<rparr>
      else if key = ''read-buffer-size'' then conf\<lparr>read_buffer_size := atoi val\<rparr>
      else if key = ''write-buffer-size'' then conf\<lparr>write_buffer_size := atoi val\<rparr>
      else if key = ''data-buffer-size'' then conf\<lparr>data_buffer_size := atoi val\<rparr>
      else if key = ''tcp-nodelay'' then conf\<lparr>tcp_nodelay := atoi val\<rparr>
      else if key = ''chroot'' then conf\<lparr>chroot := val\<rparr>
      else if key = ''queue-file'' then conf\<lparr>queue_file := val\<rparr>
      else if key = ''queue-size'' then conf\<lparr>queue_size := atoi val\<rparr>
      else if key = ''web-service-url'' then conf\<lparr>web_service_url := val\<rparr>
      else conf)"

text \<open>\<open>config_copy\<close>: the struct, then its strings one by one.\<close>

definition config_copy :: "config \<Rightarrow> config \<Rightarrow> config" where
  "config_copy dest source =
     (let dest = source;
          dest = config_save_value ''server-name'' (server_name source) dest;
          dest = config_save_value ''hostname'' (hostname source) dest;
          dest = config_save_value ''hostname'' (hostname source) dest;
          dest = config_save_value ''chroot'' (chroot source) dest;
          dest = config_save_value ''queue-file'' (queue_file source) dest;
          dest = config_save_value ''web-service-url'' (web_service_url source) dest
      in dest)"

lemma config_copy_eq: "config_copy dest source = source"
  by (simp add: config_copy_def config_save_value_def Let_def)

section \<open>The line parser\<close>

record cfg_line =
  cf_key :: block
  cf_key_len :: nat
  cf_value :: block
  cf_value_len :: nat
  cf_is_key :: bool
  cf_is_value :: bool

definition new_cfg_line :: cfg_line where
  "new_cfg_line =
     \<lparr>cf_key = malloc 512, cf_key_len = 0, cf_value = malloc 4096, cf_value_len = 0,
      cf_is_key = True, cf_is_value = False\<rparr>"

text \<open>One turn of the \<open>switch\<close>; the second component is \<open>next\<close>.\<close>

definition config_char :: "cfg_line \<Rightarrow> char \<Rightarrow> (cfg_line \<times> bool) res" where
  "config_char st c =
     (if c = CHR ''#'' then Inr (st, True)
      else if c = CHR ''='' then
        (if cf_is_key st then
           rbind (blk_set (cf_key st) (cf_key_len st) NUL)
             (\<lambda>b. Inr (st\<lparr>cf_key := b, cf_is_key := False, cf_is_value := True\<rparr>, False))
         else Inr (st, False))
      else if c = TAB \<or> c = CR \<or> c = LF then Inr (st, False)
      else if cf_is_key st then
        (if c \<noteq> CHR '' '' then
           rbind (blk_set (cf_key st) (cf_key_len st) c)
             (\<lambda>b. Inr (st\<lparr>cf_key := b, cf_key_len := cf_key_len st + 1\<rparr>, False))
         else Inr (st, False))
      else if cf_is_value st then
        (if c \<noteq> CHR '' '' \<or> cf_value_len st \<noteq> 0 then
           rbind (blk_set (cf_value st) (cf_value_len st) c)
             (\<lambda>b. Inr (st\<lparr>cf_value := b, cf_value_len := cf_value_len st + 1\<rparr>, False))
         else Inr (st, False))
      else Inr (st, False))"

fun config_chars :: "cfg_line \<Rightarrow> string \<Rightarrow> cfg_line res" where
  "config_chars st [] = Inr st"
| "config_chars st (c # cs) =
     rbind (config_char st c) (\<lambda>(st', next). if next then Inr st' else config_chars st' cs)"

definition config_line :: "string \<Rightarrow> cfg_line \<times> config \<Rightarrow> (cfg_line \<times> config) res" where
  "config_line line s = (case s of (st, conf) \<Rightarrow>
     if length line > 1 then
       rbind (config_chars
                (st\<lparr>cf_is_key := True, cf_is_value := False, cf_key_len := 0, cf_value_len := 0\<rparr>)
                line)
         (\<lambda>st. rbind (blk_set (cf_value st) (cf_value_len st) NUL)
         (\<lambda>b. let st = st\<lparr>cf_value := b\<rparr> in
           if cf_key_len st > 0 \<and> cf_value_len st > 0 then
             rbind (blk_cstr (cf_key st)) (\<lambda>key.
             rbind (blk_cstr (cf_value st)) (\<lambda>val.
               Inr (st, config_save_value key val conf)))
           else Inr (st, conf)))
     else Inr s)"

text \<open>\<open>fgets\<close> with a buffer of \<open>n\<close> bytes, and its calls until the end of the file.\<close>

fun fgets :: "nat \<Rightarrow> string \<Rightarrow> string \<times> string" where
  "fgets n [] = ([], [])"
| "fgets n (c # s) =
     (if n \<le> 1 then ([], c # s)
      else if c = LF then ([c], s)
      else (case fgets (n - 1) s of (l, r) \<Rightarrow> (c # l, r)))"

lemma fgets_shorter: "length (snd (fgets n s)) \<le> length s"
  by (induction n s rule: fgets.induct) (auto split: prod.splits)

function file_lines :: "string \<Rightarrow> string list" where
  "file_lines [] = []"
| "file_lines (c # s) =
     (case fgets 4048 (c # s) of (l, r) \<Rightarrow> cstr l # file_lines r)"
  by pat_completeness auto
termination
proof (relation "measure length", simp)
  fix c s l r
  assume "(l, r) = fgets 4048 (c # s)"
  then show "(r, c # s) \<in> measure length"
    using fgets_shorter [of 4047 s] by (auto split: if_splits prod.splits)
qed

fun config_lines :: "string list \<Rightarrow> cfg_line \<times> config \<Rightarrow> (cfg_line \<times> config) res" where
  "config_lines [] s = Inr s"
| "config_lines (l # ls) s = rbind (config_line l s) (config_lines ls)"

definition config_load :: "string option \<Rightarrow> config \<Rightarrow> (int \<times> config) res" where
  "config_load file conf =
     (case file of
        None \<Rightarrow> Inr (-1, conf)
      | Some s \<Rightarrow> rbind (config_lines (file_lines s) (new_cfg_line, conf))
                   (\<lambda>(st, conf'). Inr (0, conf')))"

section \<open>What a line means\<close>

definition line_text :: "string \<Rightarrow> string" where
  "line_text l = filter (\<lambda>c. c \<noteq> TAB \<and> c \<noteq> CR \<and> c \<noteq> LF) (takeWhile (\<lambda>c. c \<noteq> CHR ''#'') l)"

definition line_key :: "string \<Rightarrow> string" where
  "line_key l = filter (\<lambda>c. c \<noteq> CHR '' '') (takeWhile (\<lambda>c. c \<noteq> CHR ''='') (line_text l))"

definition line_value :: "string \<Rightarrow> string" where
  "line_value l = dropWhile (\<lambda>c. c = CHR '' '')
     (filter (\<lambda>c. c \<noteq> CHR ''='') (dropWhile (\<lambda>c. c \<noteq> CHR ''='') (line_text l)))"

definition line_has_value :: "string \<Rightarrow> bool" where
  "line_has_value l \<longleftrightarrow> CHR ''='' \<in> set (line_text l)"

text \<open>The key array has 512 bytes, and the terminator is written only at a \<open>=\<close>.\<close>

definition key_overflows :: "string \<Rightarrow> bool" where
  "key_overflows l \<longleftrightarrow>
     length (line_key l) + (if line_has_value l then 1 else 0) > 512"

definition line_effect :: "string \<Rightarrow> config \<Rightarrow> config" where
  "line_effect l conf =
     (if line_key l \<noteq> [] \<and> line_value l \<noteq> []
      then config_save_value (line_key l) (line_value l) conf else conf)"

section \<open>The parser computes it\<close>

definition line_sizes :: "cfg_line \<Rightarrow> bool" where
  "line_sizes st \<longleftrightarrow> bsize (cf_key st) = 512 \<and> bsize (cf_value st) = 4096"

definition in_key :: "cfg_line \<Rightarrow> string \<Rightarrow> bool" where
  "in_key st k \<longleftrightarrow> line_sizes st \<and> cf_is_key st \<and> blk_holds (cf_key st) k
     \<and> cf_key_len st = length k \<and> cf_value_len st = 0"

definition in_value :: "cfg_line \<Rightarrow> string \<Rightarrow> string \<Rightarrow> bool" where
  "in_value st k v \<longleftrightarrow> line_sizes st \<and> \<not> cf_is_key st \<and> cf_is_value st
     \<and> blk_holds (cf_key st) (k @ [NUL]) \<and> cf_key_len st = length k
     \<and> blk_holds (cf_value st) v \<and> cf_value_len st = length v"

lemma new_cfg_line_sizes: "line_sizes new_cfg_line"
  by (simp add: line_sizes_def new_cfg_line_def)

lemma set_end:
  "blk_holds b s \<Longrightarrow> length s < bsize b \<Longrightarrow>
     \<exists>b'. blk_set b (length s) c = Inr b' \<and> blk_holds b' (s @ [c]) \<and> bsize b' = bsize b"
  using blk_holds_append [of b s "[c]"] by simp

lemma text_Nil [simp]: "line_text [] = []"
  by (simp add: line_text_def)

lemma text_Cons [simp]:
  "line_text (c # l) = (if c = CHR ''#'' then [] else
     if c = TAB \<or> c = CR \<or> c = LF then line_text l else c # line_text l)"
  by (simp add: line_text_def)

definition more_value :: "string \<Rightarrow> string \<Rightarrow> string" where
  "more_value v t = (let u = filter (\<lambda>c. c \<noteq> CHR ''='') t in
     v @ (if v = [] then dropWhile (\<lambda>c. c = CHR '' '') u else u))"

lemma more_value_simps [simp]:
  "more_value v [] = v"
  "more_value v (CHR ''='' # t) = more_value v t"
  "more_value [] (CHR '' '' # t) = more_value [] t"
  "c \<noteq> CHR ''='' \<Longrightarrow> c \<noteq> CHR '' '' \<or> v \<noteq> [] \<Longrightarrow> more_value v (c # t) = more_value (v @ [c]) t"
  by (auto simp: more_value_def Let_def)

lemma config_chars_value:
  "in_value st k v \<Longrightarrow> length v + length l < 4096 \<Longrightarrow>
     \<exists>st'. config_chars st l = Inr st' \<and> in_value st' k (more_value v (line_text l))"
proof (induction l arbitrary: st v)
  case Nil
  then show ?case by simp
next
  case (Cons c l)
  show ?case
  proof (cases "c = CHR ''#'' \<or> c = CHR ''='' \<or> c = TAB \<or> c = CR \<or> c = LF")
    case True
    then show ?thesis using Cons.IH [OF Cons.prems(1)] Cons.prems
      by (auto simp: config_char_def in_value_def)
  next
    case other: False
    show ?thesis
    proof (cases "c = CHR '' '' \<and> v = []")
      case True
      then show ?thesis using other Cons.IH [OF Cons.prems(1)] Cons.prems
        by (auto simp: config_char_def in_value_def)
    next
      case False
      obtain b where b: "blk_set (cf_value st) (length v) c = Inr b" "blk_holds b (v @ [c])"
        "bsize b = 4096"
        using Cons.prems set_end [of "cf_value st" v c] by (auto simp: in_value_def line_sizes_def)
      let ?st = "st\<lparr>cf_value := b, cf_value_len := cf_value_len st + 1\<rparr>"
      have "in_value ?st k (v @ [c])"
        using Cons.prems b by (auto simp: in_value_def line_sizes_def)
      moreover have "config_char st c = Inr (?st, False)"
        using Cons.prems b other False by (auto simp: config_char_def in_value_def)
      ultimately show ?thesis
        using Cons.IH [of ?st "v @ [c]"] Cons.prems other False by auto
    qed
  qed
qed

definition key_of :: "string \<Rightarrow> string" where
  "key_of t = filter (\<lambda>c. c \<noteq> CHR '' '') (takeWhile (\<lambda>c. c \<noteq> CHR ''='') t)"

lemma key_of_simps [simp]:
  "key_of [] = []" "key_of (CHR ''='' # t) = []" "key_of (CHR '' '' # t) = key_of t"
  "c \<noteq> CHR ''='' \<Longrightarrow> c \<noteq> CHR '' '' \<Longrightarrow> key_of (c # t) = c # key_of t"
  by (simp_all add: key_of_def)

lemma line_key_of: "line_key l = key_of (line_text l)"
  by (simp add: line_key_def key_of_def)

definition value_of :: "string \<Rightarrow> string" where
  "value_of t = more_value [] (dropWhile (\<lambda>c. c \<noteq> CHR ''='') t)"

lemma value_of_simps [simp]:
  "value_of (CHR ''='' # t) = more_value [] t"
  "c \<noteq> CHR ''='' \<Longrightarrow> value_of (c # t) = value_of t"
  by (simp_all add: value_of_def)

definition key_result :: "string \<Rightarrow> string \<Rightarrow> cfg_line res \<Rightarrow> bool" where
  "key_result k t r =
     (if length k + length (key_of t) + (if CHR ''='' \<in> set t then 1 else 0) > 512
      then r = Inl Out_Of_Bounds
      else (\<exists>st. r = Inr st \<and>
              (if CHR ''='' \<in> set t then in_value st (k @ key_of t) (value_of t)
               else in_key st (k @ key_of t))))"

lemma line_value_of: "line_value l = value_of (line_text l)"
  by (simp add: line_value_def value_of_def more_value_def)

lemma config_chars_key:
  "in_key st k \<Longrightarrow> length l < 4096 \<Longrightarrow> length k \<le> 512 \<Longrightarrow> key_result k (line_text l) (config_chars st l)"
proof (induction l arbitrary: st k)
  case Nil
  then show ?case by (simp add: key_result_def)
next
  case (Cons c l)
  have k: "cf_is_key st" "cf_key_len st = length k" "bsize (cf_key st) = 512" "blk_holds (cf_key st) k"
    using Cons.prems by (simp_all add: in_key_def line_sizes_def)
  consider (comment) "c = CHR ''#''" | (eq) "c = CHR ''=''"
    | (skip) "c = TAB \<or> c = CR \<or> c = LF" | (space) "c = CHR '' ''"
    | (char) "c \<notin> {CHR ''#'', CHR ''='', TAB, CR, LF, CHR '' ''}" by blast
  then show ?case
  proof cases
    case comment
    then show ?thesis using Cons.prems
      by (simp add: key_result_def config_char_def)
  next
    case skip
    then have "config_chars st (c # l) = config_chars st l" "line_text (c # l) = line_text l"
      using k by (auto simp: config_char_def)
    then show ?thesis using Cons.IH [OF Cons.prems(1)] Cons.prems
      by (simp add: key_result_def)
  next
    case space
    then have "config_chars st (c # l) = config_chars st l"
      using k by (auto simp: config_char_def)
    moreover have "key_result k (line_text (c # l)) r = key_result k (line_text l) r" for r
      using space by (simp add: key_result_def)
    ultimately show ?thesis using Cons.IH [OF Cons.prems(1)] Cons.prems by simp
  next
    case char
    show ?thesis
    proof (cases "length k < 512")
      case True
      obtain b where b: "blk_set (cf_key st) (length k) c = Inr b" "blk_holds b (k @ [c])"
        "bsize b = 512" using k set_end [of "cf_key st" k c] True by auto
      let ?st = "st\<lparr>cf_key := b, cf_key_len := cf_key_len st + 1\<rparr>"
      have "in_key ?st (k @ [c])" using Cons.prems b by (auto simp: in_key_def line_sizes_def)
      moreover have "config_chars st (c # l) = config_chars ?st l"
        using k b char by (auto simp: config_char_def)
      moreover have "key_result k (line_text (c # l)) r = key_result (k @ [c]) (line_text l) r" for r
        using char by (auto simp: key_result_def)
      ultimately show ?thesis using Cons.IH [of ?st "k @ [c]"] Cons.prems True by simp
    next
      case False
      then have "config_char st c = Inl Out_Of_Bounds" using k char Cons.prems(3)
        by (auto simp: config_char_def blk_copy_fault)
      then show ?thesis using False char Cons.prems(3) by (simp add: key_result_def)
    qed
  next
    case eq
    show ?thesis
    proof (cases "length k < 512")
      case True
      obtain b where b: "blk_set (cf_key st) (length k) NUL = Inr b" "blk_holds b (k @ [NUL])"
        "bsize b = 512" using k set_end [of "cf_key st" k NUL] True by auto
      let ?st = "st\<lparr>cf_key := b, cf_is_key := False, cf_is_value := True\<rparr>"
      have "in_value ?st k []" using Cons.prems b by (auto simp: in_key_def in_value_def line_sizes_def)
      moreover have "config_chars st (c # l) = config_chars ?st l"
        using k b eq by (auto simp: config_char_def)
      ultimately show ?thesis using config_chars_value [of ?st k "[]" l] Cons.prems True eq
        by (auto simp: key_result_def)
    next
      case False
      then have "config_char st c = Inl Out_Of_Bounds" using k eq Cons.prems(3)
        by (auto simp: config_char_def blk_copy_fault)
      then show ?thesis using False eq Cons.prems(3)
        by (simp add: key_result_def)
    qed
  qed
qed

lemma line_chars:
  assumes "no_nul l"
  shows "no_nul (line_key l)" "no_nul (line_value l)"
proof -
  have "set (line_text l) \<subseteq> set l" by (auto simp: line_text_def dest: set_takeWhileD)
  moreover have "set (line_key l) \<subseteq> set (line_text l)"
    by (auto simp: line_key_def dest: set_takeWhileD)
  moreover have "set (line_value l) \<subseteq> set (line_text l)"
    unfolding line_value_def by (auto dest!: set_dropWhileD)
  ultimately show "no_nul (line_key l)" "no_nul (line_value l)"
    using assms unfolding no_nul_iff by blast+
qed

lemma line_value_Nil: "\<not> line_has_value l \<Longrightarrow> line_value l = []"
proof -
  assume "\<not> line_has_value l"
  then have "dropWhile (\<lambda>c. c \<noteq> CHR ''='') (line_text l) = []"
    by (auto simp: line_has_value_def)
  then show ?thesis by (simp only: line_value_def filter.simps dropWhile.simps)
qed

lemma line_value_length: "length (line_value l) \<le> length l"
proof -
  have "length (line_text l) \<le> length l"
    unfolding line_text_def using length_filter_le length_takeWhile_le le_trans by blast
  moreover have "length (line_value l) \<le> length (line_text l)"
    unfolding line_value_def using length_filter_le length_dropWhile_le le_trans by blast
  ultimately show ?thesis by simp
qed

lemma config_line_correct:
  assumes st: "line_sizes st" and l: "no_nul l" "length l < 4048"
  shows "if length l > 1 \<and> key_overflows l then config_line l (st, conf) = Inl Out_Of_Bounds
    else \<exists>st'. line_sizes st' \<and>
      config_line l (st, conf) = Inr (st', if length l > 1 then line_effect l conf else conf)"
proof (cases "length l > 1")
  case False
  then show ?thesis using st by (simp add: config_line_def)
next
  case True
  let ?st = "st\<lparr>cf_is_key := True, cf_is_value := False, cf_key_len := 0, cf_value_len := 0\<rparr>"
  have "in_key ?st []" using st by (simp add: in_key_def line_sizes_def)
  then have r: "key_result [] (line_text l) (config_chars ?st l)" using config_chars_key l by simp
  show ?thesis
  proof (cases "key_overflows l")
    case over: True
    then show ?thesis using r True
      by (simp add: key_result_def config_line_def key_overflows_def line_key_of line_has_value_def)
  next
    case False
    then obtain st' where st': "config_chars ?st l = Inr st'"
      "if line_has_value l then in_value st' (line_key l) (line_value l) else in_key st' (line_key l)"
      using r by (auto simp: key_result_def key_overflows_def line_key_of line_value_of line_has_value_def
          split: if_splits)
    then have v: "blk_holds (cf_value st') (line_value l)" "cf_value_len st' = length (line_value l)"
      "line_sizes st'" "cf_key_len st' = length (line_key l)"
      using line_value_Nil [of l] by (auto simp: in_value_def in_key_def split: if_splits)
    then obtain b where b: "blk_set (cf_value st') (length (line_value l)) NUL = Inr b"
      "blk_holds b (line_value l @ [NUL])" "bsize b = 4096"
      using set_end [of "cf_value st'" "line_value l" NUL] line_value_length [of l] l
      by (auto simp: line_sizes_def)
    have s: "line_sizes (st'\<lparr>cf_value := b\<rparr>)" using v b by (simp add: line_sizes_def)
    have rd: "blk_cstr b = Inr (line_value l)" using b line_chars l blk_cstr_holds by blast
    have rk: "line_value l \<noteq> [] \<Longrightarrow> blk_cstr (cf_key st') = Inr (line_key l)"
      using st'(2) line_value_Nil [of l] line_chars(1) [OF l(1)]
      by (auto simp: in_value_def blk_cstr_holds split: if_splits)
    show ?thesis using True False st' v b rd rk s
      by (auto simp: config_line_def line_effect_def Let_def)
  qed
qed


section \<open>Loading a file\<close>

lemma short_line_effect: "length l \<le> 1 \<Longrightarrow> line_effect l conf = conf \<and> \<not> key_overflows l"
proof -
  assume l: "length l \<le> 1"
  consider "l = []" | c where "l = [c]" using l by (cases l) auto
  then have "line_value l = [] \<and> length (line_key l) \<le> 1"
    by cases (auto simp: line_value_def line_key_def)
  then show ?thesis by (auto simp: line_effect_def key_overflows_def)
qed

lemma fgets_line: "length (fst (fgets n s)) \<le> n - 1"
  by (induction n s rule: fgets.induct) (auto split: prod.splits)

lemma file_lines_short: "l \<in> set (file_lines s) \<Longrightarrow> no_nul l \<and> length l < 4048"
proof (induction s rule: file_lines.induct)
  case 1
  then show ?case by simp
next
  case (2 c s)
  obtain l' r where f: "fgets 4048 (c # s) = (l', r)" by fastforce
  have "length l' \<le> 4047" using fgets_line [of 4048 "c # s"] f by simp
  then have "length (cstr l') < 4048"
    using length_takeWhile_le [of "\<lambda>c. c \<noteq> NUL" l'] by (simp add: cstr_def)
  then show ?case using "2.IH" [of l' r] "2.prems" f by (auto simp del: fgets.simps)
qed

lemma config_lines_correct:
  "list_all (\<lambda>l. no_nul l \<and> length l < 4048) ls \<Longrightarrow> line_sizes st \<Longrightarrow>
     (if list_ex key_overflows ls then config_lines ls (st, conf) = Inl Out_Of_Bounds
      else \<exists>st'. config_lines ls (st, conf) = Inr (st', fold line_effect ls conf))"
proof (induction ls arbitrary: st conf)
  case Nil
  then show ?case by simp
next
  case (Cons l ls)
  show ?case
  proof (cases "key_overflows l")
    case True
    then show ?thesis
      using config_line_correct [of st l conf] Cons.prems short_line_effect [of l] by fastforce
  next
    case False
    then obtain st' where "line_sizes st'" "config_line l (st, conf) = Inr (st', line_effect l conf)"
      using config_line_correct [of st l conf] Cons.prems short_line_effect [of l]
      by (auto split: if_splits)
    then show ?thesis using False Cons.IH [of st'] Cons.prems by simp
  qed
qed

text \<open>
  C17. For every file and every configuration it is loaded over, \<open>config_load\<close> answers -1 and
  changes nothing where the file cannot be opened; faults exactly where some line has a key
  that does not fit the 512 bytes of its array; and otherwise answers 0 and applies the lines
  in their order, each with its key (no spaces, up to the first \<open>=\<close>) and its value (leading
  spaces and every \<open>=\<close> dropped), up to a \<open>#\<close>.
\<close>

theorem config_load_correct:
  "config_load src conf =
     (case src of
        None \<Rightarrow> Inr (-1, conf)
      | Some s \<Rightarrow> if list_ex key_overflows (file_lines s) then Inl Out_Of_Bounds
                  else Inr (0, fold line_effect (file_lines s) conf))"
proof (cases src)
  case None
  then show ?thesis by (simp add: config_load_def)
next
  case (Some s)
  have "list_all (\<lambda>l. no_nul l \<and> length l < 4048) (file_lines s)"
    using file_lines_short by (auto simp: list_all_iff)
  then show ?thesis using Some config_lines_correct [OF _ new_cfg_line_sizes, of "file_lines s" conf]
    by (auto simp: config_load_def split: if_splits)
qed

section \<open>Writing a configuration and loading it\<close>

definition config_entries :: "config \<Rightarrow> (string \<times> string) list" where
  "config_entries c =
     [(''listen-port'', sprintf_d (listen_port c)), (''max-workers'', sprintf_d (max_workers c)),
      (''max-pending'', sprintf_d (max_pending c)), (''max-clients'', sprintf_d (max_clients c)),
      (''child-stack-size'', sprintf_d (child_stack_size c)),
      (''read-buffer-size'', sprintf_d (read_buffer_size c)),
      (''write-buffer-size'', sprintf_d (write_buffer_size c)),
      (''data-buffer-size'', sprintf_d (data_buffer_size c)),
      (''tcp-nodelay'', sprintf_d (tcp_nodelay c)), (''server-name'', server_name c),
      (''hostname'', hostname c), (''daemonize'', sprintf_d (daemonize c)), (''chroot'', chroot c),
      (''queue-file'', queue_file c), (''queue-size'', sprintf_d (queue_size c)),
      (''web-service-url'', web_service_url c)]"

definition entry_line :: "string \<times> string \<Rightarrow> string" where
  "entry_line e = fst e @ '' = '' @ snd e @ [LF]"

definition config_text :: "config \<Rightarrow> string" where
  "config_text c = concat (map entry_line (config_entries c))"

definition special :: "char \<Rightarrow> bool" where
  "special c \<longleftrightarrow> c \<in> {CHR ''#'', CHR ''='', TAB, CR, LF, NUL}"

definition plain :: "string \<Rightarrow> bool" where
  "plain s \<longleftrightarrow> list_all (\<lambda>c. \<not> special c) s"

lemma plain_simps [simp]:
  "plain []" "plain (c # s) \<longleftrightarrow> \<not> special c \<and> plain s" "plain (s @ t) \<longleftrightarrow> plain s \<and> plain t"
  by (simp_all add: plain_def)

lemma plain_set: "plain s \<Longrightarrow> special c \<Longrightarrow> c \<notin> set s"
  by (auto simp: plain_def list_all_iff)

lemma plain_no_nul: "plain s \<Longrightarrow> no_nul s"
  using plain_set [of s NUL] by (simp add: no_nul_iff special_def)

definition storable :: "string \<Rightarrow> bool" where
  "storable s \<longleftrightarrow> plain s \<and> s \<noteq> [] \<and> hd s \<noteq> CHR '' '' \<and> length s < 4000"

definition storable_config :: "config \<Rightarrow> bool" where
  "storable_config c \<longleftrightarrow>
     list_all storable [server_name c, hostname c, chroot c, queue_file c, web_service_url c]
     \<and> list_all (\<lambda>x. - (2 ^ 31) \<le> x \<and> x < 2 ^ 31)
         [listen_port c, max_workers c, max_pending c, max_clients c, child_stack_size c,
          read_buffer_size c, write_buffer_size c, data_buffer_size c, tcp_nodelay c,
          daemonize c, queue_size c]"

definition good_entry :: "string \<times> string \<Rightarrow> bool" where
  "good_entry e \<longleftrightarrow> plain (fst e) \<and> CHR '' '' \<notin> set (fst e) \<and> fst e \<noteq> [] \<and> length (fst e) < 40
     \<and> storable (snd e)"

lemma sprintf_d_storable:
  assumes "- (2 ^ 31) \<le> x" "x < 2 ^ 31"
  shows "storable (sprintf_d x)"
proof -
  have "length (show_nat (nat \<bar>x\<bar>)) \<le> 10" using assms by (intro show_nat_length) auto
  then have "length (sprintf_d x) < 4000" by (auto simp: sprintf_d_def)
  moreover have "isdigit c \<or> c = CHR ''-'' \<Longrightarrow> \<not> special c \<and> c \<noteq> CHR '' ''" for c
    by (auto simp: isdigit_def special_def)
  then have "c \<in> set (sprintf_d x) \<Longrightarrow> \<not> special c \<and> c \<noteq> CHR '' ''" for c
    using sprintf_d_chars by simp
  ultimately show ?thesis
    unfolding storable_def plain_def list_all_iff using hd_in_set sprintf_d_nonempty by meson
qed

lemma good_entries: "storable_config c \<Longrightarrow> list_all good_entry (config_entries c)"
  unfolding config_entries_def good_entry_def storable_config_def
  by (simp add: sprintf_d_storable special_def)

lemma entry_line_parts:
  assumes "good_entry e"
  shows "line_key (entry_line e) = fst e" "line_value (entry_line e) = snd e"
    "line_has_value (entry_line e)"
proof -
  obtain k v where e: "e = (k, v)" by fastforce
  have k: "plain k" "CHR '' '' \<notin> set k" and v: "plain v" "v \<noteq> []" "hd v \<noteq> CHR '' ''"
    using assms by (simp_all add: e good_entry_def storable_def)
  have "plain s \<Longrightarrow> line_text (s @ t) = s @ line_text t" for s t
    by (induction s) (auto simp: special_def)
  then have lt: "line_text (entry_line e) = k @ '' = '' @ v" using k v by (simp add: entry_line_def e)
  have ne: "plain s \<Longrightarrow> CHR ''='' \<notin> set s" for s by (rule plain_set) (simp_all add: special_def)
  have eqk: "c \<in> set k \<Longrightarrow> c \<noteq> CHR ''=''" for c using ne [OF k(1)] by metis
  have "takeWhile (\<lambda>c. c \<noteq> CHR ''='') (k @ '' = '' @ v) = k @ '' ''"
    using eqk by (simp add: takeWhile_append2)
  moreover have "filter (\<lambda>c. c \<noteq> CHR '' '') k = k" by (rule filter_True) (use k(2) in metis)
  ultimately show "line_key (entry_line e) = fst e" by (simp add: line_key_def lt [unfolded e] e)
  have "dropWhile (\<lambda>c. c \<noteq> CHR ''='') (k @ '' = '' @ v) = ''= '' @ v"
    using eqk by (simp add: dropWhile_append2)
  moreover have "filter (\<lambda>c. c \<noteq> CHR ''='') v = v" by (rule filter_True) (use ne [OF v(1)] in metis)
  moreover have "dropWhile (\<lambda>c. c = CHR '' '') v = v" using v by (cases v) auto
  ultimately show "line_value (entry_line e) = snd e" by (simp add: line_value_def lt [unfolded e] e)
  show "line_has_value (entry_line e)" by (simp add: line_has_value_def lt)
qed

lemma fgets_whole_line:
  "LF \<notin> set l \<Longrightarrow> length l + 1 < n \<Longrightarrow> fgets n (l @ LF # r) = (l @ [LF], r)"
  by (induction l arbitrary: n) auto

lemma file_lines_entry:
  assumes "good_entry e"
  shows "file_lines (entry_line e @ r) = entry_line e # file_lines r"
proof -
  let ?l = "fst e @ '' = '' @ snd e"
  have "plain (fst e)" "plain (snd e)" "length (fst e) < 40" "length (snd e) < 4000"
    using assms by (simp_all add: good_entry_def storable_def)
  then have p: "no_nul ?l" "LF \<notin> set ?l" "length ?l + 1 < 4048"
    using plain_no_nul plain_set [of _ LF] by (simp_all add: special_def)
  then have g: "fgets 4048 (?l @ LF # r) = (?l @ [LF], r)" by (intro fgets_whole_line)
  have n: "no_nul (?l @ [LF])" using p by simp
  have "\<exists>c s. ?l @ LF # r = c # s" by (cases "fst e") auto
  then obtain c s where "?l @ LF # r = c # s" by blast
  then have "file_lines (?l @ LF # r) = (?l @ [LF]) # file_lines r"
    using g cstr_no_nul [OF n] by (simp del: fgets.simps)
  then show ?thesis by (simp add: entry_line_def)
qed

lemma config_load_entries:
  "list_all good_entry es \<Longrightarrow>
     config_load (Some (concat (map entry_line es))) conf
       = Inr (0, fold (\<lambda>(k, v). config_save_value k v) es conf)"
proof -
  assume es: "list_all good_entry es"
  then have "file_lines (concat (map entry_line es)) = map entry_line es"
    by (induction es) (simp_all add: file_lines_entry)
  moreover have "list_ex key_overflows (map entry_line es) = False"
    using es by (induction es) (auto simp: key_overflows_def entry_line_parts good_entry_def)
  moreover have "fold line_effect (map entry_line es) conf
      = fold (\<lambda>(k, v). config_save_value k v) es conf"
    using es by (induction es arbitrary: conf)
      (auto simp: line_effect_def entry_line_parts good_entry_def storable_def)
  ultimately show ?thesis by (simp add: config_load_correct)
qed

text \<open>
  C18. Written as a file, one \<open>key = value\<close> line for each field, every configuration whose
  strings are not empty and have no character special to the parser is loaded back unchanged,
  whatever it is loaded over.
\<close>

theorem config_roundtrip:
  assumes "storable_config c"
  shows "config_load (Some (config_text c)) conf = Inr (0, c)"
proof -
  have "fold (\<lambda>(k, v). config_save_value k v) (config_entries c) conf = c"
    using assms by (simp add: config_entries_def config_save_value_def atoi_sprintf_d storable_config_def)
  then show ?thesis
    using config_load_entries [OF good_entries [OF assms]] by (simp add: config_text_def)
qed

theorem config_roundtrip_witness:
  "config_load (Some (config_text (config_load_default\<lparr>chroot := ''/''\<rparr>))) config_init
     = Inr (0, config_load_default\<lparr>chroot := ''/''\<rparr>)"
  by (rule config_roundtrip) (simp add: storable_config_def storable_def special_def config_load_default_def)

end
