(* ===== verification/Request_Dialogue.thy ===== *)
theory Request_Dialogue
  imports Request Config_File
begin

text \<open>
  The SMTP dialogue of \<^verbatim>\<open>src/request.c\<close> as a machine on plain strings, \<open>smtp_scan\<close>, and the
  proof that \<open>request_parse_commands\<close> implements it without a memory fault. From the machine:
  what a line of commands answers, how DATA collects a message over any number of reads,
  when a message counts as complete, and the bound on what is stored.
\<close>

section \<open>The specification\<close>

record smtp =
  sm_in_data :: bool
  sm_data :: string
  sm_out :: string
  sm_quit :: bool
  sm_process :: bool
  sm_error :: bool

definition ends_data :: "string \<Rightarrow> bool" where
  "ends_data d \<longleftrightarrow> 5 \<le> length d \<and> drop (length d - 5) d = END_DATA"

definition smtp_cmd :: "string \<Rightarrow> smtp \<Rightarrow> nat \<times> smtp" where
  "smtp_cmd t m =
     (if starts_with DATA_CMD t then (5, m\<lparr>sm_in_data := True, sm_out := sm_out m @ reply_data\<rparr>)
      else if starts_with ''EHLO'' t then (0, m\<lparr>sm_out := sm_out m @ reply_ehlo\<rparr>)
      else if starts_with ''MAIL FROM:'' t then (0, m\<lparr>sm_out := sm_out m @ reply_ok\<rparr>)
      else if starts_with ''RCPT TO:'' t then (0, m\<lparr>sm_out := sm_out m @ reply_ok\<rparr>)
      else if starts_with ''QUIT'' t
      then (0, m\<lparr>sm_out := sm_out m @ reply_quit, sm_quit := True\<rparr>)
      else (0, m))"

definition smtp_byte :: "int \<Rightarrow> char \<Rightarrow> smtp \<Rightarrow> smtp" where
  "smtp_byte limit c m =
     (if int (length (sm_data m)) < limit then
        let d = sm_data m @ [c] in
        if ends_data d
        then m\<lparr>sm_data := d[length d - 5 := NUL], sm_out := sm_out m @ reply_queued,
               sm_in_data := False, sm_process := True, sm_quit := True\<rparr>
        else m\<lparr>sm_data := d\<rparr>
      else m\<lparr>sm_error := True\<rparr>)"

function smtp_scan :: "int \<Rightarrow> smtp \<Rightarrow> string \<Rightarrow> smtp" where
  "smtp_scan limit m [] = m"
| "smtp_scan limit m (c # t) =
     (if sm_error m then m
      else if sm_in_data m then smtp_scan limit (smtp_byte limit c m) t
      else smtp_scan limit (snd (smtp_cmd (c # t) m)) (drop (fst (smtp_cmd (c # t) m)) t))"
  by pat_completeness auto
termination
  by (relation "measure (\<lambda>(limit, m, t). length t)") auto

lemma smtp_cmd_fst: "fst (smtp_cmd (c # t) m) \<le> length t"
proof (cases "starts_with DATA_CMD (c # t)")
  case True
  then have "length (take (length DATA_CMD) (c # t)) = length DATA_CMD"
    by (simp add: starts_with_def)
  then have "5 \<le> length t" by (simp add: DATA_CMD_def)
  then show ?thesis using True by (simp add: smtp_cmd_def)
qed (simp add: smtp_cmd_def)

lemma smtp_cmd_frame [simp]:
  "sm_error (snd (smtp_cmd t m)) = sm_error m" "sm_data (snd (smtp_cmd t m)) = sm_data m"
  "sm_process (snd (smtp_cmd t m)) = sm_process m"
  by (simp_all add: smtp_cmd_def)

lemma smtp_scan_error [simp]: "sm_error m \<Longrightarrow> smtp_scan limit m t = m"
  by (cases t) simp_all

section \<open>What the request holds\<close>

definition data_holds :: "request \<Rightarrow> string \<Rightarrow> bool" where
  "data_holds req d \<longleftrightarrow> rq_data_len req = length d \<and>
     (case rq_data req of
        None \<Rightarrow> d = [] \<and> rq_data_alloc req = 0
      | Some b \<Rightarrow> bsize b = rq_data_alloc req \<and> blk_exact b d)"

text \<open>The fields that \<open>request_parse_commands\<close> does not touch.\<close>

definition same_message :: "request \<Rightarrow> request \<Rightarrow> bool" where
  "same_message req req' \<longleftrightarrow> rq_headers req' = rq_headers req
     \<and> rq_header_count req' = rq_header_count req
     \<and> rq_body req' = rq_body req \<and> rq_body_len req' = rq_body_len req"

definition request_refines :: "request \<Rightarrow> response \<Rightarrow> smtp \<Rightarrow> bool" where
  "request_refines req resp m \<longleftrightarrow>
     rq_in_data req = sm_in_data m \<and> rq_quit req = sm_quit m \<and> rq_process req = sm_process m
     \<and> data_holds req (sm_data m) \<and> response_holds resp (sm_out m)"

lemma data_holds_frame [simp]:
  "data_holds (req\<lparr>rq_in_data := x\<rparr>) d = data_holds req d"
  "data_holds (req\<lparr>rq_quit := x\<rparr>) d = data_holds req d"
  "data_holds (req\<lparr>rq_process := x\<rparr>) d = data_holds req d"
  by (simp_all add: data_holds_def split: option.splits)

lemma same_message_refl [simp]: "same_message req req"
  by (simp add: same_message_def)

lemma same_message_trans: "same_message a b \<Longrightarrow> same_message b c \<Longrightarrow> same_message a c"
  by (simp add: same_message_def)

section \<open>Looking ahead in a buffer that ends in LF\<close>

lemma strncmp_lit_within:
  "blk_holds b (s @ t) \<Longrightarrow> t \<noteq> [] \<Longrightarrow> last t = LF \<Longrightarrow> LF \<notin> set (butlast p) \<Longrightarrow>
     strncmp_lit b (length s) p = Inr (starts_with p t)"
proof (induction p arbitrary: s t)
  case Nil
  then show ?case by simp
next
  case (Cons x p)
  then obtain y t' where t: "t = y # t'" by (cases t) auto
  have get: "blk_get b (length s) = Inr y"
    using blk_holds_get [OF Cons.prems(1), of "length s"] t by simp
  show ?case
  proof (cases "y = x \<and> p \<noteq> []")
    case True
    then have "x \<noteq> LF" using Cons.prems(4) by (auto split: if_splits)
    then have "t' \<noteq> []" "last t' = LF" using Cons.prems(3) t True by (auto split: if_splits)
    moreover have "LF \<notin> set (butlast p)" using Cons.prems(4) True by auto
    ultimately have "strncmp_lit b (length (s @ [y])) p = Inr (starts_with p t')"
      using Cons.prems(1) t by (intro Cons.IH) auto
    then show ?thesis using get True by (simp add: t)
  next
    case False
    then show ?thesis using get by (auto simp: t)
  qed
qed

lemma cmd_step_refines:
  assumes buf: "blk_holds buf (pre @ t)" "t \<noteq> []" "last t = LF"
    and R: "request_refines req resp m" and cmd: "\<not> sm_in_data m"
  shows "\<exists>req' resp'. cmd_step buf (length pre) req resp = Inr (fst (smtp_cmd t m), req', resp')
           \<and> request_refines req' resp' (snd (smtp_cmd t m)) \<and> same_message req req'"
proof -
  have look: "strncmp_lit buf (length pre) p = Inr (starts_with p t)" if "LF \<notin> set (butlast p)" for p
    using strncmp_lit_within [OF buf that] .
  have looks: "strncmp_lit buf (length pre) DATA_CMD = Inr (starts_with DATA_CMD t)"
    "strncmp_lit buf (length pre) ''EHLO'' = Inr (starts_with ''EHLO'' t)"
    "strncmp_lit buf (length pre) ''MAIL FROM:'' = Inr (starts_with ''MAIL FROM:'' t)"
    "strncmp_lit buf (length pre) ''RCPT TO:'' = Inr (starts_with ''RCPT TO:'' t)"
    "strncmp_lit buf (length pre) ''QUIT'' = Inr (starts_with ''QUIT'' t)"
    by (rule look; simp add: DATA_CMD_def)+
  have app: "\<exists>r. response_append resp d = Inr r \<and> response_holds r (sm_out m @ d)" for d
    using R response_append_holds by (simp add: request_refines_def)
  then obtain r where r: "response_append resp d = Inr (r d)" "response_holds (r d) (sm_out m @ d)" for d
    by metis
  show ?thesis using R
    by (simp add: cmd_step_def smtp_cmd_def looks r request_refines_def same_message_def
        del: strncmp_lit.simps)
qed

section \<open>Storing a byte of a message\<close>

lemma data_grow_holds:
  assumes "data_holds req d"
  shows "\<exists>req' b. data_grow req = Inr req' \<and> rq_data req' = Some b \<and> data_holds req' d
           \<and> length d + 2 < bsize b \<and> same_message req req' \<and> rq_in_data req' = rq_in_data req
           \<and> rq_quit req' = rq_quit req \<and> rq_process req' = rq_process req"
proof (cases "rq_data_len req + 2 \<ge> rq_data_alloc req")
  case False
  then show ?thesis using assms
    by (auto simp: data_grow_def data_holds_def split: option.splits)
next
  case True
  have len: "rq_data_len req = length d" using assms by (simp add: data_holds_def)
  let ?m = "malloc (length d + 512)"
  obtain b where b: "blk_copy ?m 0 (map Some d) = Inr b" "blk_exact b d" "bsize b = length d + 512"
    using blk_exact_append [of ?m "[]" d] by auto
  have "(case rq_data req of
           None \<Rightarrow> Inr ?m
         | Some b \<Rightarrow> rbind (blk_slice b 0 (rq_data_len req)) (blk_copy ?m 0))
      = Inr (if rq_data req = None then ?m else b)"
    using assms b(1) by (auto simp: data_holds_def blk_holds_slice blk_exact_holds split: option.splits)
  moreover have "rq_data req = None \<Longrightarrow> d = []" using assms by (simp add: data_holds_def)
  ultimately show ?thesis using True b
    by (auto simp: data_grow_def len Let_def data_holds_def same_message_def)
qed

lemma end_check:
  assumes "blk_holds b d"
  shows "(if length d > 4 then strncmp_lit b (length d - 5) END_DATA else Inr False)
    = Inr (ends_data d)"
proof (cases "length d > 4")
  case True
  have "blk_holds b (take (length d - 5) d @ drop (length d - 5) d)" using assms by simp
  from strncmp_lit_holds [OF this, of END_DATA] True
  have "strncmp_lit b (length d - 5) END_DATA = Inr (starts_with END_DATA (drop (length d - 5) d))"
    by (simp add: END_DATA_def)
  then show ?thesis using True by (simp add: starts_with_def ends_data_def END_DATA_def)
next
  case False
  then show ?thesis by (simp add: ends_data_def)
qed

lemma data_step_refines:
  assumes R: "request_refines req resp m" and data: "sm_in_data m" and ok: "\<not> sm_error m"
  shows "\<exists>req' resp'. data_step limit c req resp
      = Inr (req', resp', \<not> sm_error (smtp_byte limit c m))
    \<and> request_refines req' resp' (smtp_byte limit c m) \<and> same_message req req'"
proof -
  let ?d = "sm_data m @ [c]"
  obtain req1 b where g: "data_grow req = Inr req1" "rq_data req1 = Some b"
    "data_holds req1 (sm_data m)" "length (sm_data m) + 2 < bsize b" "same_message req req1"
    "rq_in_data req1 = rq_in_data req" "rq_quit req1 = rq_quit req" "rq_process req1 = rq_process req"
    using R data_grow_holds by (fastforce simp: request_refines_def)
  have b: "blk_exact b (sm_data m)" "rq_data_len req1 = length (sm_data m)"
      "bsize b = rq_data_alloc req1"
    using g by (simp_all add: data_holds_def)
  obtain b1 where b1: "blk_set b (length (sm_data m)) c = Inr b1" "blk_exact b1 ?d" "bsize b1 = bsize b"
    using blk_exact_append [OF b(1), of "[c]"] g(4) by auto
  have chk: "(if 3 < length (sm_data m) then strncmp_lit b1 (length (sm_data m) - 4) END_DATA
      else Inr False) = Inr (ends_data ?d)"
  proof -
    have "length ?d - 5 = length (sm_data m) - 4" "4 < length ?d \<longleftrightarrow> 3 < length (sm_data m)"
      by simp_all
    then show ?thesis using end_check [OF blk_exact_holds [OF b1(2)]] by metis
  qed
  obtain r where r: "response_append resp reply_queued = Inr r" "response_holds r (sm_out m @ reply_queued)"
    using R response_append_holds [of resp "sm_out m" reply_queued]
    unfolding request_refines_def by blast
  show ?thesis
  proof (cases "int (length (sm_data m)) < limit")
    case False
    then show ?thesis using R g b
      by (auto simp: data_step_def smtp_byte_def request_refines_def)
  next
    case small: True
    show ?thesis
    proof (cases "ends_data ?d")
      case True
      then have long: "3 < length (sm_data m)" by (simp add: ends_data_def)
      then have "length (sm_data m) - 4 < length ?d" by simp
      then obtain b2 where b2: "blk_set b1 (length (sm_data m) - 4) NUL = Inr b2"
        "blk_exact b2 (?d[length (sm_data m) - 4 := NUL])" "bsize b2 = bsize b1"
        using blk_exact_set [OF b1(2)] by blast
      have "strncmp_lit b1 (length (sm_data m) - 4) END_DATA = Inr True"
        using chk long True by simp
      then show ?thesis using small True long g b b1 b2 r R ok
        by (simp add: data_step_def smtp_byte_def request_refines_def data_holds_def Let_def
            same_message_def del: strncmp_lit.simps)
    next
      case False
      then show ?thesis using small g b b1 chk R ok
        by (cases "3 < length (sm_data m)"; simp add: data_step_def smtp_byte_def request_refines_def data_holds_def Let_def
            same_message_def del: strncmp_lit.simps)
    qed
  qed
qed

section \<open>The whole loop\<close>

text \<open>
  Where the loop compares with a command, the rest of the buffer ends in LF, so that no
  comparison runs past the bytes that were received.
\<close>

function reads_ok :: "int \<Rightarrow> smtp \<Rightarrow> string \<Rightarrow> bool" where
  "reads_ok limit m [] = True"
| "reads_ok limit m (c # t) =
     (if sm_error m then True
      else if sm_in_data m then reads_ok limit (smtp_byte limit c m) t
      else last (c # t) = LF
        \<and> reads_ok limit (snd (smtp_cmd (c # t) m)) (drop (fst (smtp_cmd (c # t) m)) t))"
  by pat_completeness auto
termination
  by (relation "measure (\<lambda>(limit, m, t). length t)") auto

lemma last_drop_LF: "t = [] \<or> last t = LF \<Longrightarrow> drop k t = [] \<or> last (drop k t) = LF"
  by (cases "k < length t") auto

lemma reads_ok_line: "t = [] \<or> last t = LF \<Longrightarrow> reads_ok limit m t"
proof (induction limit m t rule: reads_ok.induct)
  case (2 limit m c t)
  then have t: "t = [] \<or> last t = LF" by (auto split: if_splits)
  show ?case using "2.IH"(1) [OF _ _ t] "2.IH"(2) [OF _ _ last_drop_LF [OF t]] "2.prems" by auto
qed simp

lemma request_loop_refines:
  "blk_holds buf (pre @ t) \<Longrightarrow> reads_ok limit m t \<Longrightarrow> request_refines req resp m \<Longrightarrow>
   \<not> sm_error m \<Longrightarrow>
   \<exists>req' resp'. request_loop limit buf (length (pre @ t)) (length pre) req resp status
      = Inr (req', resp', if sm_error (smtp_scan limit m t) then CONN_ERROR else status)
    \<and> request_refines req' resp' (smtp_scan limit m t) \<and> same_message req req'"
proof (induction limit m t arbitrary: pre req resp rule: smtp_scan.induct)
  case (1 limit m)
  then show ?case by (simp add: request_loop.simps)
next
  case (2 limit m c t)
  have get: "blk_get buf (length pre) = Inr c"
    using blk_holds_get [OF "2.prems"(1), of "length pre"] by simp
  note step = request_loop.simps [of limit buf _ "length pre"]
  show ?case
  proof (cases "sm_in_data m")
    case True
    obtain req1 resp1 where d: "data_step limit c req resp
        = Inr (req1, resp1, \<not> sm_error (smtp_byte limit c m))"
      "request_refines req1 resp1 (smtp_byte limit c m)" "same_message req req1"
      using data_step_refines [OF "2.prems"(3) True "2.prems"(4)] by blast
    have in_data: "rq_in_data req" using True "2.prems"(3) by (simp add: request_refines_def)
    show ?thesis
    proof (cases "sm_error (smtp_byte limit c m)")
      case err: True
      then show ?thesis using d get True in_data "2.prems"(4) by (simp add: step)
    next
      case False
      have "blk_holds buf ((pre @ [c]) @ t)" "reads_ok limit (smtp_byte limit c m) t"
        using "2.prems" True by simp_all
      from "2.IH"(1) [OF "2.prems"(4) True this d(2) False]
      show ?thesis using d get True in_data "2.prems"(4) False
        by (auto simp: step intro: same_message_trans)
    qed
  next
    case cmd: False
    let ?k = "fst (smtp_cmd (c # t) m)"
    have ok: "last (c # t) = LF" "reads_ok limit (snd (smtp_cmd (c # t) m)) (drop ?k t)"
      using "2.prems"(2,4) cmd by simp_all
    obtain req1 resp1 where d: "cmd_step buf (length pre) req resp = Inr (?k, req1, resp1)"
      "request_refines req1 resp1 (snd (smtp_cmd (c # t) m))" "same_message req req1"
      using cmd_step_refines [OF "2.prems"(1) _ ok(1) "2.prems"(3) cmd] by blast
    have out: "\<not> rq_in_data req" using cmd "2.prems"(3) by (simp add: request_refines_def)
    have k: "?k \<le> length t" by (rule smtp_cmd_fst)
    have "blk_holds buf ((pre @ c # take ?k t) @ drop ?k t)" using "2.prems"(1) by simp
    from "2.IH"(2) [OF "2.prems"(4) cmd this ok(2) d(2)] show ?thesis
      using d get out k "2.prems"(4) cmd by (fastforce simp: step intro: same_message_trans)
  qed
qed

section \<open>What the machine does\<close>

text \<open>\<open>quiet d t\<close>: collecting \<open>t\<close> after \<open>d\<close> comes past no end-of-data mark.\<close>

fun quiet :: "string \<Rightarrow> string \<Rightarrow> bool" where
  "quiet d [] = True"
| "quiet d (c # t) = (\<not> ends_data (d @ [c]) \<and> quiet (d @ [c]) t)"

lemma smtp_scan_quiet:
  "sm_in_data m \<Longrightarrow> \<not> sm_error m \<Longrightarrow> quiet (sm_data m) t \<Longrightarrow>
   int (length (sm_data m) + length t) \<le> limit \<Longrightarrow>
   smtp_scan limit m t = m\<lparr>sm_data := sm_data m @ t\<rparr>"
proof (induction t arbitrary: m)
  case Nil
  then show ?case by simp
next
  case (Cons c t)
  then have "smtp_byte limit c m = m\<lparr>sm_data := sm_data m @ [c]\<rparr>"
    by (simp add: smtp_byte_def)
  then show ?case using Cons.IH [of "m\<lparr>sm_data := sm_data m @ [c]\<rparr>"] Cons.prems by simp
qed

lemma smtp_scan_append_data:
  "sm_in_data m \<Longrightarrow> \<not> sm_error m \<Longrightarrow> quiet (sm_data m) t \<Longrightarrow>
   int (length (sm_data m) + length t) \<le> limit \<Longrightarrow>
   smtp_scan limit m (t @ u) = smtp_scan limit (smtp_scan limit m t) u"
proof (induction t arbitrary: m)
  case Nil
  then show ?case by simp
next
  case (Cons c t)
  then have "smtp_byte limit c m = m\<lparr>sm_data := sm_data m @ [c]\<rparr>"
    by (simp add: smtp_byte_def)
  then show ?case using Cons.IH [of "m\<lparr>sm_data := sm_data m @ [c]\<rparr>"] Cons.prems by simp
qed

lemma smtp_byte_length:
  "int (length (sm_data m)) \<le> max limit 0 \<Longrightarrow> int (length (sm_data (smtp_byte limit c m))) \<le> max limit 0"
  by (auto simp: smtp_byte_def Let_def)

lemma smtp_scan_length:
  "int (length (sm_data m)) \<le> max limit 0 \<Longrightarrow> int (length (sm_data (smtp_scan limit m t))) \<le> max limit 0"
proof (induction limit m t rule: smtp_scan.induct)
  case (2 limit m c t)
  then show ?case by (auto intro: smtp_byte_length)
qed simp

lemma reads_ok_quiet:
  "sm_in_data m \<Longrightarrow> \<not> sm_error m \<Longrightarrow> quiet (sm_data m) (butlast t) \<Longrightarrow>
   int (length (sm_data m) + length t) \<le> limit \<Longrightarrow> reads_ok limit m t"
proof (induction t arbitrary: m)
  case Nil
  then show ?case by simp
next
  case (Cons c t)
  show ?case
  proof (cases "t = []")
    case True
    then show ?thesis using Cons.prems by simp
  next
    case False
    then have "smtp_byte limit c m = m\<lparr>sm_data := sm_data m @ [c]\<rparr>"
      using Cons.prems by (simp add: smtp_byte_def)
    then show ?thesis
      using Cons.IH [of "m\<lparr>sm_data := sm_data m @ [c]\<rparr>"] Cons.prems False by simp
  qed
qed

lemma quiet_append: "quiet d (t @ u) \<longleftrightarrow> quiet d t \<and> quiet (d @ t) u"
  by (induction t arbitrary: d) auto

text \<open>The complete message: what precedes the end mark, NUL, and the rest of the mark.\<close>

definition stored_message :: "string \<Rightarrow> string" where
  "stored_message msg = msg @ NUL # LF # CHR ''.'' # CRLF"

lemma smtp_scan_message:
  assumes "sm_in_data m" "\<not> sm_error m" "sm_data m = []"
    and "quiet [] (butlast (msg @ END_DATA))" "int (length msg + 5) \<le> limit"
  shows "smtp_scan limit m (msg @ END_DATA) =
     m\<lparr>sm_data := stored_message msg, sm_out := sm_out m @ reply_queued, sm_in_data := False,
       sm_process := True, sm_quit := True\<rparr>"
proof -
  let ?t = "msg @ [CR, LF, CHR ''.'', CR]"
  have t: "msg @ END_DATA = ?t @ [LF]" "butlast (msg @ END_DATA) = ?t"
    by (simp_all add: END_DATA_def butlast_append)
  have "smtp_scan limit m ?t = m\<lparr>sm_data := ?t\<rparr>"
    using smtp_scan_quiet [of m ?t limit] assms t by simp
  moreover have "smtp_scan limit m (?t @ [LF]) = smtp_scan limit (smtp_scan limit m ?t) [LF]"
    using smtp_scan_append_data [of m ?t limit "[LF]"] assms t by simp
  moreover have "ends_data (?t @ [LF])" by (simp add: ends_data_def END_DATA_def)
  ultimately show ?thesis using assms t(1)
    by (simp add: smtp_byte_def Let_def stored_message_def END_DATA_def list_update_append)
qed

text \<open>The end of a message of which a part has been collected already.\<close>

lemma smtp_scan_finish:
  assumes "sm_in_data m" "\<not> sm_error m" "sm_data m @ t = msg @ END_DATA" "t \<noteq> []"
    and "quiet [] (butlast (msg @ END_DATA))" "int (length msg + 5) \<le> limit"
  shows "reads_ok limit m t"
    "smtp_scan limit m t = m\<lparr>sm_data := stored_message msg, sm_out := sm_out m @ reply_queued,
       sm_in_data := False, sm_process := True, sm_quit := True\<rparr>"
proof -
  let ?d = "sm_data m" and ?m0 = "m\<lparr>sm_data := []\<rparr>"
  have cut: "butlast (msg @ END_DATA) = ?d @ butlast t"
    using assms(3,4) by (metis butlast_append)
  have q: "quiet [] ?d" "quiet ?d (butlast t)" using assms(5) by (simp_all add: cut quiet_append)
  have "length ?d + length t = length msg + 5"
    using arg_cong [OF assms(3), of length] by (simp add: END_DATA_def)
  then have len: "int (length ?d + length t) \<le> limit" using assms(6) by linarith
  then show "reads_ok limit m t" using reads_ok_quiet assms(1,2) q(2) by simp
  have "smtp_scan limit ?m0 (?d @ t) = smtp_scan limit (smtp_scan limit ?m0 ?d) t"
    using smtp_scan_append_data [of ?m0 ?d limit t] assms(1,2) q(1) len by simp
  moreover have "smtp_scan limit ?m0 ?d = m"
    using smtp_scan_quiet [of ?m0 ?d limit] assms(1,2) q(1) len by simp
  ultimately show "smtp_scan limit m t = m\<lparr>sm_data := stored_message msg,
      sm_out := sm_out m @ reply_queued, sm_in_data := False, sm_process := True, sm_quit := True\<rparr>"
    using smtp_scan_message [of ?m0 msg limit] assms by simp
qed

text \<open>Outside DATA every position of the line is tried as the start of a command.\<close>

definition reply_at :: "string \<Rightarrow> string" where
  "reply_at t =
     (if starts_with ''EHLO'' t then reply_ehlo
      else if starts_with ''MAIL FROM:'' t \<or> starts_with ''RCPT TO:'' t then reply_ok
      else if starts_with ''QUIT'' t then reply_quit else [])"

fun tails :: "string \<Rightarrow> string list" where
  "tails [] = []"
| "tails (c # t) = (c # t) # tails t"

lemma smtp_cmd_reply:
  "\<not> starts_with DATA_CMD t \<Longrightarrow> smtp_cmd t m =
     (0, m\<lparr>sm_out := sm_out m @ reply_at t, sm_quit := sm_quit m \<or> starts_with ''QUIT'' t\<rparr>)"
proof -
  have "starts_with ''QUIT'' t \<Longrightarrow> \<not> starts_with ''EHLO'' t \<and> \<not> starts_with ''MAIL FROM:'' t
      \<and> \<not> starts_with ''RCPT TO:'' t"
    by (cases t) auto
  then show "\<not> starts_with DATA_CMD t \<Longrightarrow> smtp_cmd t m =
     (0, m\<lparr>sm_out := sm_out m @ reply_at t, sm_quit := sm_quit m \<or> starts_with ''QUIT'' t\<rparr>)"
    by (auto simp: smtp_cmd_def reply_at_def)
qed

lemma smtp_scan_commands:
  "\<not> sm_in_data m \<Longrightarrow> \<not> sm_error m \<Longrightarrow> list_all (\<lambda>u. \<not> starts_with DATA_CMD u) (tails t) \<Longrightarrow>
   smtp_scan limit m t =
     m\<lparr>sm_out := sm_out m @ concat (map reply_at (tails t)),
       sm_quit := sm_quit m \<or> list_ex (starts_with ''QUIT'') (tails t)\<rparr>"
proof (induction t arbitrary: m)
  case Nil
  then show ?case by simp
next
  case (Cons c t)
  then show ?case by (simp add: smtp_cmd_reply)
qed

section \<open>Properties\<close>

text \<open>The connection has read the bytes \<open>t\<close>, and nothing else, into its buffer.\<close>

definition received :: "connection \<Rightarrow> request \<Rightarrow> response \<Rightarrow> string \<Rightarrow> bool" where
  "received conn req resp t \<longleftrightarrow>
     cn_request conn = Some req \<and> cn_response conn = Some resp
     \<and> (\<exists>buf. cn_read_buffer conn = Some buf \<and> blk_holds buf t) \<and> cn_buffer_len conn = length t"

lemma parse_commands_loop:
  assumes "received conn req resp t" "reads_ok (data_buffer_size cfg) m t"
    "request_refines req resp m" "\<not> sm_error m" "cn_status conn = CONN_READING"
  shows "\<exists>req' resp'. request_parse_commands cfg conn =
      (let bad = sm_error (smtp_scan (data_buffer_size cfg) m t) in
       Inr (conn\<lparr>cn_request := Some req', cn_response := Some resp',
                 cn_status := if bad then CONN_ERROR else CONN_READING\<rparr>, if bad then 1 else 0))
    \<and> request_refines req' resp' (smtp_scan (data_buffer_size cfg) m t) \<and> same_message req req'"
  using assms request_loop_refines [of _ "[]" t "data_buffer_size cfg" m req resp CONN_READING]
  by (fastforce simp: received_def request_parse_commands_def Let_def)

text \<open>
  C5. The dialogue. On any received bytes that end in LF, \<open>request_parse_commands\<close> reads no
  byte outside those it received and does what the specification \<open>smtp_scan\<close> does on the
  string: same answers, same collected data, same flags, an error return exactly where the
  specification is in error.
\<close>

theorem parse_commands_refines:
  assumes "received conn req resp t" "t = [] \<or> last t = LF"
    "request_refines req resp m" "\<not> sm_error m" "cn_status conn = CONN_READING"
  shows "\<exists>req' resp'. request_parse_commands cfg conn =
      (let bad = sm_error (smtp_scan (data_buffer_size cfg) m t) in
       Inr (conn\<lparr>cn_request := Some req', cn_response := Some resp',
                 cn_status := if bad then CONN_ERROR else CONN_READING\<rparr>, if bad then 1 else 0))
    \<and> request_refines req' resp' (smtp_scan (data_buffer_size cfg) m t) \<and> same_message req req'"
  using assms by (intro parse_commands_loop reads_ok_line)

definition smtp_start :: smtp where
  "smtp_start = \<lparr>sm_in_data = False, sm_data = [], sm_out = [], sm_quit = False,
                 sm_process = False, sm_error = False\<rparr>"

lemma start_refines: "request_refines request_init response_init smtp_start"
  by (simp add: request_refines_def smtp_start_def request_init_def response_holds_init
      data_holds_def)

definition conn_with :: "request \<Rightarrow> response \<Rightarrow> string \<Rightarrow> connection" where
  "conn_with req resp t =
     \<lparr>cn_request = Some req, cn_response = Some resp, cn_status = CONN_READING,
      cn_read_buffer = Some \<lparr>bsize = length t, cells = map Some t\<rparr>, cn_buffer_len = length t\<rparr>"

lemma received_conn_with: "received (conn_with req resp t) req resp t"
  by (simp add: received_def conn_with_def blk_holds_def)

theorem parse_commands_refines_witness:
  "\<exists>req' resp' conn'. request_parse_commands config_init (conn_with request_init response_init (''QUIT'' @ CRLF))
      = Inr (conn', 0) \<and> cn_request conn' = Some req' \<and> cn_response conn' = Some resp'
    \<and> rq_quit req' \<and> response_holds resp' reply_quit"
proof -
  have "smtp_scan (data_buffer_size config_init) smtp_start (''QUIT'' @ CRLF)
      = smtp_start\<lparr>sm_out := reply_quit, sm_quit := True\<rparr>"
    by (simp add: smtp_cmd_def smtp_start_def DATA_CMD_def)
  then show ?thesis
    using parse_commands_refines [OF received_conn_with _ start_refines, of "''QUIT'' @ CRLF" config_init]
    by (auto simp: smtp_start_def conn_with_def request_refines_def)
qed

text \<open>
  A message is received whole whatever way TCP cuts it: a message and its end mark that
  arrive in two reads, cut anywhere, are stored as in one, nothing is answered after the
  first read, and after the second the request is marked for processing and the client is
  told so.
\<close>

theorem message_split_anywhere:
  assumes "received conn1 req resp t1" "cn_status conn1 = CONN_READING"
    and "request_refines req resp m" "sm_in_data m" "\<not> sm_error m" "sm_data m = []"
    and "t1 @ t2 = msg @ END_DATA" "t2 \<noteq> []" "quiet [] (butlast (msg @ END_DATA))"
    and "int (length msg + 5) \<le> data_buffer_size cfg"
  shows "\<exists>conn1' req1 resp1. request_parse_commands cfg conn1 = Inr (conn1', 0)
      \<and> cn_request conn1' = Some req1 \<and> cn_response conn1' = Some resp1
      \<and> rq_in_data req1 \<and> response_holds resp1 (sm_out m)
      \<and> (\<forall>conn2 resp2. received conn2 req1 resp2 t2 \<and> response_holds resp2 []
            \<and> cn_status conn2 = CONN_READING \<longrightarrow>
          (\<exists>conn2' req2 resp2'. request_parse_commands cfg conn2 = Inr (conn2', 0)
            \<and> cn_request conn2' = Some req2 \<and> cn_response conn2' = Some resp2'
            \<and> data_holds req2 (stored_message msg) \<and> rq_process req2 \<and> rq_quit req2
            \<and> \<not> rq_in_data req2 \<and> response_holds resp2' reply_queued))"
proof -
  let ?lim = "data_buffer_size cfg"
  have cut: "butlast (msg @ END_DATA) = t1 @ butlast t2"
    using assms(7,8) by (metis butlast_append)
  have quiet: "quiet [] t1" "quiet t1 (butlast t2)"
    using assms(9) by (simp_all add: cut quiet_append)
  have "length t1 + length t2 = length msg + 5"
    using arg_cong [OF assms(7), of length] by (simp add: END_DATA_def)
  then have len: "int (length t1 + length t2) \<le> ?lim" using assms(10) by linarith
  have scan1: "smtp_scan ?lim m t1 = m\<lparr>sm_data := t1\<rparr>"
    using smtp_scan_quiet [of m t1 ?lim] assms(4-6) quiet(1) len by simp
  have "quiet (sm_data m) (butlast t1)"
    using quiet(1) assms(6) by (cases t1 rule: rev_cases) (auto simp: quiet_append)
  then have ok1: "reads_ok ?lim m t1" using reads_ok_quiet assms(4-6) len by simp
  obtain req1 resp1 where one: "request_parse_commands cfg conn1 =
      Inr (conn1\<lparr>cn_request := Some req1, cn_response := Some resp1, cn_status := CONN_READING\<rparr>, 0)"
    "request_refines req1 resp1 (m\<lparr>sm_data := t1\<rparr>)"
    using parse_commands_loop [OF assms(1) ok1 assms(3,5,2)] assms(5) by (auto simp: scan1)
  let ?m1 = "m\<lparr>sm_data := t1, sm_out := []\<rparr>"
  have refines2: "request_refines req1 resp2 ?m1" if "response_holds resp2 []" for resp2
    using one(2) that by (simp add: request_refines_def)
  have ok2: "reads_ok ?lim ?m1 t2"
    and scan2: "smtp_scan ?lim ?m1 t2 = m\<lparr>sm_data := stored_message msg,
      sm_out := reply_queued, sm_in_data := False, sm_process := True, sm_quit := True\<rparr>"
    using smtp_scan_finish [of ?m1 t2 msg ?lim] assms(4,5,7-10) by simp_all
  have "\<exists>conn2' req2 resp2'. request_parse_commands cfg conn2 = Inr (conn2', 0)
      \<and> cn_request conn2' = Some req2 \<and> cn_response conn2' = Some resp2'
      \<and> data_holds req2 (stored_message msg) \<and> rq_process req2 \<and> rq_quit req2
      \<and> \<not> rq_in_data req2 \<and> response_holds resp2' reply_queued"
    if "received conn2 req1 resp2 t2" "response_holds resp2 []" "cn_status conn2 = CONN_READING"
    for conn2 resp2
    using parse_commands_loop [OF that(1) ok2 refines2 [OF that(2)] _ that(3)] assms(5)
    by (fastforce simp: scan2 request_refines_def)
  then show ?thesis using one assms(4) by (fastforce simp: request_refines_def)
qed

theorem message_split_anywhere_witness:
  "\<exists>conn1' req1. request_parse_commands config_init
        (conn_with (request_init\<lparr>rq_in_data := True\<rparr>) response_init (''hi'' @ [CR])) = Inr (conn1', 0)
      \<and> cn_request conn1' = Some req1
      \<and> (\<exists>conn2' req2. request_parse_commands config_init
            (conn_with req1 response_init ([LF, CHR ''.''] @ CRLF)) = Inr (conn2', 0)
          \<and> cn_request conn2' = Some req2 \<and> data_holds req2 (stored_message ''hi'') \<and> rq_process req2)"
proof -
  let ?m = "smtp_start\<lparr>sm_in_data := True\<rparr>" and ?req = "request_init\<lparr>rq_in_data := True\<rparr>"
  have start: "request_refines ?req response_init ?m"
    using start_refines by (simp add: request_refines_def smtp_start_def)
  have reading: "cn_status (conn_with r p t) = CONN_READING" for r p t
    by (simp add: conn_with_def)
  have m: "sm_in_data ?m" "\<not> sm_error ?m" "sm_data ?m = []" by (simp_all add: smtp_start_def)
  have cut: "(''hi'' @ [CR]) @ ([LF, CHR ''.''] @ CRLF) = ''hi'' @ END_DATA" by (simp add: END_DATA_def)
  have q: "quiet [] (butlast (''hi'' @ END_DATA))" by (simp add: END_DATA_def ends_data_def)
  have l: "int (length ''hi'' + 5) \<le> data_buffer_size config_init"
    by (simp add: config_init_def config_load_default_def)
  obtain conn1' req1 where one: "request_parse_commands config_init
        (conn_with ?req response_init (''hi'' @ [CR])) = Inr (conn1', 0)" "cn_request conn1' = Some req1"
    and two: "\<And>conn2 resp2. received conn2 req1 resp2 ([LF, CHR ''.''] @ CRLF)
      \<Longrightarrow> response_holds resp2 [] \<Longrightarrow> cn_status conn2 = CONN_READING \<Longrightarrow>
      \<exists>conn2' req2. request_parse_commands config_init conn2 = Inr (conn2', 0)
          \<and> cn_request conn2' = Some req2 \<and> data_holds req2 (stored_message ''hi'') \<and> rq_process req2"
    using message_split_anywhere [OF received_conn_with reading start m cut _ q l] by blast
  show ?thesis using one two [OF received_conn_with response_holds_init reading] by blast
qed

text \<open>
  Commands are looked for at every position, not at line starts: on received bytes
  outside DATA that end in LF and have no \<open>DATA\<close> line in them, the answer is the
  concatenation of the replies of all suffixes, and the request quits exactly where
  \<open>QUIT\<close> occurs anywhere. The instance shows a recipient whose name contains \<open>QUIT\<close>.
\<close>

theorem commands_answered_anywhere:
  assumes "received conn req resp t" "t = [] \<or> last t = LF" "cn_status conn = CONN_READING"
    and "request_refines req resp m" "\<not> sm_in_data m" "\<not> sm_error m"
    and "list_all (\<lambda>u. \<not> starts_with DATA_CMD u) (tails t)"
  shows "\<exists>conn' req' resp'. request_parse_commands cfg conn = Inr (conn', 0)
    \<and> cn_request conn' = Some req' \<and> cn_response conn' = Some resp'
    \<and> response_holds resp' (sm_out m @ concat (map reply_at (tails t)))
    \<and> (rq_quit req' \<longleftrightarrow> rq_quit req \<or> list_ex (starts_with ''QUIT'') (tails t))
    \<and> rq_data_len req' = rq_data_len req \<and> \<not> rq_in_data req'"
proof -
  have "smtp_scan (data_buffer_size cfg) m t =
     m\<lparr>sm_out := sm_out m @ concat (map reply_at (tails t)),
       sm_quit := sm_quit m \<or> list_ex (starts_with ''QUIT'') (tails t)\<rparr>"
    using assms(5-7) by (rule smtp_scan_commands)
  then obtain req' resp' where "request_parse_commands cfg conn
      = Inr (conn\<lparr>cn_request := Some req', cn_response := Some resp', cn_status := CONN_READING\<rparr>, 0)"
    "request_refines req' resp' (m\<lparr>sm_out := sm_out m @ concat (map reply_at (tails t)),
       sm_quit := sm_quit m \<or> list_ex (starts_with ''QUIT'') (tails t)\<rparr>)"
    using parse_commands_loop [where cfg = cfg, OF assms(1) reads_ok_line [OF assms(2)] assms(4,6,3)] assms(6)
    by auto
  then show ?thesis using assms(4,5) by (simp add: request_refines_def data_holds_def)
qed

theorem commands_answered_anywhere_witness:
  "\<exists>conn' req' resp'. request_parse_commands config_init
      (conn_with request_init response_init (''RCPT TO:<QUITE@x>'' @ CRLF)) = Inr (conn', 0)
    \<and> cn_request conn' = Some req' \<and> cn_response conn' = Some resp'
    \<and> rq_quit req' \<and> response_holds resp' (reply_ok @ reply_quit)"
proof -
  have "list_all (\<lambda>u. \<not> starts_with DATA_CMD u) (tails (''RCPT TO:<QUITE@x>'' @ CRLF))"
    "list_ex (starts_with ''QUIT'') (tails (''RCPT TO:<QUITE@x>'' @ CRLF))"
    "concat (map reply_at (tails (''RCPT TO:<QUITE@x>'' @ CRLF))) = reply_ok @ reply_quit"
    by (simp_all add: DATA_CMD_def reply_at_def)
  then show ?thesis
    using commands_answered_anywhere [OF received_conn_with _ _ start_refines,
        of "''RCPT TO:<QUITE@x>'' @ CRLF" config_init]
    by (fastforce simp: smtp_start_def conn_with_def)
qed

text \<open>
  C16. The message data stays bounded: whatever is received, ending in LF, no more than
  \<open>data-buffer-size\<close> bytes are stored, without a write outside the buffer that grows with
  them; where the bytes would exceed the bound the call reports an error.
\<close>

theorem stored_data_bounded:
  assumes "received conn req resp t" "t = [] \<or> last t = LF" "cn_status conn = CONN_READING"
    and "request_refines req resp m" "\<not> sm_error m"
    and "int (rq_data_len req) \<le> max (data_buffer_size cfg) 0"
  shows "\<exists>conn' req' r. request_parse_commands cfg conn = Inr (conn', r)
    \<and> cn_request conn' = Some req' \<and> int (rq_data_len req') \<le> max (data_buffer_size cfg) 0
    \<and> (r = 1 \<longleftrightarrow> sm_error (smtp_scan (data_buffer_size cfg) m t))"
proof -
  have "int (length (sm_data m)) \<le> max (data_buffer_size cfg) 0"
    using assms(4,6) by (simp add: request_refines_def data_holds_def)
  from smtp_scan_length [OF this, of t]
  have "int (length (sm_data (smtp_scan (data_buffer_size cfg) m t))) \<le> max (data_buffer_size cfg) 0" .
  moreover obtain req' resp' where "request_parse_commands cfg conn =
      (let bad = sm_error (smtp_scan (data_buffer_size cfg) m t) in
       Inr (conn\<lparr>cn_request := Some req', cn_response := Some resp',
                 cn_status := if bad then CONN_ERROR else CONN_READING\<rparr>, if bad then 1 else 0))"
    "request_refines req' resp' (smtp_scan (data_buffer_size cfg) m t)"
    using parse_commands_loop [where cfg = cfg, OF assms(1) reads_ok_line [OF assms(2)] assms(4,5,3)] by blast
  ultimately show ?thesis by (simp add: request_refines_def data_holds_def Let_def)
qed

theorem stored_data_bounded_witness:
  "\<exists>conn' req' r. request_parse_commands (config_init\<lparr>data_buffer_size := 2\<rparr>)
      (conn_with (request_init\<lparr>rq_in_data := True\<rparr>) response_init (''abc'' @ CRLF)) = Inr (conn', r)
    \<and> cn_request conn' = Some req' \<and> int (rq_data_len req') \<le> 2 \<and> r = 1"
proof -
  have start: "request_refines (request_init\<lparr>rq_in_data := True\<rparr>) response_init
      (smtp_start\<lparr>sm_in_data := True\<rparr>)"
    using start_refines by (simp add: request_refines_def smtp_start_def)
  have "sm_error (smtp_scan 2 (smtp_start\<lparr>sm_in_data := True\<rparr>) (''abc'' @ CRLF))"
    by (simp add: smtp_start_def smtp_byte_def ends_data_def)
  then show ?thesis
    using stored_data_bounded [OF received_conn_with _ _ start,
        of "''abc'' @ CRLF" "config_init\<lparr>data_buffer_size := 2\<rparr>"]
    by (fastforce simp: smtp_start_def conn_with_def request_init_def)
qed

end
