(* ===== verification/Request_Headers.thy ===== *)
theory Request_Headers
  imports Request_Dialogue
begin

text \<open>
  The header parser of \<^verbatim>\<open>src/request.c\<close> (\<open>request_parse_data\<close>) against a rendering of messages:
  \<open>field\<close> is a header field with its continuation lines, \<open>render_field\<close> how it is sent, and
  \<open>field_key\<close>, \<open>field_value\<close> what the parser keeps of it. \<open>run_key\<close>, \<open>run_value\<close>, \<open>run_conts\<close>
  and \<open>value_end\<close> follow the loop over the parts of a field, \<open>run_fields\<close> over a message,
  \<open>fields_overflow\<close> over one with too many fields.
\<close>

section \<open>Header fields\<close>

text \<open>
  A header field as it is sent: key, the byte after the colon, the value, and continuation
  lines, each with the TAB or space it starts with.
\<close>

type_synonym field = "string \<times> char \<times> string \<times> (char \<times> string) list"

definition cont_line :: "char \<times> string \<Rightarrow> string" where
  "cont_line c = CRLF @ fst c # snd c"

fun render_field :: "field \<Rightarrow> string" where
  "render_field (k, x, v, cs) = k @ CHR '':'' # x # v @ concat (map cont_line cs) @ CRLF"

lemma cont_line_simps [simp]: "cont_line (w, s) = CR # LF # w # s"
  by (simp add: cont_line_def)

definition blank_char :: "char \<Rightarrow> bool" where
  "blank_char c \<longleftrightarrow> c = TAB \<or> c = CHR '' ''"

fun field_ok :: "field \<Rightarrow> bool" where
  "field_ok (k, x, v, cs) \<longleftrightarrow>
     k \<noteq> [] \<and> \<not> blank_char (hd k) \<and> CR \<notin> set k \<and> CHR '':'' \<notin> set k
     \<and> CR \<notin> set v \<and> list_all (\<lambda>(w, s). blank_char w \<and> CR \<notin> set s) cs"

text \<open>What is kept of it: no spaces in keys, no NULs, cut to the sizes of the arrays.\<close>

fun field_key :: "field \<Rightarrow> string" where
  "field_key (k, x, v, cs) = take (KEY_MAX_LEN - 1) (filter (\<lambda>c. c \<noteq> CHR '' '' \<and> c \<noteq> NUL) k)"

fun field_value :: "field \<Rightarrow> string" where
  "field_value (k, x, v, cs) =
     take (VALUE_MAX_LEN - 1) (filter (\<lambda>c. c \<noteq> NUL) (v @ concat (map snd cs)))"

definition hdr_is :: "hdr \<Rightarrow> field \<Rightarrow> bool" where
  "hdr_is h f \<longleftrightarrow> holds_cstr (hdr_key h) (field_key f) \<and> holds_cstr (hdr_value h) (field_value f)"

definition hdr_sized :: "hdr \<Rightarrow> bool" where
  "hdr_sized h \<longleftrightarrow> bsize (hdr_key h) = KEY_MAX_LEN \<and> bsize (hdr_value h) = VALUE_MAX_LEN"

section \<open>Single steps\<close>

lemma blk_slice_holds:
  assumes "blk_holds b (s @ t)"
  shows "blk_slice b (length s) (length t) = Inr (map Some t)"
proof -
  have "map (cell b) [length s..<length s + length t] = map Some t"
  proof (rule nth_equalityI)
    fix i assume "i < length (map (cell b) [length s..<length s + length t])"
    then show "map (cell b) [length s..<length s + length t] ! i = map Some t ! i"
      using blk_holds_cell [OF assms, of "length s + i"] by simp
  qed simp
  then show ?thesis using assms by (simp add: blk_slice_def blk_holds_def)
qed

lemma loop_done: "ps_done st \<Longrightarrow> parse_loop data n st = Inr st"
  by (simp add: parse_loop.simps [of data n st])

lemma run_step:
  "ps_i st < n \<Longrightarrow> \<not> ps_done st \<Longrightarrow> parse_step data n st = r \<Longrightarrow>
     parse_loop data n st = rbind r (parse_loop data n)"
  by (simp add: parse_loop.simps [of data n st])

text \<open>The comparisons of a step, where at least four bytes are left.\<close>

lemma step_at:
  assumes "blk_holds data (pre @ c # t)" "n = length (pre @ c # t)" "ps_i st = length pre"
    "4 \<le> length t" "\<not> starts_with (CRLF @ CRLF) (c # t)"
  shows "parse_step data n st =
     (if c = CHR '':'' \<and> ps_is_key st then parse_char data c st
      else if starts_with (CRLF @ [TAB]) (c # t) \<or> starts_with (CRLF @ '' '') (c # t)
      then Inr (st\<lparr>ps_i := ps_i st + 3\<rparr>)
      else parse_char data c st)"
    "strncmp_lit data (length pre) (CRLF @ [TAB]) = Inr (starts_with (CRLF @ [TAB]) (c # t))"
    "strncmp_lit data (length pre) (CRLF @ '' '') = Inr (starts_with (CRLF @ '' '') (c # t))"
proof -
  have look: "strncmp_lit data (length pre) p = Inr (starts_with p (c # t))" if "length p \<le> 4" for p
    using strncmp_lit_holds [OF assms(1), of p] that assms(4) by simp
  have get: "blk_get data (length pre) = Inr c"
    using blk_holds_get [OF assms(1), of "length pre"] by simp
  show tab: "strncmp_lit data (length pre) (CRLF @ [TAB]) = Inr (starts_with (CRLF @ [TAB]) (c # t))"
    and sp: "strncmp_lit data (length pre) (CRLF @ '' '') = Inr (starts_with (CRLF @ '' '') (c # t))"
    by (rule look; simp)+
  have blank: "strncmp_lit data (length pre) (CRLF @ CRLF) = Inr False"
    using look [of "CRLF @ CRLF"] assms(5) by simp
  have "parse_step data n st = parse_char data c st"
    using assms(2,3,4) get blank by (simp add: parse_step_def del: strncmp_lit.simps)
  then show "parse_step data n st =
     (if c = CHR '':'' \<and> ps_is_key st then parse_char data c st
      else if starts_with (CRLF @ [TAB]) (c # t) \<or> starts_with (CRLF @ '' '') (c # t)
      then Inr (st\<lparr>ps_i := ps_i st + 3\<rparr>)
      else parse_char data c st)"
    using tab sp assms(3)
    by (simp add: parse_char_def del: strncmp_lit.simps starts_with_Cons)
qed

lemma parse_char_ordinary:
  assumes "blk_holds data (pre @ c # t)" "ps_i st = length pre" "c \<noteq> CR" "c \<noteq> CHR '':'' \<or> \<not> ps_is_key st"
  shows "parse_char data c st =
     (if c = NUL then Inr (st\<lparr>ps_i := ps_i st + 1\<rparr>)
      else if ps_is_key st then
        (if c \<noteq> CHR '' '' \<and> ps_cur_len st < KEY_MAX_LEN - 1
         then rbind (put_key (ps_headers st) (ps_header_count st) (ps_cur_len st) c) (\<lambda>hs.
                Inr (st\<lparr>ps_headers := hs, ps_cur_len := ps_cur_len st + 1, ps_i := ps_i st + 1\<rparr>))
         else Inr (st\<lparr>ps_i := ps_i st + 1\<rparr>))
      else
        (if ps_cur_len st < VALUE_MAX_LEN - 1
         then rbind (put_value (ps_headers st) (ps_header_count st) (ps_cur_len st) c) (\<lambda>hs.
                Inr (st\<lparr>ps_headers := hs, ps_cur_len := ps_cur_len st + 1, ps_i := ps_i st + 1\<rparr>))
         else Inr (st\<lparr>ps_i := ps_i st + 1\<rparr>)))"
proof -
  have "strncmp_lit data (length pre) (CR # p) = Inr False" for p
    using blk_holds_get [OF assms(1), of "length pre"] assms(3) by simp
  then show ?thesis using assms(2,3,4) by (simp add: parse_char_def del: strncmp_lit.simps)
qed

lemma step_ordinary:
  assumes "blk_holds data (pre @ c # t)" "n = length (pre @ c # t)" "ps_i st = length pre"
    "c \<noteq> CR"
  shows "parse_step data n st = parse_char data c st"
proof -
  have "blk_get data (length pre) = Inr c"
    using blk_holds_get [OF assms(1), of "length pre"] by simp
  then show ?thesis using assms(2-4) by (simp add: parse_step_def)
qed


section \<open>Runs over a key and over a value\<close>

definition hdrs_sized :: "hdr list \<Rightarrow> bool" where
  "hdrs_sized hs \<longleftrightarrow> length hs = HEADER_MAX_LEN \<and> list_all hdr_sized hs"

lemma hdrs_sized_nth: "hdrs_sized hs \<Longrightarrow> j < HEADER_MAX_LEN \<Longrightarrow> hdr_sized (hs ! j)"
  by (simp add: hdrs_sized_def list_all_length)

lemma hdrs_sized_length: "hdrs_sized hs \<Longrightarrow> length hs = HEADER_MAX_LEN"
  by (simp add: hdrs_sized_def)

lemma hdrs_sized_update: "hdrs_sized hs \<Longrightarrow> hdr_sized h \<Longrightarrow> hdrs_sized (hs[j := h])"
  by (cases "j < length hs") (auto simp: hdrs_sized_def list_all_length nth_list_update)

lemma put_key_end:
  assumes "hdrs_sized hs" "j < HEADER_MAX_LEN" "blk_holds (hdr_key (hs ! j)) s"
    "length s < KEY_MAX_LEN"
  shows "\<exists>h. put_key hs j (length s) c = Inr (hs[j := h]) \<and> blk_holds (hdr_key h) (s @ [c])
           \<and> hdr_value h = hdr_value (hs ! j) \<and> hdr_sized h"
  using blk_holds_append [OF assms(3), of "[c]"] hdrs_sized_nth [OF assms(1,2)] assms
  by (fastforce simp: put_key_def hdrs_sized_def hdr_sized_def)

lemma put_value_end:
  assumes "hdrs_sized hs" "j < HEADER_MAX_LEN" "blk_holds (hdr_value (hs ! j)) s"
    "length s < VALUE_MAX_LEN"
  shows "\<exists>h. put_value hs j (length s) c = Inr (hs[j := h]) \<and> blk_holds (hdr_value h) (s @ [c])
           \<and> hdr_key h = hdr_key (hs ! j) \<and> hdr_sized h"
  using blk_holds_append [OF assms(3), of "[c]"] hdrs_sized_nth [OF assms(1,2)] assms
  by (fastforce simp: put_value_def hdrs_sized_def hdr_sized_def)

text \<open>The loop stands behind \<open>pre\<close>, \<open>s\<close> read so far of the key (or of the value).\<close>

definition reading_key :: "parse_state \<Rightarrow> string \<Rightarrow> string \<Rightarrow> bool" where
  "reading_key st pre s \<longleftrightarrow> ps_i st = length pre \<and> \<not> ps_done st \<and> ps_is_key st
     \<and> ps_cur_len st = length s \<and> hdrs_sized (ps_headers st) \<and> ps_header_count st < HEADER_MAX_LEN
     \<and> blk_holds (hdr_key (ps_headers st ! ps_header_count st)) s \<and> length s < KEY_MAX_LEN"

definition reading_value :: "parse_state \<Rightarrow> string \<Rightarrow> string \<Rightarrow> bool" where
  "reading_value st pre s \<longleftrightarrow> ps_i st = length pre \<and> \<not> ps_done st \<and> \<not> ps_is_key st
     \<and> ps_cur_len st = length s \<and> hdrs_sized (ps_headers st) \<and> ps_header_count st < HEADER_MAX_LEN
     \<and> blk_holds (hdr_value (ps_headers st ! ps_header_count st)) s \<and> length s < VALUE_MAX_LEN"

text \<open>What stays the same while header \<open>j\<close> is read.\<close>

definition same_but :: "parse_state \<Rightarrow> parse_state \<Rightarrow> bool" where
  "same_but st st' \<longleftrightarrow> ps_header_count st' = ps_header_count st
     \<and> (\<exists>h. ps_headers st' = (ps_headers st)[ps_header_count st := h])"

lemma same_but_refl [simp]: "same_but st st"
  unfolding same_but_def by (metis list_update_id)

lemma same_but_trans: "same_but a b \<Longrightarrow> same_but b c \<Longrightarrow> same_but a c"
  unfolding same_but_def by (metis list_update_overwrite)

abbreviation key_chars :: "string \<Rightarrow> string" where
  "key_chars k \<equiv> filter (\<lambda>c. c \<noteq> CHR '' '' \<and> c \<noteq> NUL) k"

abbreviation value_chars :: "string \<Rightarrow> string" where
  "value_chars v \<equiv> filter (\<lambda>c. c \<noteq> NUL) v"

lemma run_key:
  "reading_key st pre s \<Longrightarrow> blk_holds data (pre @ k @ t) \<Longrightarrow> n = length (pre @ k @ t) \<Longrightarrow>
   CR \<notin> set k \<Longrightarrow> CHR '':'' \<notin> set k \<Longrightarrow>
   \<exists>st'. parse_loop data n st = parse_loop data n st' \<and> same_but st st'
     \<and> reading_key st' (pre @ k) (take (KEY_MAX_LEN - 1) (s @ key_chars k))"
proof (induction k arbitrary: st pre s)
  case Nil
  then have "take (KEY_MAX_LEN - 1) s = s" by (simp add: reading_key_def max_len_defs)
  then show ?case using Nil.prems(1) by (intro exI [of _ st]) simp
next
  case (Cons c k)
  let ?j = "ps_header_count st"
  have st: "ps_i st = length pre" "\<not> ps_done st" "ps_is_key st" "ps_cur_len st = length s"
    "length s < KEY_MAX_LEN"
    using Cons.prems(1) by (simp_all add: reading_key_def)
  have ne: "c \<noteq> CR" "c \<noteq> CHR '':''" using Cons.prems by auto
  have step: "parse_step data n st = parse_char data c st"
    using Cons.prems st ne by (intro step_ordinary [where t = "k @ t"]) simp_all
  have char: "parse_char data c st =
     (if c = NUL then Inr (st\<lparr>ps_i := ps_i st + 1\<rparr>)
      else if c \<noteq> CHR '' '' \<and> length s < KEY_MAX_LEN - 1
         then rbind (put_key (ps_headers st) ?j (length s) c) (\<lambda>hs.
                Inr (st\<lparr>ps_headers := hs, ps_cur_len := length s + 1, ps_i := ps_i st + 1\<rparr>))
         else Inr (st\<lparr>ps_i := ps_i st + 1\<rparr>))"
    using parse_char_ordinary [of data pre c "k @ t" st] Cons.prems st ne by simp
  have go: "parse_loop data n st = rbind (parse_char data c st) (parse_loop data n)"
    using Cons.prems st step by (intro run_step) simp_all
  have more: "\<exists>st'. parse_loop data n st1 = parse_loop data n st' \<and> same_but st1 st'
     \<and> reading_key st' (pre @ c # k) (take (KEY_MAX_LEN - 1) (s1 @ key_chars k))"
    if "reading_key st1 (pre @ [c]) s1" for st1 s1
    using Cons.IH [OF that] Cons.prems by simp
  show ?case
  proof (cases "c \<noteq> NUL \<and> c \<noteq> CHR '' '' \<and> length s < KEY_MAX_LEN - 1")
    case True
    obtain h where h: "put_key (ps_headers st) ?j (length s) c = Inr ((ps_headers st)[?j := h])"
      "blk_holds (hdr_key h) (s @ [c])" "hdr_sized h"
      using put_key_end [of "ps_headers st" ?j s c] Cons.prems(1) by (auto simp: reading_key_def)
    let ?st = "st\<lparr>ps_headers := (ps_headers st)[?j := h], ps_cur_len := length s + 1,
                  ps_i := ps_i st + 1\<rparr>"
    have "reading_key ?st (pre @ [c]) (s @ [c])"
      using Cons.prems(1) h True
      by (auto simp: reading_key_def hdrs_sized_update hdrs_sized_length)
    moreover have "same_but st ?st" by (auto simp: same_but_def)
    moreover have "parse_loop data n st = parse_loop data n ?st"
      using go char h True by simp
    ultimately show ?thesis using more [of ?st "s @ [c]"] True by (auto intro: same_but_trans)
  next
    case False
    let ?st = "st\<lparr>ps_i := ps_i st + 1\<rparr>"
    have "reading_key ?st (pre @ [c]) s" using Cons.prems(1) by (simp add: reading_key_def)
    moreover have "same_but st ?st" by (auto simp: same_but_def intro: exI [of _ "ps_headers st ! ?j"])
    moreover have "parse_loop data n st = parse_loop data n ?st" using go char False by auto
    moreover have "take (KEY_MAX_LEN - 1) (s @ key_chars (c # k)) = take (KEY_MAX_LEN - 1) (s @ key_chars k)"
      using False st(5) by auto
    ultimately show ?thesis using more [of ?st s] by (auto intro: same_but_trans)
  qed
qed

lemma run_value:
  "reading_value st pre s \<Longrightarrow> blk_holds data (pre @ v @ t) \<Longrightarrow> n = length (pre @ v @ t) \<Longrightarrow>
   CR \<notin> set v \<Longrightarrow>
   \<exists>st'. parse_loop data n st = parse_loop data n st' \<and> same_but st st'
     \<and> hdr_key (ps_headers st' ! ps_header_count st) = hdr_key (ps_headers st ! ps_header_count st)
     \<and> reading_value st' (pre @ v) (take (VALUE_MAX_LEN - 1) (s @ value_chars v))"
proof (induction v arbitrary: st pre s)
  case Nil
  then have "take (VALUE_MAX_LEN - 1) s = s" by (simp add: reading_value_def max_len_defs)
  then show ?case using Nil.prems(1) by (intro exI [of _ st]) simp
next
  case (Cons c v)
  let ?j = "ps_header_count st"
  have st: "ps_i st = length pre" "\<not> ps_done st" "\<not> ps_is_key st" "ps_cur_len st = length s"
    "length s < VALUE_MAX_LEN"
    using Cons.prems(1) by (simp_all add: reading_value_def)
  have ne: "c \<noteq> CR" using Cons.prems by auto
  have step: "parse_step data n st = parse_char data c st"
    using Cons.prems st ne by (intro step_ordinary [where t = "v @ t"]) simp_all
  have char: "parse_char data c st =
     (if c = NUL then Inr (st\<lparr>ps_i := ps_i st + 1\<rparr>)
      else if length s < VALUE_MAX_LEN - 1
         then rbind (put_value (ps_headers st) ?j (length s) c) (\<lambda>hs.
                Inr (st\<lparr>ps_headers := hs, ps_cur_len := length s + 1, ps_i := ps_i st + 1\<rparr>))
         else Inr (st\<lparr>ps_i := ps_i st + 1\<rparr>))"
    using parse_char_ordinary [of data pre c "v @ t" st] Cons.prems st ne by simp
  have go: "parse_loop data n st = rbind (parse_char data c st) (parse_loop data n)"
    using Cons.prems st step by (intro run_step) simp_all
  have more: "\<exists>st'. parse_loop data n st1 = parse_loop data n st' \<and> same_but st1 st'
     \<and> hdr_key (ps_headers st' ! ps_header_count st1) = hdr_key (ps_headers st1 ! ps_header_count st1)
     \<and> reading_value st' (pre @ c # v) (take (VALUE_MAX_LEN - 1) (s1 @ value_chars v))"
    if "reading_value st1 (pre @ [c]) s1" for st1 s1
    using Cons.IH [OF that] Cons.prems by simp
  show ?case
  proof (cases "c \<noteq> NUL \<and> length s < VALUE_MAX_LEN - 1")
    case True
    obtain h where h: "put_value (ps_headers st) ?j (length s) c = Inr ((ps_headers st)[?j := h])"
      "blk_holds (hdr_value h) (s @ [c])" "hdr_key h = hdr_key (ps_headers st ! ?j)" "hdr_sized h"
      using put_value_end [of "ps_headers st" ?j s c] Cons.prems(1) by (auto simp: reading_value_def)
    let ?st = "st\<lparr>ps_headers := (ps_headers st)[?j := h], ps_cur_len := length s + 1,
                  ps_i := ps_i st + 1\<rparr>"
    have r: "reading_value ?st (pre @ [c]) (s @ [c])"
      using Cons.prems(1) h True
      by (auto simp: reading_value_def hdrs_sized_update hdrs_sized_length)
    have k: "hdr_key (ps_headers ?st ! ?j) = hdr_key (ps_headers st ! ?j)"
      using Cons.prems(1) h by (simp add: reading_value_def hdrs_sized_def)
    have "same_but st ?st" by (auto simp: same_but_def)
    moreover have "parse_loop data n st = parse_loop data n ?st"
      using go char h True by simp
    ultimately show ?thesis using more [OF r] True k by (auto intro: same_but_trans)
  next
    case False
    let ?st = "st\<lparr>ps_i := ps_i st + 1\<rparr>"
    have r: "reading_value ?st (pre @ [c]) s" using Cons.prems(1) by (simp add: reading_value_def)
    have "same_but st ?st" by (auto simp: same_but_def intro: exI [of _ "ps_headers st ! ?j"])
    moreover have "parse_loop data n st = parse_loop data n ?st" using go char False by auto
    moreover have "take (VALUE_MAX_LEN - 1) (s @ value_chars (c # v)) = take (VALUE_MAX_LEN - 1) (s @ value_chars v)"
      using False st(5) by auto
    ultimately show ?thesis using more [OF r] by (auto intro: same_but_trans)
  qed
qed


section \<open>From one field to the next\<close>

lemma key_end:
  assumes "reading_key st pre s" "blk_holds data (pre @ CHR '':'' # x # t)" "n = length (pre @ CHR '':'' # x # t)"
    "no_nul s"
  shows "\<exists>st'. parse_loop data n st = parse_loop data n st' \<and> same_but st st'
     \<and> holds_cstr (hdr_key (ps_headers st' ! ps_header_count st)) s
     \<and> reading_value st' (pre @ [CHR '':'', x]) []"
proof -
  let ?j = "ps_header_count st"
  obtain h where h: "put_key (ps_headers st) ?j (length s) NUL = Inr ((ps_headers st)[?j := h])"
    "blk_holds (hdr_key h) (s @ [NUL])" "hdr_sized h"
    using put_key_end [of "ps_headers st" ?j s NUL] assms(1) by (auto simp: reading_key_def)
  let ?st = "st\<lparr>ps_headers := (ps_headers st)[?j := h], ps_is_key := False, ps_cur_len := 0,
                ps_i := ps_i st + 2\<rparr>"
  have "parse_step data n st = Inr ?st"
    using assms h step_ordinary [of data pre "CHR '':''" "x # t" n st]
    by (simp add: parse_char_def reading_key_def)
  then have "parse_loop data n st = parse_loop data n ?st"
    using run_step [of st n data "Inr ?st"] assms by (simp add: reading_key_def)
  moreover have "same_but st ?st" by (auto simp: same_but_def)
  ultimately show ?thesis using assms(1,4) h
    by (intro exI [of _ ?st])
      (auto simp: reading_key_def reading_value_def hdrs_sized_update hdrs_sized_length holds_cstr_def
        max_len_defs)
qed

lemma cont_start:
  assumes "reading_value st pre s" "blk_holds data (pre @ CR # LF # w # t)"
    "n = length (pre @ CR # LF # w # t)" "blank_char w" "2 \<le> length t"
  shows "parse_loop data n st = parse_loop data n (st\<lparr>ps_i := ps_i st + 3\<rparr>)"
    "reading_value (st\<lparr>ps_i := ps_i st + 3\<rparr>) (pre @ CRLF @ [w]) s"
proof -
  have "parse_step data n st = Inr (st\<lparr>ps_i := ps_i st + 3\<rparr>)"
    using assms step_at(1) [of data pre CR "LF # w # t" n st]
    by (auto simp: reading_value_def blank_char_def)
  then show "parse_loop data n st = parse_loop data n (st\<lparr>ps_i := ps_i st + 3\<rparr>)"
    using run_step [of st n data] assms by (simp add: reading_value_def)
  show "reading_value (st\<lparr>ps_i := ps_i st + 3\<rparr>) (pre @ CRLF @ [w]) s"
    using assms(1) by (simp add: reading_value_def)
qed

lemma take_take_append: "take n (take n a @ b) = take n (a @ b)"
  by (cases "length a \<le> n") simp_all

lemma run_conts:
  "reading_value st pre s \<Longrightarrow> blk_holds data (pre @ concat (map cont_line cs) @ t) \<Longrightarrow>
   n = length (pre @ concat (map cont_line cs) @ t) \<Longrightarrow> 2 \<le> length t \<Longrightarrow>
   list_all (\<lambda>(w, s). blank_char w \<and> CR \<notin> set s) cs \<Longrightarrow>
   \<exists>st'. parse_loop data n st = parse_loop data n st' \<and> same_but st st'
     \<and> hdr_key (ps_headers st' ! ps_header_count st) = hdr_key (ps_headers st ! ps_header_count st)
     \<and> reading_value st' (pre @ concat (map cont_line cs))
         (take (VALUE_MAX_LEN - 1) (s @ value_chars (concat (map snd cs))))"
proof (induction cs arbitrary: st pre s)
  case Nil
  then have "take (VALUE_MAX_LEN - 1) s = s" by (simp add: reading_value_def max_len_defs)
  then show ?case using Nil.prems(1) by (intro exI [of _ st]) simp
next
  case (Cons c cs)
  obtain w v where c: "c = (w, v)" by fastforce
  let ?rest = "concat (map cont_line cs) @ t" and ?st = "st\<lparr>ps_i := ps_i st + 3\<rparr>"
  have w: "blank_char w" "CR \<notin> set v" using Cons.prems(5) by (simp_all add: c)
  have go: "parse_loop data n st = parse_loop data n ?st"
    and rd: "reading_value ?st (pre @ CRLF @ [w]) s"
    using cont_start [of st pre s data w "v @ ?rest" n] Cons.prems w
    by (simp_all add: c)
  have "blk_holds data ((pre @ CRLF @ [w]) @ v @ ?rest)" "n = length ((pre @ CRLF @ [w]) @ v @ ?rest)"
    using Cons.prems by (simp_all add: c)
  from run_value [OF rd this w(2)] obtain st1 where st1:
    "parse_loop data n ?st = parse_loop data n st1" "same_but ?st st1"
    "hdr_key (ps_headers st1 ! ps_header_count ?st) = hdr_key (ps_headers ?st ! ps_header_count ?st)"
    "reading_value st1 ((pre @ CRLF @ [w]) @ v) (take (VALUE_MAX_LEN - 1) (s @ value_chars v))"
    by blast
  have "blk_holds data (((pre @ CRLF @ [w]) @ v) @ ?rest)" "n = length (((pre @ CRLF @ [w]) @ v) @ ?rest)"
    "list_all (\<lambda>(w, s). blank_char w \<and> CR \<notin> set s) cs"
    using Cons.prems by (simp_all add: c)
  from Cons.IH [OF st1(4) this(1,2) Cons.prems(4) this(3)] obtain st2 where st2:
    "parse_loop data n st1 = parse_loop data n st2" "same_but st1 st2"
    "hdr_key (ps_headers st2 ! ps_header_count st1) = hdr_key (ps_headers st1 ! ps_header_count st1)"
    "reading_value st2 (((pre @ CRLF @ [w]) @ v) @ concat (map cont_line cs))
       (take (VALUE_MAX_LEN - 1) (take (VALUE_MAX_LEN - 1) (s @ value_chars v)
          @ value_chars (concat (map snd cs))))"
    by blast
  have "same_but st ?st" by (auto simp: same_but_def intro: exI [of _ "ps_headers st ! ps_header_count st"])
  then have "same_but st st2" using st1(2) st2(2) by (blast intro: same_but_trans)
  moreover have "ps_header_count st1 = ps_header_count st" using st1(2) by (simp add: same_but_def)
  moreover have "reading_value st2 (pre @ concat (map cont_line (c # cs)))
       (take (VALUE_MAX_LEN - 1) (s @ value_chars (concat (map snd (c # cs)))))"
    using st2(4) unfolding take_take_append by (simp add: c del: take_append)
  ultimately show ?case using go st1 st2 by (intro exI [of _ st2]) simp
qed

definition next_header :: "parse_state \<Rightarrow> hdr \<Rightarrow> nat \<Rightarrow> bool \<Rightarrow> parse_state" where
  "next_header st h i fin = st\<lparr>ps_headers := (ps_headers st)[ps_header_count st := h],
     ps_header_count := ps_header_count st + 1, ps_i := i, ps_done := fin, ps_is_key := True,
     ps_cur_len := 0\<rparr>"

lemma value_end:
  assumes rd: "reading_value st pre s" and data: "blk_holds data (pre @ CRLF @ t)" "n = length (pre @ CRLF @ t)"
    and s: "no_nul s"
    and t: "3 \<le> length t" "if fin then \<exists>u. t = CRLF @ u \<and> \<not> blank_char (hd u)
      else hd t \<noteq> CR \<and> \<not> blank_char (hd t)"
  shows "\<exists>h. parse_loop data n st
       = parse_loop data n (next_header st h (length (pre @ CRLF) + (if fin then 2 else 0)) fin)
     \<and> hdr_key h = hdr_key (ps_headers st ! ps_header_count st) \<and> holds_cstr (hdr_value h) s
     \<and> hdr_sized h"
proof -
  let ?j = "ps_header_count st"
  obtain h where h: "put_value (ps_headers st) ?j (length s) NUL = Inr ((ps_headers st)[?j := h])"
    "blk_holds (hdr_value h) (s @ [NUL])" "hdr_key h = hdr_key (ps_headers st ! ?j)" "hdr_sized h"
    using put_value_end [of "ps_headers st" ?j s NUL] rd by (auto simp: reading_value_def)
  have st: "ps_i st = length pre" "\<not> ps_done st" "\<not> ps_is_key st" "ps_cur_len st = length s"
    "?j < HEADER_MAX_LEN"
    using rd by (simp_all add: reading_value_def)
  let ?st = "next_header st h (length (pre @ CRLF) + (if fin then 2 else 0)) fin"
  have "parse_step data n st = Inr ?st"
  proof (cases fin)
    case True
    then obtain u where u: "t = CRLF @ u" "\<not> blank_char (hd u)" using t(2) by auto
    obtain a u' where a: "u = a # u'" "a \<noteq> TAB" "a \<noteq> CHR '' ''"
      using u t(1) by (cases u) (auto simp: blank_char_def)
    have d: "blk_holds data (pre @ CRLF @ CRLF @ a # u')" using data u a by simp
    have d2: "blk_holds data ((pre @ CRLF) @ CRLF @ a # u')" using d by simp
    have "blk_get data (length pre) = Inr CR"
      using blk_holds_get [OF d, of "length pre"] by simp
    moreover have "strncmp_lit data (length pre) (CRLF @ CRLF) = Inr True"
      using strncmp_lit_holds [OF d, of "CRLF @ CRLF"] by simp
    moreover have "strncmp_lit data (length (pre @ CRLF)) (CRLF @ [TAB]) = Inr False"
      "strncmp_lit data (length (pre @ CRLF)) (CRLF @ '' '') = Inr False"
      using strncmp_lit_holds [OF d2, of "CRLF @ [TAB]"] strncmp_lit_holds [OF d2, of "CRLF @ '' ''"] a
      by simp_all
    moreover have "t \<noteq> []" using u by simp
    ultimately show ?thesis using st h True data(2) t(1)
      by (simp add: parse_step_def parse_char_def next_header_def del: strncmp_lit.simps)
  next
    case False
    obtain a t' where a: "t = a # t'" "a \<noteq> CR" "a \<noteq> TAB" "a \<noteq> CHR '' ''"
      using False t by (cases t) (auto simp: blank_char_def)
    have "parse_step data n st = parse_char data CR st"
      "strncmp_lit data (length pre) (CRLF @ [TAB]) = Inr False"
      "strncmp_lit data (length pre) (CRLF @ '' '') = Inr False"
      using step_at [of data pre CR "LF # t" n st] data t(1) st a by simp_all
    then show ?thesis using st h False
      by (simp add: parse_char_def next_header_def del: strncmp_lit.simps)
  qed
  then have "parse_loop data n st = parse_loop data n ?st"
    using run_step [of st n data] st data by simp
  then show ?thesis using h s by (auto simp: holds_cstr_def)
qed


section \<open>A whole field, a whole message\<close>

definition before_field :: "parse_state \<Rightarrow> string \<Rightarrow> bool" where
  "before_field st pre \<longleftrightarrow> ps_i st = length pre \<and> \<not> ps_done st \<and> ps_is_key st
     \<and> ps_cur_len st = 0 \<and> hdrs_sized (ps_headers st)"

lemma no_nul_take_filter: "no_nul (take n (filter (\<lambda>c. P c \<and> c \<noteq> NUL) s))"
  "no_nul (take n (filter (\<lambda>c. c \<noteq> NUL) s))"
  by (auto simp: no_nul_iff dest!: in_set_takeD)

lemma run_field:
  assumes st: "before_field st pre" "ps_header_count st < HEADER_MAX_LEN"
    and data: "blk_holds data (pre @ render_field f @ t)" "n = length (pre @ render_field f @ t)"
    and f: "field_ok f"
    and t: "3 \<le> length t" "if fin then \<exists>u. t = CRLF @ u \<and> \<not> blank_char (hd u)
      else hd t \<noteq> CR \<and> \<not> blank_char (hd t)"
  shows "\<exists>h. parse_loop data n st = parse_loop data n
       (next_header st h (length (pre @ render_field f) + (if fin then 2 else 0)) fin)
     \<and> hdr_is h f \<and> hdr_sized h"
proof -
  obtain k x v cs where fd: "f = (k, x, v, cs)" by (cases f) auto
  let ?j = "ps_header_count st" and ?cs = "concat (map cont_line cs)"
  have k: "CR \<notin> set k" "CHR '':'' \<notin> set k" "CR \<notin> set v"
    "list_all (\<lambda>(w, s). blank_char w \<and> CR \<notin> set s) cs"
    using f by (simp_all add: fd)
  have rd: "reading_key st pre []"
    using st by (simp add: before_field_def reading_key_def max_len_defs)
  have "blk_holds data (pre @ k @ CHR '':'' # x # v @ ?cs @ CRLF @ t)"
    "n = length (pre @ k @ CHR '':'' # x # v @ ?cs @ CRLF @ t)"
    using data by (simp_all add: fd)
  from run_key [OF rd this k(1,2)] obtain st1 where st1:
    "parse_loop data n st = parse_loop data n st1" "same_but st st1"
    "reading_key st1 (pre @ k) (field_key f)"
    by (auto simp: fd)
  have "blk_holds data ((pre @ k) @ CHR '':'' # x # v @ ?cs @ CRLF @ t)"
    "n = length ((pre @ k) @ CHR '':'' # x # v @ ?cs @ CRLF @ t)"
    "no_nul (field_key f)"
    using data no_nul_take_filter by (simp_all add: fd)
  from key_end [OF st1(3) this] obtain st2 where st2: "parse_loop data n st1 = parse_loop data n st2"
    "same_but st1 st2" "holds_cstr (hdr_key (ps_headers st2 ! ps_header_count st1)) (field_key f)"
    "reading_value st2 ((pre @ k) @ [CHR '':'', x]) []"
    by blast
  have "blk_holds data (((pre @ k) @ [CHR '':'', x]) @ v @ ?cs @ CRLF @ t)"
    "n = length (((pre @ k) @ [CHR '':'', x]) @ v @ ?cs @ CRLF @ t)"
    using data by (simp_all add: fd)
  from run_value [OF st2(4) this k(3)] obtain st3 where st3:
    "parse_loop data n st2 = parse_loop data n st3" "same_but st2 st3"
    "hdr_key (ps_headers st3 ! ps_header_count st2) = hdr_key (ps_headers st2 ! ps_header_count st2)"
    "reading_value st3 (((pre @ k) @ [CHR '':'', x]) @ v) (take (VALUE_MAX_LEN - 1) ([] @ value_chars v))"
    by blast
  have "blk_holds data ((((pre @ k) @ [CHR '':'', x]) @ v) @ ?cs @ CRLF @ t)"
    "n = length ((((pre @ k) @ [CHR '':'', x]) @ v) @ ?cs @ CRLF @ t)" "2 \<le> length (CRLF @ t)"
    using data by (simp_all add: fd)
  from run_conts [OF st3(4) this k(4)] obtain st4 where st4:
    "parse_loop data n st3 = parse_loop data n st4" "same_but st3 st4"
    "hdr_key (ps_headers st4 ! ps_header_count st3) = hdr_key (ps_headers st3 ! ps_header_count st3)"
    "reading_value st4 ((((pre @ k) @ [CHR '':'', x]) @ v) @ ?cs)
       (take (VALUE_MAX_LEN - 1) (take (VALUE_MAX_LEN - 1) ([] @ value_chars v)
         @ value_chars (concat (map snd cs))))"
    by blast
  have val: "take (VALUE_MAX_LEN - 1) (take (VALUE_MAX_LEN - 1) ([] @ value_chars v)
         @ value_chars (concat (map snd cs))) = field_value f"
    unfolding take_take_append by (simp add: fd del: take_append)
  have "blk_holds data (((((pre @ k) @ [CHR '':'', x]) @ v) @ ?cs) @ CRLF @ t)"
    "n = length (((((pre @ k) @ [CHR '':'', x]) @ v) @ ?cs) @ CRLF @ t)" "no_nul (field_value f)"
    using data no_nul_take_filter(2) by (simp_all add: fd)
  from value_end [OF st4(4) [unfolded val] this t] obtain h where h: "parse_loop data n st4 =
       parse_loop data n (next_header st4 h
         (length (((((pre @ k) @ [CHR '':'', x]) @ v) @ ?cs) @ CRLF) + (if fin then 2 else 0)) fin)"
     "hdr_key h = hdr_key (ps_headers st4 ! ps_header_count st4)" "holds_cstr (hdr_value h) (field_value f)"
     "hdr_sized h"
    by blast
  have same: "same_but st st4"
    using st1(2) st2(2) st3(2) st4(2) by (blast intro: same_but_trans)
  have "next_header st4 h i fin = next_header st h i fin" for i
  proof -
    obtain h4 where "ps_headers st4 = (ps_headers st)[?j := h4]" "ps_header_count st4 = ?j"
      using same by (auto simp: same_but_def)
    then show ?thesis by (simp add: next_header_def)
  qed
  moreover have "ps_header_count st1 = ?j" "ps_header_count st2 = ?j" "ps_header_count st3 = ?j"
    "ps_header_count st4 = ?j"
    using st1(2) st2(2) st3(2) st4(2) by (simp_all add: same_but_def)
  then have "hdr_is h f" using h st2(3) st3(3) st4(3) by (simp add: hdr_is_def)
  moreover have "length (((((pre @ k) @ [CHR '':'', x]) @ v) @ ?cs) @ CRLF) = length (pre @ render_field f)"
    by (simp add: fd)
  ultimately show ?thesis using st1(1) st2(1) st3(1) st4(1) h(1,4) by metis
qed


abbreviation render_fields :: "field list \<Rightarrow> string" where
  "render_fields fs \<equiv> concat (map render_field fs)"

lemma render_field_length: "4 \<le> length (render_field f) + (if field_ok f then 0 else 4)"
proof -
  obtain k x v cs where f: "f = (k, x, v, cs)" by (cases f) auto
  show ?thesis by (cases k) (auto simp: f)
qed

lemma render_field_hd: "field_ok f \<Longrightarrow> hd (render_field f @ t) \<noteq> CR \<and> \<not> blank_char (hd (render_field f @ t))"
proof -
  obtain k x v cs where f: "f = (k, x, v, cs)" by (cases f) auto
  show "field_ok f \<Longrightarrow> ?thesis" by (cases k) (auto simp: f)
qed

definition end_state :: "parse_state \<Rightarrow> hdr list \<Rightarrow> nat \<Rightarrow> nat \<Rightarrow> parse_state" where
  "end_state st hs cnt i = st\<lparr>ps_headers := hs, ps_header_count := cnt, ps_i := i, ps_done := True,
     ps_is_key := True, ps_cur_len := 0\<rparr>"

lemma run_fields:
  "before_field st pre \<Longrightarrow> ps_header_count st + length fs \<le> HEADER_MAX_LEN \<Longrightarrow>
   blk_holds data (pre @ render_fields fs @ CRLF @ u) \<Longrightarrow>
   n = length (pre @ render_fields fs @ CRLF @ u) \<Longrightarrow>
   list_all field_ok fs \<Longrightarrow> fs \<noteq> [] \<Longrightarrow> u \<noteq> [] \<Longrightarrow> \<not> blank_char (hd u) \<Longrightarrow>
   \<exists>hs. parse_loop data n st = Inr (end_state st hs (ps_header_count st + length fs) (n - length u))
     \<and> hdrs_sized hs \<and> (\<forall>i<length fs. hdr_is (hs ! (ps_header_count st + i)) (fs ! i))
     \<and> (\<forall>i<ps_header_count st. hs ! i = ps_headers st ! i)"
proof (induction fs arbitrary: st pre)
  case Nil
  then show ?case by simp
next
  case (Cons f fs)
  let ?j = "ps_header_count st" and ?t = "render_fields fs @ CRLF @ u"
  have f: "field_ok f" and fs: "list_all field_ok fs" using Cons.prems(5) by simp_all
  have j: "?j < HEADER_MAX_LEN" using Cons.prems(2) by simp
  have data: "blk_holds data (pre @ render_field f @ ?t)" "n = length (pre @ render_field f @ ?t)"
    using Cons.prems(3,4) by simp_all
  have t3: "3 \<le> length ?t" using Cons.prems(7) by (cases u) simp_all
  have sz: "hdrs_sized (ps_headers st)" using Cons.prems(1) by (simp add: before_field_def)
  show ?case
  proof (cases "fs = []")
    case True
    have last: "if True then \<exists>w. ?t = CRLF @ w \<and> \<not> blank_char (hd w) else hd ?t \<noteq> CR \<and> \<not> blank_char (hd ?t)"
      using True Cons.prems(8) by simp
    obtain h where h: "parse_loop data n st = parse_loop data n
       (next_header st h (length (pre @ render_field f) + (if True then 2 else 0)) True)"
      "hdr_is h f" "hdr_sized h"
      using run_field [OF Cons.prems(1) j data f t3 last] by blast
    have "parse_loop data n st
        = Inr (end_state st ((ps_headers st)[?j := h]) (?j + length (f # fs)) (n - length u))"
      using h(1) data(2) True
      by (simp add: loop_done next_header_def end_state_def)
    then show ?thesis using h sz j True
      by (intro exI [of _ "(ps_headers st)[?j := h]"]) (simp add: hdrs_sized_update hdrs_sized_length)
  next
    case False
    then obtain g gs where g: "fs = g # gs" by (cases fs) auto
    have next': "if False then \<exists>w. ?t = CRLF @ w \<and> \<not> blank_char (hd w) else hd ?t \<noteq> CR \<and> \<not> blank_char (hd ?t)"
      using render_field_hd [of g "render_fields gs @ CRLF @ u"] fs by (simp add: g)
    obtain h where h: "parse_loop data n st = parse_loop data n
       (next_header st h (length (pre @ render_field f) + (if False then 2 else 0)) False)"
      "hdr_is h f" "hdr_sized h"
      using run_field [OF Cons.prems(1) j data f t3 next'] by blast
    let ?st = "next_header st h (length (pre @ render_field f)) False"
    have "before_field ?st (pre @ render_field f)"
      using sz h(3) by (simp add: before_field_def next_header_def hdrs_sized_update)
    moreover have "ps_header_count ?st + length fs \<le> HEADER_MAX_LEN"
      using Cons.prems(2) by (simp add: next_header_def)
    moreover have "blk_holds data ((pre @ render_field f) @ ?t)" "n = length ((pre @ render_field f) @ ?t)"
      using data by simp_all
    ultimately obtain hs where hs: "parse_loop data n ?st
        = Inr (end_state ?st hs (ps_header_count ?st + length fs) (n - length u))"
      "hdrs_sized hs" "\<forall>i<length fs. hdr_is (hs ! (ps_header_count ?st + i)) (fs ! i)"
      "\<forall>i<ps_header_count ?st. hs ! i = ps_headers ?st ! i"
      using Cons.IH [of ?st "pre @ render_field f"] fs False Cons.prems(7,8) by blast
    have nj: "ps_header_count ?st = Suc ?j" "ps_headers ?st = (ps_headers st)[?j := h]"
      by (simp_all add: next_header_def)
    have "hs ! i = ps_headers ?st ! i" if "i < Suc ?j" for i using hs(4) that nj(1) by simp
    then have old: "hs ! i = (ps_headers st)[?j := h] ! i" if "i < Suc ?j" for i
      using that nj(2) by simp
    then have "hs ! ?j = h" using sz j by (simp add: hdrs_sized_length)
    moreover have new: "\<forall>i<length fs. hdr_is (hs ! (Suc ?j + i)) (fs ! i)"
      using hs(3) unfolding nj(1) .
    ultimately have "\<forall>i<length (f # fs). hdr_is (hs ! (?j + i)) ((f # fs) ! i)"
      using new h(2) by (auto simp: less_Suc_eq_0_disj)
    moreover have "\<forall>i<?j. hs ! i = ps_headers st ! i" using old by simp
    moreover have "end_state ?st hs (ps_header_count ?st + length fs) (n - length u)
        = end_state st hs (?j + length (f # fs)) (n - length u)"
      by (simp add: end_state_def next_header_def)
    ultimately show ?thesis using h(1) hs by auto
  qed
qed

lemma key_overflow:
  "ps_i st = length pre \<Longrightarrow> \<not> ps_done st \<Longrightarrow> ps_is_key st \<Longrightarrow> ps_cur_len st = 0 \<Longrightarrow>
   length (ps_headers st) \<le> ps_header_count st \<Longrightarrow>
   blk_holds data (pre @ k @ CHR '':'' # x # t) \<Longrightarrow> n = length (pre @ k @ CHR '':'' # x # t) \<Longrightarrow>
   CR \<notin> set k \<Longrightarrow> CHR '':'' \<notin> set k \<Longrightarrow> parse_loop data n st = Inl Out_Of_Bounds"
proof (induction k arbitrary: st pre)
  case Nil
  then have "parse_step data n st = Inl Out_Of_Bounds"
    using step_ordinary [of data pre "CHR '':''" "x # t" n st] by (simp add: parse_char_def put_key_def)
  then show ?case using run_step [of st n data] Nil.prems by simp
next
  case (Cons c k)
  have ne: "c \<noteq> CR" "c \<noteq> CHR '':''" using Cons.prems(8,9) by auto
  have "parse_step data n st = parse_char data c st"
    using Cons.prems ne by (intro step_ordinary [where t = "k @ CHR '':'' # x # t"]) simp_all
  then have step: "parse_step data n st = (if c \<noteq> NUL \<and> c \<noteq> CHR '' '' then Inl Out_Of_Bounds
      else Inr (st\<lparr>ps_i := ps_i st + 1\<rparr>))"
    using parse_char_ordinary [of data pre c "k @ CHR '':'' # x # t" st] Cons.prems ne
    by (auto simp: put_key_def max_len_defs)
  have "parse_loop data n (st\<lparr>ps_i := ps_i st + 1\<rparr>) = Inl Out_Of_Bounds"
    using Cons.IH [of "st\<lparr>ps_i := ps_i st + 1\<rparr>" "pre @ [c]"] Cons.prems by simp
  then show ?case using run_step [of st n data, OF _ _ step] Cons.prems by simp
qed

lemma fields_overflow:
  "before_field st pre \<Longrightarrow> ps_header_count st \<le> HEADER_MAX_LEN \<Longrightarrow>
   HEADER_MAX_LEN < ps_header_count st + length fs \<Longrightarrow>
   blk_holds data (pre @ render_fields fs @ u) \<Longrightarrow> n = length (pre @ render_fields fs @ u) \<Longrightarrow>
   list_all field_ok fs \<Longrightarrow> parse_loop data n st = Inl Out_Of_Bounds"
proof (induction fs arbitrary: st pre)
  case Nil
  then show ?case by simp
next
  case (Cons f fs)
  let ?j = "ps_header_count st" and ?t = "render_fields fs @ u"
  obtain k x v cs where fd: "f = (k, x, v, cs)" by (cases f) auto
  show ?case
  proof (cases "?j = HEADER_MAX_LEN")
    case True
    then show ?thesis
      using key_overflow [of st pre data k x "v @ concat (map cont_line cs) @ CRLF @ ?t" n] Cons.prems
      by (simp add: before_field_def hdrs_sized_length fd)
  next
    case False
    then have j: "?j < HEADER_MAX_LEN" "fs \<noteq> []" using Cons.prems(2,3) by auto
    then obtain g gs where g: "fs = g # gs" by (cases fs) auto
    have data: "blk_holds data (pre @ render_field f @ ?t)" "n = length (pre @ render_field f @ ?t)"
      and f: "field_ok f" "field_ok g"
      using Cons.prems by (simp_all add: g)
    have t3: "3 \<le> length ?t" using render_field_length [of g] f by (simp add: g)
    have next': "if False then \<exists>w. ?t = CRLF @ w \<and> \<not> blank_char (hd w) else hd ?t \<noteq> CR \<and> \<not> blank_char (hd ?t)"
      using render_field_hd [of g "render_fields gs @ u"] f by (simp add: g)
    obtain h where h: "parse_loop data n st = parse_loop data n
       (next_header st h (length (pre @ render_field f) + (if False then 2 else 0)) False)" "hdr_sized h"
      using run_field [OF Cons.prems(1) j(1) data f(1) t3 next'] by blast
    let ?st = "next_header st h (length (pre @ render_field f)) False"
    have "before_field ?st (pre @ render_field f)"
      using Cons.prems(1) h(2) by (simp add: before_field_def next_header_def hdrs_sized_update)
    then have "parse_loop data n ?st = Inl Out_Of_Bounds"
      using Cons.IH [of ?st "pre @ render_field f"] Cons.prems(3,6) data j(1)
      by (simp add: next_header_def)
    then show ?thesis using h by simp
  qed
qed

definition parse_start :: "request \<Rightarrow> parse_state" where
  "parse_start req = \<lparr>ps_i = 0, ps_done = False, ps_is_key = True, ps_cur_len = 0,
     ps_header_count = 0, ps_headers = rq_headers req\<rparr>"

lemma before_first_field: "hdrs_sized (rq_headers req) \<Longrightarrow> before_field (parse_start req) []"
  by (simp add: before_field_def parse_start_def)

lemma stored_data:
  "data_holds req (s @ CRLF @ t) \<Longrightarrow> \<exists>b. rq_data req = Some b \<and> blk_holds b (s @ CRLF @ t)
     \<and> rq_data_len req = length (s @ CRLF @ t)"
  by (auto simp: data_holds_def blk_exact_holds split: option.splits)

lemma parse_data_overflow:
  assumes "data_holds req (render_fields fs @ CRLF @ body)" "hdrs_sized (rq_headers req)"
    and "list_all field_ok fs" "HEADER_MAX_LEN < length fs"
  shows "request_parse_data req = Inl Out_Of_Bounds"
proof -
  let ?d = "render_fields fs @ CRLF @ body"
  obtain b where b: "rq_data req = Some b" "blk_holds b ?d" "rq_data_len req = length ?d"
    using stored_data [OF assms(1)] by blast
  have "parse_loop b (length ?d) (parse_start req) = Inl Out_Of_Bounds"
    using fields_overflow [OF before_first_field [OF assms(2)], of fs b "CRLF @ body"] b(2) assms(3,4)
    by (simp add: parse_start_def)
  then show ?thesis using b by (simp add: request_parse_data_def Let_def parse_start_def)
qed

lemma parse_data_ok:
  assumes "data_holds req (render_fields fs @ CRLF @ body)" "hdrs_sized (rq_headers req)"
    and "list_all field_ok fs" "fs \<noteq> []" "body \<noteq> []" "\<not> blank_char (hd body)"
    and "length fs \<le> HEADER_MAX_LEN"
  shows "\<exists>hs b. request_parse_data req = Inr (req\<lparr>rq_headers := hs,
        rq_header_count := Some (length fs), rq_body_len := length body, rq_body := Some b\<rparr>)
    \<and> hdrs_sized hs \<and> (\<forall>i<length fs. hdr_is (hs ! i) (fs ! i)) \<and> blk_holds b (body @ [NUL])"
proof -
  let ?d = "render_fields fs @ CRLF @ body"
  obtain b where b: "rq_data req = Some b" "blk_holds b ?d" "rq_data_len req = length ?d"
    using stored_data [OF assms(1)] by blast
  obtain hs where hs: "parse_loop b (length ?d) (parse_start req)
      = Inr (end_state (parse_start req) hs (length fs) (length ?d - length body))"
    "hdrs_sized hs" "\<forall>i<length fs. hdr_is (hs ! i) (fs ! i)"
    using run_fields [OF before_first_field [OF assms(2)], of fs b body "length ?d"] b(2) assms(3-7)
    by (auto simp: parse_start_def)
  let ?off = "length ?d - length body" and ?m = "malloc (length body + 1)"
  have off: "?off = length (render_fields fs @ CRLF)" "?off < length ?d" "length ?d - ?off = length body"
    using assms(5) by simp_all
  have slice: "blk_slice b ?off (length body) = Inr (map Some body)"
    unfolding off(1) by (rule blk_slice_holds) (use b(2) in simp)
  obtain b1 where b1: "blk_copy ?m 0 (map Some body) = Inr b1" "blk_holds b1 body"
    "bsize b1 = length body + 1"
    using blk_holds_append [of ?m "[]" body] by auto
  obtain b2 where b2: "blk_set b1 (length body) NUL = Inr b2" "blk_holds b2 (body @ [NUL])"
    using blk_holds_append [OF b1(2), of "[NUL]"] b1(3) by auto
  have "request_parse_data req = Inr (req\<lparr>rq_headers := hs,
        rq_header_count := Some (length fs), rq_body_len := length body, rq_body := Some b2\<rparr>)"
    using b(1,3) hs(1) off(2,3) slice b1(1) b2(1)
    by (simp add: request_parse_data_def Let_def end_state_def parse_start_def)
  then show ?thesis using hs(2,3) b2(2) by blast
qed

section \<open>Properties\<close>

text \<open>
  C6. Parsing a stored message: header fields (with continuation lines), a blank line and a
  body. At most \<open>HEADER_MAX_LEN\<close> fields: each header array holds the field's key and value as
  terminated strings, cut to the sizes of the arrays, the count is right and the body is
  copied, terminated. One field more: the parser writes behind the array of headers.
\<close>

theorem parse_data_fields:
  assumes "data_holds req (render_fields fs @ CRLF @ body)" "hdrs_sized (rq_headers req)"
    and "list_all field_ok fs" "fs \<noteq> []" "body \<noteq> []" "\<not> blank_char (hd body)"
  shows "if length fs \<le> HEADER_MAX_LEN
    then \<exists>req' b. request_parse_data req = Inr req' \<and> rq_header_count req' = Some (length fs)
      \<and> (\<forall>i<length fs. hdr_is (rq_headers req' ! i) (fs ! i))
      \<and> rq_body_len req' = length body \<and> rq_body req' = Some b \<and> blk_holds b (body @ [NUL])
    else request_parse_data req = Inl Out_Of_Bounds"
proof (cases "length fs \<le> HEADER_MAX_LEN")
  case True
  then show ?thesis using parse_data_ok [OF assms True] by auto
next
  case False
  then show ?thesis using parse_data_overflow [OF assms(1-3)] by simp
qed

theorem parse_data_fields_witness:
  "(\<exists>req' b. request_parse_data (request_init\<lparr>
        rq_data := Some \<lparr>bsize = 16, cells = map Some (''From: a'' @ CRLF @ CRLF @ ''hello'')\<rparr>,
        rq_data_alloc := 16, rq_data_len := 16\<rparr>) = Inr req' \<and> rq_header_count req' = Some 1
      \<and> hdr_is (rq_headers req' ! 0) (''From'', CHR '' '', ''a'', [])
      \<and> rq_body_len req' = length ''hello'' \<and> rq_body req' = Some b \<and> blk_holds b (''hello'' @ [NUL]))
    \<and> field_value (''From'', CHR '' '', ''a'', []) = ''a''"
proof -
  let ?req = "request_init\<lparr>
        rq_data := Some \<lparr>bsize = 16, cells = map Some (''From: a'' @ CRLF @ CRLF @ ''hello'')\<rparr>,
        rq_data_alloc := 16, rq_data_len := 16\<rparr>"
  let ?fs = "[(''From'', CHR '' '', ''a'', [])]"
  have "hdrs_sized (rq_headers ?req)"
    by (simp add: hdrs_sized_def request_init_def hdr_sized_def new_hdr_def list_all_length max_len_defs)
  moreover have "data_holds ?req (render_fields ?fs @ CRLF @ ''hello'')"
    by (simp add: data_holds_def blk_exact_def)
  moreover have "list_all field_ok ?fs" "\<not> blank_char (hd ''hello'')" by (simp_all add: blank_char_def)
  moreover have "length ?fs \<le> HEADER_MAX_LEN" "?fs ! 0 = (''From'', CHR '' '', ''a'', [])"
    by (simp_all add: max_len_defs)
  moreover have "length ?fs = 1" "(0::nat) < 1" by simp_all
  ultimately have "\<exists>req' b. request_parse_data ?req = Inr req' \<and> rq_header_count req' = Some (length ?fs)
      \<and> (\<forall>i<length ?fs. hdr_is (rq_headers req' ! i) (?fs ! i))
      \<and> rq_body_len req' = length ''hello'' \<and> rq_body req' = Some b \<and> blk_holds b (''hello'' @ [NUL])"
    using parse_data_fields [of ?req ?fs "''hello''"] by (simp del: render_field.simps field_ok.simps)
  moreover have "field_value (''From'', CHR '' '', ''a'', []) = ''a''" by (simp add: max_len_defs)
  ultimately show ?thesis by fastforce
qed

end
