(* ===== verification/Persisted_Queue.thy ===== *)
theory Persisted_Queue
  imports Base_Types
begin

text \<open>
  \<^verbatim>\<open>src/lib-pq/persisted_queue.c\<close> and \<^verbatim>\<open>src/lib-pq/base.c\<close>: the queue of messages in a
  memory-mapped file, shared by a server worker (which enqueues) and its mail handler
  (which dequeues) and guarded by a System V semaphore.

  \<^item> \<open>'m pq_shared\<close> is the file as both processes see it: the struct \<open>pq_ref_shared\<close> at its
    start and the slots behind it. \<open>hdr_dirty\<close> and \<open>slot_dirty\<close> record what has been
    changed since it was last flushed by a successful \<open>msync\<close>.
  \<^item> \<open>pq_ref\<close> is one process's reference: how many bytes it mapped.
  \<^item> The semaphore has a value and, for the process at hand, what the kernel adds to it when the process
    exits (\<open>SEM_UNDO\<close>). A wait on the value 0 blocks, which is \<open>None\<close>; \<open>semop\<close> can also fail, which the
    code does not look at. \<open>pq_enqueue_sem\<close> and \<open>pq_dequeue_sem\<close> are the calls for any answers of
    \<open>semop\<close>, \<open>pq_enqueue\<close> and \<open>pq_dequeue\<close> what they do to the value where \<open>semop\<close> does not fail; the
    other components use these.
  \<^item> What the system calls answer is the record \<open>pq_os\<close>.

  \<open>pq_inv\<close> is the invariant of the ring, \<open>pq_list\<close> the queued messages in order, and
  \<open>all_mapped\<close> says that a reference reaches every slot. The contract of the component is
  the locale \<open>bounded_fifo\<close>, interpreted at the end on the code's operations.
\<close>

section \<open>Constants, the shared file, references\<close>

definition PQ_MEM_MAP_OPEN_FILE_ERROR :: int where "PQ_MEM_MAP_OPEN_FILE_ERROR = -1000"
definition PQ_MEM_MAP_LSEEK_STRECH_ERROR :: int where "PQ_MEM_MAP_LSEEK_STRECH_ERROR = -1001"
definition PQ_MEM_MAP_EOF_WRITE_BYTE_ERROR :: int where "PQ_MEM_MAP_EOF_WRITE_BYTE_ERROR = -1002"
definition PQ_MEM_MAP_MAPPING_ERROR :: int where "PQ_MEM_MAP_MAPPING_ERROR = -1003"
definition PQ_MEM_MAP_UNMAPPING_ERROR :: int where "PQ_MEM_MAP_UNMAPPING_ERROR = -1004"
definition PQ_MEM_MAP_INACCURATE_MESSAGE_SIZE :: int where "PQ_MEM_MAP_INACCURATE_MESSAGE_SIZE = -1005"
definition PQ_MESSAGE_SIZE_REACHED_ERROR :: int where "PQ_MESSAGE_SIZE_REACHED_ERROR = -2000"
definition PQ_MESSAGE_QUEUE_EMPTY_ERROR :: int where "PQ_MESSAGE_QUEUE_EMPTY_ERROR = -2001"
definition PQ_REFERENCE_NOT_SET_ERROR :: int where "PQ_REFERENCE_NOT_SET_ERROR = -3000"
definition PQ_SEMAPHORE_ERROR :: int where "PQ_SEMAPHORE_ERROR = -4000"

lemmas pq_errors =
  PQ_MEM_MAP_OPEN_FILE_ERROR_def PQ_MEM_MAP_LSEEK_STRECH_ERROR_def
  PQ_MEM_MAP_EOF_WRITE_BYTE_ERROR_def PQ_MEM_MAP_MAPPING_ERROR_def
  PQ_MEM_MAP_UNMAPPING_ERROR_def PQ_MEM_MAP_INACCURATE_MESSAGE_SIZE_def
  PQ_MESSAGE_SIZE_REACHED_ERROR_def PQ_MESSAGE_QUEUE_EMPTY_ERROR_def
  PQ_REFERENCE_NOT_SET_ERROR_def PQ_SEMAPHORE_ERROR_def

record 'm pq_shared =
  write_offset :: int
  read_offset :: int
  message_count :: int
  message_max_count :: int
  memory_size :: int
  slots :: "'m list"
  hdr_dirty :: bool
  slot_dirty :: "bool list"

record pq_ref =
  map_len :: int

text \<open>
  \<open>sizeof(pq_ref_shared)\<close>: four \<open>int\<close>s and a \<open>long\<close>. \<open>sizeof(mail)\<close> as an \<open>int\<close>.
\<close>

definition sizeof_shared :: int where "sizeof_shared = 24"
definition sz_mail :: int where "sz_mail = int sizeof_mail"

lemma sz_mail_value: "sz_mail = 31044"
  by (simp add: sz_mail_def sizeof_mail_value)

lemmas sz_values = sz_mail_value sizeof_shared_def

section \<open>Helpers of \<open>lib-pq/base.c\<close>\<close>

definition math_min :: "int \<Rightarrow> int \<Rightarrow> int" where
  "math_min a b = (if a < b then a else b)"

definition math_max :: "int \<Rightarrow> int \<Rightarrow> int" where
  "math_max a b = (if a > b then a else b)"

text \<open>
  \<open>string_malloc\<close> for a non-negative \<open>max_size\<close>: the bytes copied and the terminator.
\<close>

definition string_malloc :: "string \<Rightarrow> int \<Rightarrow> block res" where
  "string_malloc source max_size =
     (let n = nat (math_min max_size (int (length source))) in
      rbind (blk_copy (malloc (n + 1)) 0 (map Some (take n source))) (\<lambda>d.
      blk_set d n NUL))"

text \<open>What a path names: nothing, a directory, or a file with its length and content.\<close>

record 'm pq_file =
  file_len :: int
  file_data :: "'m pq_shared"

datatype 'm path = Missing | Directory | File "'m pq_file"

definition file_size :: "'m path \<Rightarrow> int" where
  "file_size p = (case p of Missing \<Rightarrow> -1 | Directory \<Rightarrow> -1 | File f \<Rightarrow> i32 (file_len f))"

definition file_exist :: "'m path \<Rightarrow> int" where
  "file_exist p = (case p of Missing \<Rightarrow> -1 | Directory \<Rightarrow> -1 | File f \<Rightarrow> 0)"

section \<open>The semaphore\<close>

definition semaphore_init :: "nat \<Rightarrow> nat" where
  "semaphore_init v = 1"

text \<open>
  \<open>sem_undo\<close> is what \<open>SEM_UNDO\<close> has collected for this process. \<open>ok\<close> is whether \<open>semop\<close>
  succeeds (it fails when a signal interrupts it, or the semaphore is removed); the result is its
  answer. \<open>semaphore_exit\<close> is the value after the process has exited.
\<close>

record semaphore =
  sem_val :: nat
  sem_undo :: int

definition semop :: "bool \<Rightarrow> int \<Rightarrow> semaphore \<Rightarrow> (semaphore \<times> int) option" where
  "semop ok change sem =
     (if \<not> ok then Some (sem, -1)
      else if int (sem_val sem) + change < 0 then None
      else Some (\<lparr>sem_val = nat (int (sem_val sem) + change), sem_undo = sem_undo sem - change\<rparr>, 0))"

definition semaphore_wait :: "bool \<Rightarrow> semaphore \<Rightarrow> (semaphore \<times> int) option" where
  "semaphore_wait ok sem = semop ok (-1) sem"

definition semaphore_post :: "bool \<Rightarrow> semaphore \<Rightarrow> (semaphore \<times> int) option" where
  "semaphore_post ok sem = semop ok 1 sem"

definition semaphore_exit :: "semaphore \<Rightarrow> nat" where
  "semaphore_exit sem = nat (int (sem_val sem) + sem_undo sem)"

text \<open>The value alone, where \<open>semop\<close> does not fail.\<close>

definition sem_wait :: "nat \<Rightarrow> nat option" where
  "sem_wait v = (if v > 0 then Some (v - 1) else None)"

definition sem_post :: "nat \<Rightarrow> nat" where
  "sem_post v = v + 1"

lemma semaphore_wait_value:
  "semaphore_wait True sem = map_option (\<lambda>v. (\<lparr>sem_val = v, sem_undo = sem_undo sem + 1\<rparr>, 0)) (sem_wait (sem_val sem))"
  by (simp add: semaphore_wait_def semop_def sem_wait_def nat_diff_distrib)

lemma semaphore_post_value:
  "semaphore_post True sem = Some (\<lparr>sem_val = sem_post (sem_val sem), sem_undo = sem_undo sem - 1\<rparr>, 0)"
  by (simp add: semaphore_post_def semop_def sem_post_def nat_add_distrib)

lemma semaphore_wait_failed: "semaphore_wait False sem = Some (sem, -1)"
  by (simp add: semaphore_wait_def semop_def)

lemma semaphore_post_some: "\<exists>sem' r. semaphore_post ok sem = Some (sem', r)"
  by (simp add: semaphore_post_def semop_def)

section \<open>Pages and \<open>msync\<close>\<close>

text \<open>
  The mapping starts on a page. A mapping of \<open>n\<close> bytes makes its whole last page
  accessible. \<open>msync\<close> at an address that is not a multiple of the page size fails with
  \<open>EINVAL\<close> and flushes nothing; otherwise it flushes every page of the range.
\<close>

definition page_size :: int where "page_size = 4096"

definition page_up :: "int \<Rightarrow> int" where
  "page_up n = (n + page_size - 1) div page_size * page_size"

definition slot_addr :: "int \<Rightarrow> int" where
  "slot_addr k = sizeof_shared + k * sz_mail"

definition covers :: "int \<Rightarrow> int \<Rightarrow> int \<Rightarrow> int \<Rightarrow> bool" where
  "covers off len a b \<longleftrightarrow> off \<le> a \<and> b \<le> page_up (off + len)"

definition msync :: "int \<Rightarrow> int \<Rightarrow> 'm pq_shared \<Rightarrow> 'm pq_shared" where
  "msync off len s =
     (if off mod page_size \<noteq> 0 then s
      else s\<lparr>hdr_dirty := hdr_dirty s \<and> \<not> covers off len 0 sizeof_shared,
             slot_dirty := map (\<lambda>k. slot_dirty s ! k
                 \<and> \<not> covers off len (slot_addr (int k)) (slot_addr (int k + 1)))
               [0..<length (slot_dirty s)]\<rparr>)"

text \<open>
  \<open>write_offset\<close>, \<open>read_offset\<close> and \<open>message_count\<close> are 0, 4 and 8 bytes into the file.
\<close>

definition pq_header_sync :: "bool \<Rightarrow> 'm pq_shared \<Rightarrow> 'm pq_shared" where
  "pq_header_sync write s = (let s = msync (if write then 0 else 4) 4 s in msync 8 4 s)"

section \<open>Enqueue and dequeue\<close>

text \<open>The bytes of slot \<open>k\<close> are in the file and in the mapping.\<close>

definition slot_mapped :: "pq_ref \<Rightarrow> 'm pq_shared \<Rightarrow> int \<Rightarrow> bool" where
  "slot_mapped ref s k \<longleftrightarrow>
     0 \<le> k \<and> k < int (length (slots s)) \<and> slot_addr (k + 1) \<le> page_up (map_len ref)"

text \<open>\<open>x = ++x % n\<close> of the code; C's remainder takes the sign of the dividend.\<close>

definition next_offset :: "int \<Rightarrow> int \<Rightarrow> int res" where
  "next_offset x n = (if n = 0 then Inl Div_By_Zero else Inr ((x + 1) smod n))"

text \<open>What a call does to the file between the tests and the release of the semaphore.\<close>

definition pq_put :: "pq_ref \<Rightarrow> 'm \<Rightarrow> 'm pq_shared \<Rightarrow> 'm pq_shared res" where
  "pq_put ref source s =
     (let k = write_offset s in
      if \<not> slot_mapped ref s k then Inl Out_Of_Bounds
      else
        let s = s\<lparr>slots := (slots s)[nat k := source],
                  slot_dirty := (slot_dirty s)[nat k := True]\<rparr> in
        rbind (next_offset k (message_max_count s)) (\<lambda>w.
        let s = s\<lparr>write_offset := w, message_count := message_count s + 1,
                  hdr_dirty := True\<rparr>;
            s = pq_header_sync True s;
            s = msync (slot_addr k) sz_mail s
        in Inr s))"

definition pq_take :: "pq_ref \<Rightarrow> 'm pq_shared \<Rightarrow> ('m pq_shared \<times> 'm) res" where
  "pq_take ref s =
     (let k = read_offset s in
      if \<not> slot_mapped ref s k then Inl Out_Of_Bounds
      else
        let m = slots s ! nat k in
        rbind (next_offset k (message_max_count s)) (\<lambda>r.
        let s = s\<lparr>read_offset := r, message_count := message_count s - 1,
                  hdr_dirty := True\<rparr>;
            s = pq_header_sync False s
        in Inr (s, m)))"

text \<open>
  The calls, on the semaphore and the file: \<open>reference->semid\<close> is read for the wait before the
  test of \<open>reference\<close> against NULL. The answers of \<open>semop\<close> are not looked at. The result is
  \<open>None\<close> where the wait blocks.
\<close>

record semop_answers =
  wait_ok :: bool
  post_ok :: bool

definition pq_enqueue_sem ::
  "semop_answers \<Rightarrow> pq_ref option \<Rightarrow> semaphore \<times> 'm pq_shared \<Rightarrow> 'm \<Rightarrow> ((semaphore \<times> 'm pq_shared) \<times> int) option res" where
  "pq_enqueue_sem ans reference st source =
     (case reference of
        None \<Rightarrow> Inl Null_Deref
      | Some ref \<Rightarrow>
          (case semaphore_wait (wait_ok ans) (fst st) of
             None \<Rightarrow> Inr None
           | Some (sem, _) \<Rightarrow>
               if message_count (snd st) \<ge> message_max_count (snd st)
               then Inr (map_option (\<lambda>(sem, _). ((sem, snd st), PQ_MESSAGE_SIZE_REACHED_ERROR))
                           (semaphore_post (post_ok ans) sem))
               else
                 rbind (pq_put ref source (snd st)) (\<lambda>s.
                   Inr (map_option (\<lambda>(sem, _). ((sem, s), 0)) (semaphore_post (post_ok ans) sem)))))"

definition pq_dequeue_sem ::
  "semop_answers \<Rightarrow> pq_ref option \<Rightarrow> semaphore \<times> 'm pq_shared
   \<Rightarrow> ((semaphore \<times> 'm pq_shared) \<times> int \<times> 'm option) option res" where
  "pq_dequeue_sem ans reference st =
     (case reference of
        None \<Rightarrow> Inl Null_Deref
      | Some ref \<Rightarrow>
          (case semaphore_wait (wait_ok ans) (fst st) of
             None \<Rightarrow> Inr None
           | Some (sem, _) \<Rightarrow>
               if message_count (snd st) \<le> 0
               then Inr (map_option (\<lambda>(sem, _). ((sem, snd st), PQ_MESSAGE_QUEUE_EMPTY_ERROR, None))
                           (semaphore_post (post_ok ans) sem))
               else
                 rbind (pq_take ref (snd st)) (\<lambda>(s, m).
                   Inr (map_option (\<lambda>(sem, _). ((sem, s), 0, Some m)) (semaphore_post (post_ok ans) sem)))))"

text \<open>The calls where \<open>semop\<close> does not fail, on the value of the semaphore.\<close>

type_synonym 'm pq_state = "nat \<times> 'm pq_shared"

definition semop_works :: semop_answers where
  "semop_works = \<lparr>wait_ok = True, post_ok = True\<rparr>"

definition pq_enqueue ::
  "pq_ref option \<Rightarrow> 'm pq_state \<Rightarrow> 'm \<Rightarrow> ('m pq_state \<times> int) option res" where
  "pq_enqueue reference st source =
     rbind (pq_enqueue_sem semop_works reference (\<lparr>sem_val = fst st, sem_undo = 0\<rparr>, snd st) source) (\<lambda>r.
       Inr (map_option (\<lambda>((sem, s), code). ((sem_val sem, s), code)) r))"

definition pq_dequeue ::
  "pq_ref option \<Rightarrow> 'm pq_state \<Rightarrow> ('m pq_state \<times> int \<times> 'm option) option res" where
  "pq_dequeue reference st =
     rbind (pq_dequeue_sem semop_works reference (\<lparr>sem_val = fst st, sem_undo = 0\<rparr>, snd st)) (\<lambda>r.
       Inr (map_option (\<lambda>((sem, s), code, m). ((sem_val sem, s), code, m)) r))"

text \<open>What the calls do between wait and post, with the code they return.\<close>

definition pq_enqueue_locked :: "pq_ref \<Rightarrow> 'm \<Rightarrow> 'm pq_shared \<Rightarrow> ('m pq_shared \<times> int) res" where
  "pq_enqueue_locked ref source s =
     (if message_count s \<ge> message_max_count s then Inr (s, PQ_MESSAGE_SIZE_REACHED_ERROR)
      else rbind (pq_put ref source s) (\<lambda>s. Inr (s, 0)))"

definition pq_dequeue_locked :: "pq_ref \<Rightarrow> 'm pq_shared \<Rightarrow> ('m pq_shared \<times> int \<times> 'm option) res" where
  "pq_dequeue_locked ref s =
     (if message_count s \<le> 0 then Inr (s, PQ_MESSAGE_QUEUE_EMPTY_ERROR, None)
      else rbind (pq_take ref s) (\<lambda>(s, m). Inr (s, 0, Some m)))"

lemmas pq_locked_defs = pq_enqueue_locked_def pq_put_def pq_dequeue_locked_def pq_take_def

lemma pq_enqueue_sem_locked:
  "semaphore_wait (wait_ok ans) sem = Some (sem1, r) \<Longrightarrow> semaphore_post (post_ok ans) sem1 = Some (sem2, r') \<Longrightarrow>
     pq_enqueue_sem ans (Some ref) (sem, s) m
       = rbind (pq_enqueue_locked ref m s) (\<lambda>(s, code). Inr (Some ((sem2, s), code)))"
  by (cases "pq_put ref m s") (auto simp: pq_enqueue_sem_def pq_enqueue_locked_def)

lemma pq_dequeue_sem_locked:
  "semaphore_wait (wait_ok ans) sem = Some (sem1, r) \<Longrightarrow> semaphore_post (post_ok ans) sem1 = Some (sem2, r') \<Longrightarrow>
     pq_dequeue_sem ans (Some ref) (sem, s)
       = rbind (pq_dequeue_locked ref s) (\<lambda>(s, code, m). Inr (Some ((sem2, s), code, m)))"
  by (cases "pq_take ref s") (auto simp: pq_dequeue_sem_def pq_dequeue_locked_def)

lemma pq_enqueue_eq:
  "pq_enqueue reference st source =
     (case reference of
        None \<Rightarrow> Inl Null_Deref
      | Some ref \<Rightarrow>
          (case sem_wait (fst st) of
             None \<Rightarrow> Inr None
           | Some sem \<Rightarrow>
               rbind (pq_enqueue_locked ref source (snd st)) (\<lambda>(s, code).
                 Inr (Some ((sem_post sem, s), code)))))"
proof (cases "reference = None \<or> sem_wait (fst st) = None")
  case True
  then show ?thesis
    by (auto simp: pq_enqueue_def pq_enqueue_sem_def semop_works_def semaphore_wait_value split: option.splits)
next
  case False
  then obtain ref v where rv: "reference = Some ref" "sem_wait (fst st) = Some v" by auto
  show ?thesis unfolding pq_enqueue_def rv
    by (subst pq_enqueue_sem_locked)
       (auto simp: semop_works_def semaphore_wait_value semaphore_post_value rv(2) rbind_assoc intro!: arg_cong2 [where f = rbind])
qed

lemma pq_dequeue_eq:
  "pq_dequeue reference st =
     (case reference of
        None \<Rightarrow> Inl Null_Deref
      | Some ref \<Rightarrow>
          (case sem_wait (fst st) of
             None \<Rightarrow> Inr None
           | Some sem \<Rightarrow>
               rbind (pq_dequeue_locked ref (snd st)) (\<lambda>(s, code, m).
                 Inr (Some ((sem_post sem, s), code, m)))))"
proof (cases "reference = None \<or> sem_wait (fst st) = None")
  case True
  then show ?thesis
    by (auto simp: pq_dequeue_def pq_dequeue_sem_def semop_works_def semaphore_wait_value split: option.splits)
next
  case False
  then obtain ref v where rv: "reference = Some ref" "sem_wait (fst st) = Some v" by auto
  show ?thesis unfolding pq_dequeue_def rv
    by (subst pq_dequeue_sem_locked)
       (auto simp: semop_works_def semaphore_wait_value semaphore_post_value rv(2) rbind_assoc intro!: arg_cong2 [where f = rbind])
qed

text \<open>\<open>pq_wait\<close> sleeps. \<open>pq_close\<close> unmaps; the answer of \<open>munmap\<close> is a parameter.\<close>

definition pq_wait :: "pq_ref option \<Rightarrow> int" where
  "pq_wait reference = 0"

definition pq_close :: "bool \<Rightarrow> pq_ref option \<Rightarrow> int" where
  "pq_close munmap_ok reference =
     (case reference of
        None \<Rightarrow> PQ_REFERENCE_NOT_SET_ERROR
      | Some ref \<Rightarrow> (if \<not> munmap_ok then PQ_MEM_MAP_UNMAPPING_ERROR else 0))"

section \<open>Opening and creating the file\<close>

record pq_os =
  os_open_ok :: bool
  os_lseek_ok :: bool
  os_write_ok :: bool
  os_mmap_ok :: bool
  os_semget_ok :: bool

text \<open>\<open>lseek\<close> to a negative offset and \<open>mmap\<close> of no bytes always fail.\<close>

definition pq_get_mapped_memory :: "pq_os \<Rightarrow> int \<Rightarrow> bool \<Rightarrow> int" where
  "pq_get_mapped_memory os bytes map_write =
     (if map_write \<and> (bytes - 1 < 0 \<or> \<not> os_lseek_ok os)
      then PQ_MEM_MAP_LSEEK_STRECH_ERROR
      else if map_write \<and> \<not> os_write_ok os
      then PQ_MEM_MAP_EOF_WRITE_BYTE_ERROR
      else if bytes \<le> 0 \<or> \<not> os_mmap_ok os
      then PQ_MEM_MAP_MAPPING_ERROR
      else 0)"

definition pq_open :: "pq_os \<Rightarrow> 'm path \<Rightarrow> int \<Rightarrow> pq_ref option \<times> int" where
  "pq_open os filepath n =
     (let temp_file_size = file_size filepath;
          queue_bytes = u64 (sz_mail * u64 n) in
      if temp_file_size \<noteq> -1 \<and> u64 temp_file_size \<noteq> u64 (sizeof_shared + queue_bytes)
      then (None, PQ_MEM_MAP_INACCURATE_MESSAGE_SIZE)
      else if \<not> os_open_ok os then (None, PQ_MEM_MAP_OPEN_FILE_ERROR)
      else
        let map_result = pq_get_mapped_memory os (i64 queue_bytes) False in
        if map_result < -1 then (None, map_result)
        else (Some \<lparr>map_len = i64 queue_bytes\<rparr>, 0))"

text \<open>A file of zero bytes of the given length; \<open>zero\<close> is the message of zero bytes.\<close>

definition zero_file :: "'m \<Rightarrow> int \<Rightarrow> 'm pq_shared" where
  "zero_file zero len =
     \<lparr>write_offset = 0, read_offset = 0, message_count = 0, message_max_count = 0,
      memory_size = 0, slots = replicate (nat ((len - sizeof_shared) div sz_mail)) zero,
      hdr_dirty = True,
      slot_dirty = replicate (nat ((len - sizeof_shared) div sz_mail)) True\<rparr>"

definition init_semaphore :: "pq_os \<Rightarrow> nat \<Rightarrow> nat \<times> int" where
  "init_semaphore os sem =
     (if \<not> os_semget_ok os then (sem, PQ_SEMAPHORE_ERROR) else (semaphore_init sem, 0))"

text \<open>
  The result: the reference, the path afterwards, the semaphore and the return code. The
  reference is set before the semaphore is, so it is set also where \<open>semget\<close> fails.
\<close>

definition pq_init ::
  "pq_os \<Rightarrow> 'm \<Rightarrow> 'm path \<Rightarrow> int \<Rightarrow> nat \<Rightarrow> pq_ref option \<times> 'm path \<times> nat \<times> int" where
  "pq_init os zero filepath n sem =
     (if file_exist filepath = -1 then
        let bytes = i32 (u64 (u64 n * sz_mail));
            len = i64 (u64 (sizeof_shared + u64 bytes)) in
        if \<not> os_open_ok os \<or> filepath = Directory
        then (None, filepath, sem, PQ_MEM_MAP_OPEN_FILE_ERROR)
        else
          let map_result = pq_get_mapped_memory os len True in
          if map_result < 0
          then
            let stretched = (if map_result = PQ_MEM_MAP_MAPPING_ERROR then len else 0) in
            (None, File \<lparr>file_len = stretched, file_data = zero_file zero stretched\<rparr>, sem, map_result)
          else
            let s = (zero_file zero len)
                      \<lparr>memory_size := bytes, message_max_count := n\<rparr>;
                s = msync 0 sizeof_shared s;
                (sem, ret) = init_semaphore os sem
            in (Some \<lparr>map_len = len\<rparr>, File \<lparr>file_len = len, file_data = s\<rparr>, sem, ret)
      else
        (case pq_open os filepath n of (reference, ret) \<Rightarrow>
           if ret = 0
           then let (sem, ret') = init_semaphore os sem in
                (reference, filepath, sem, if ret' = PQ_SEMAPHORE_ERROR then ret' else ret)
           else (reference, filepath, sem, ret)))"

section \<open>The ring as a list\<close>

definition pq_inv :: "'m pq_shared \<Rightarrow> bool" where
  "pq_inv s \<longleftrightarrow>
     0 < message_max_count s
     \<and> length (slots s) = nat (message_max_count s)
     \<and> length (slot_dirty s) = nat (message_max_count s)
     \<and> 0 \<le> read_offset s \<and> read_offset s < message_max_count s
     \<and> 0 \<le> message_count s \<and> message_count s \<le> message_max_count s
     \<and> write_offset s = (read_offset s + message_count s) mod message_max_count s"

definition slot_index :: "'m pq_shared \<Rightarrow> int \<Rightarrow> int" where
  "slot_index s i = (read_offset s + i) mod message_max_count s"

definition pq_list :: "'m pq_shared \<Rightarrow> 'm list" where
  "pq_list s = map (\<lambda>i. slots s ! nat (slot_index s (int i))) [0..<nat (message_count s)]"

definition all_mapped :: "pq_ref \<Rightarrow> 'm pq_shared \<Rightarrow> bool" where
  "all_mapped ref s \<longleftrightarrow> slot_addr (message_max_count s) \<le> page_up (map_len ref)"

lemma next_offset_mod: "0 \<le> x \<Longrightarrow> 0 < n \<Longrightarrow> next_offset x n = Inr ((x + 1) mod n)"
  by (simp add: next_offset_def signed_modulo_int_def)

lemma slot_addr_mono: "k \<le> l \<Longrightarrow> slot_addr k \<le> slot_addr l"
  by (simp add: slot_addr_def sz_values)

lemma slot_mappedI:
  "all_mapped ref s \<Longrightarrow> pq_inv s \<Longrightarrow> 0 \<le> k \<Longrightarrow> k < message_max_count s \<Longrightarrow> slot_mapped ref s k"
  using slot_addr_mono [of "k + 1" "message_max_count s"]
  by (simp add: slot_mapped_def all_mapped_def pq_inv_def)

lemma slot_index_range:
  "pq_inv s \<Longrightarrow> 0 \<le> slot_index s i \<and> slot_index s i < message_max_count s"
  by (simp add: slot_index_def pq_inv_def)

lemma slot_index_inj:
  assumes "pq_inv s" "0 \<le> i" "i < message_max_count s" "0 \<le> j" "j < message_max_count s"
    "slot_index s i = slot_index s j"
  shows "i = j"
proof -
  have "message_max_count s dvd (read_offset s + i) - (read_offset s + j)"
    using assms(6) by (simp add: slot_index_def mod_eq_dvd_iff)
  then have "message_max_count s dvd i - j" by simp
  moreover have "\<bar>i - j\<bar> < message_max_count s" using assms(2-5) by auto
  ultimately show ?thesis using zdvd_imp_le [of "message_max_count s" "\<bar>i - j\<bar>"]
    by (cases "i = j") auto
qed

lemma pq_list_length: "pq_inv s \<Longrightarrow> length (pq_list s) = nat (message_count s)"
  by (simp add: pq_list_def)

text \<open>\<open>msync\<close> changes the two records of what is flushed only.\<close>

lemma msync_frame [simp]:
  "write_offset (msync a n s) = write_offset s" "read_offset (msync a n s) = read_offset s"
  "message_count (msync a n s) = message_count s"
  "message_max_count (msync a n s) = message_max_count s"
  "memory_size (msync a n s) = memory_size s" "slots (msync a n s) = slots s"
  "length (slot_dirty (msync a n s)) = length (slot_dirty s)"
  by (simp_all add: msync_def)

lemma pq_header_sync_frame [simp]:
  "write_offset (pq_header_sync w s) = write_offset s"
  "read_offset (pq_header_sync w s) = read_offset s"
  "message_count (pq_header_sync w s) = message_count s"
  "message_max_count (pq_header_sync w s) = message_max_count s"
  "memory_size (pq_header_sync w s) = memory_size s" "slots (pq_header_sync w s) = slots s"
  "length (slot_dirty (pq_header_sync w s)) = length (slot_dirty s)"
  by (simp_all add: pq_header_sync_def Let_def)

lemma pq_enqueue_full:
  "message_count s \<ge> message_max_count s \<Longrightarrow>
     pq_enqueue_locked ref m s = Inr (s, PQ_MESSAGE_SIZE_REACHED_ERROR)"
  by (simp add: pq_enqueue_locked_def pq_put_def)

lemma pq_enqueue_room:
  assumes inv: "pq_inv s" and map: "all_mapped ref s" and room: "message_count s < message_max_count s"
  shows "\<exists>s'. pq_enqueue_locked ref m s = Inr (s', 0)
           \<and> write_offset s' = (write_offset s + 1) mod message_max_count s
           \<and> read_offset s' = read_offset s \<and> message_count s' = message_count s + 1
           \<and> message_max_count s' = message_max_count s
           \<and> slots s' = (slots s)[nat (write_offset s) := m]
           \<and> length (slot_dirty s') = length (slot_dirty s)"
proof -
  have w: "0 \<le> write_offset s" "write_offset s < message_max_count s"
    using inv by (auto simp: pq_inv_def)
  have "slot_mapped ref s (write_offset s)" using slot_mappedI [OF map inv w] .
  moreover have "next_offset (write_offset s) (message_max_count s)
      = Inr ((write_offset s + 1) mod message_max_count s)"
    using w by (intro next_offset_mod) auto
  ultimately show ?thesis using room by (simp add: pq_enqueue_locked_def pq_put_def Let_def)
qed

lemma pq_enqueue_refines:
  assumes inv: "pq_inv s" and map: "all_mapped ref s" and room: "message_count s < message_max_count s"
  shows "\<exists>s'. pq_enqueue_locked ref m s = Inr (s', 0) \<and> pq_inv s' \<and> pq_list s' = pq_list s @ [m]
           \<and> message_max_count s' = message_max_count s"
proof -
  obtain s' where s': "pq_enqueue_locked ref m s = Inr (s', 0)"
    "write_offset s' = (write_offset s + 1) mod message_max_count s"
    "read_offset s' = read_offset s" "message_count s' = message_count s + 1"
    "message_max_count s' = message_max_count s"
    "slots s' = (slots s)[nat (write_offset s) := m]"
    "length (slot_dirty s') = length (slot_dirty s)"
    using pq_enqueue_room [OF assms] by blast
  have w: "write_offset s = slot_index s (message_count s)"
    using inv by (simp add: pq_inv_def slot_index_def)
  have "(write_offset s + 1) mod message_max_count s
      = (read_offset s + (message_count s + 1)) mod message_max_count s"
    using inv by (simp add: pq_inv_def mod_add_left_eq add.assoc)
  then have "pq_inv s'" using inv room s' by (auto simp: pq_inv_def)
  have idx: "slot_index s' i = slot_index s i" for i using s' by (simp add: slot_index_def)
  have same: "slots s' ! nat (slot_index s (int i)) = slots s ! nat (slot_index s (int i))"
    if "i < nat (message_count s)" for i
  proof -
    have "slot_index s (int i) \<noteq> write_offset s"
    proof
      have lt: "int i < message_count s" "0 \<le> message_count s"
        using that inv by (auto simp: pq_inv_def)
      assume "slot_index s (int i) = write_offset s"
      then have "int i = message_count s"
        using lt room by - (rule slot_index_inj [OF inv], simp_all add: w)
      then show False using lt by simp
    qed
    then have "nat (write_offset s) \<noteq> nat (slot_index s (int i))"
      using slot_index_range [OF inv, of "int i"] slot_index_range [OF inv, of "message_count s"]
      by (simp add: w eq_nat_nat_iff)
    then show ?thesis by (simp add: s'(6))
  qed
  have new: "slots s' ! nat (slot_index s (message_count s)) = m"
    using slot_index_range [OF inv, of "message_count s"] inv
    by (simp add: s'(6) w pq_inv_def)
  have "nat (message_count s') = Suc (nat (message_count s))"
    using s'(4) inv by (simp add: pq_inv_def Suc_nat_eq_nat_zadd1 add.commute)
  moreover have "int (nat (message_count s)) = message_count s" using inv by (simp add: pq_inv_def)
  ultimately have "pq_list s' = pq_list s @ [m]" using new same by (simp add: pq_list_def idx)
  then show ?thesis using s'(1,5) \<open>pq_inv s'\<close> by blast
qed

lemma pq_dequeue_empty:
  "message_count s \<le> 0 \<Longrightarrow>
     pq_dequeue_locked ref s = Inr (s, PQ_MESSAGE_QUEUE_EMPTY_ERROR, None)"
  by (simp add: pq_dequeue_locked_def pq_take_def)

lemma pq_dequeue_some:
  assumes inv: "pq_inv s" and map: "all_mapped ref s" and some: "0 < message_count s"
  shows "\<exists>s'. pq_dequeue_locked ref s = Inr (s', 0, Some (slots s ! nat (read_offset s)))
           \<and> write_offset s' = write_offset s
           \<and> read_offset s' = (read_offset s + 1) mod message_max_count s
           \<and> message_count s' = message_count s - 1
           \<and> message_max_count s' = message_max_count s \<and> slots s' = slots s
           \<and> length (slot_dirty s') = length (slot_dirty s)"
proof -
  have r: "0 \<le> read_offset s" "read_offset s < message_max_count s"
    using inv by (auto simp: pq_inv_def)
  have "slot_mapped ref s (read_offset s)" using slot_mappedI [OF map inv r] .
  moreover have "next_offset (read_offset s) (message_max_count s)
      = Inr ((read_offset s + 1) mod message_max_count s)"
    using r by (intro next_offset_mod) auto
  ultimately show ?thesis using some by (simp add: pq_dequeue_locked_def pq_take_def Let_def)
qed

lemma pq_dequeue_refines:
  assumes inv: "pq_inv s" and map: "all_mapped ref s" and ne: "pq_list s \<noteq> []"
  shows "\<exists>s'. pq_dequeue_locked ref s = Inr (s', 0, Some (hd (pq_list s))) \<and> pq_inv s'
           \<and> pq_list s' = tl (pq_list s) \<and> message_max_count s' = message_max_count s"
proof -
  have some: "0 < message_count s" using ne inv by (auto simp: pq_list_def pq_inv_def)
  obtain s' where s': "pq_dequeue_locked ref s = Inr (s', 0, Some (slots s ! nat (read_offset s)))"
    "write_offset s' = write_offset s" "read_offset s' = (read_offset s + 1) mod message_max_count s"
    "message_count s' = message_count s - 1" "message_max_count s' = message_max_count s"
    "slots s' = slots s" "length (slot_dirty s') = length (slot_dirty s)"
    using pq_dequeue_some [OF inv map some] by blast
  have shift: "slot_index s' i = slot_index s (i + 1)" for i
  proof -
    have "((read_offset s + 1) mod message_max_count s + i) mod message_max_count s
        = (read_offset s + 1 + i) mod message_max_count s" by (rule mod_add_left_eq)
    then show ?thesis by (simp add: slot_index_def s'(3,5) algebra_simps)
  qed
  have "(read_offset s' + message_count s') mod message_max_count s
      = (read_offset s + message_count s) mod message_max_count s"
    using s' by (simp add: mod_add_left_eq)
  then have "pq_inv s'" using inv some s' by (auto simp: pq_inv_def)
  obtain n where n: "nat (message_count s) = Suc n" using some by (metis gr0_conv_Suc zero_less_nat_eq)
  have n': "nat (message_count s') = n" using n s'(4) by simp
  have l: "pq_list s = slots s ! nat (slot_index s 0)
      # map (\<lambda>i. slots s ! nat (slot_index s (int i + 1))) [0..<n]"
    by (simp add: pq_list_def n upt_rec [of 0 "Suc n"] map_Suc_upt [symmetric] comp_def
        add.commute del: upt_Suc)
  have "slot_index s 0 = read_offset s" using inv by (simp add: slot_index_def pq_inv_def)
  moreover have "pq_list s' = map (\<lambda>i. slots s ! nat (slot_index s (int i + 1))) [0..<n]"
    by (simp add: pq_list_def n' shift s'(6))
  ultimately show ?thesis using l s'(1,5) \<open>pq_inv s'\<close> by simp
qed

section \<open>The calls as a bounded queue\<close>

definition pq_ready :: "pq_ref \<Rightarrow> 'm pq_state \<Rightarrow> bool" where
  "pq_ready ref st \<longleftrightarrow> 0 < fst st \<and> pq_inv (snd st) \<and> all_mapped ref (snd st)"

definition pq_items :: "'m pq_state \<Rightarrow> 'm list" where
  "pq_items st = pq_list (snd st)"

definition pq_cap :: "'m pq_state \<Rightarrow> nat" where
  "pq_cap st = nat (message_max_count (snd st))"

lemma sem_wait_post: "0 < v \<Longrightarrow> \<exists>w. sem_wait v = Some w \<and> sem_post w = v"
  by (simp add: sem_wait_def sem_post_def)

lemma pq_items_length: "pq_ready ref st \<Longrightarrow> length (pq_items st) = nat (message_count (snd st))"
  by (simp add: pq_ready_def pq_items_def pq_list_length)

lemma pq_ready_counts:
  "pq_ready ref st \<Longrightarrow> 0 \<le> message_count (snd st)
     \<and> message_count (snd st) \<le> message_max_count (snd st) \<and> 0 < message_max_count (snd st)"
  by (simp add: pq_ready_def pq_inv_def)

text \<open>Another mapping of the same file stays large enough: calls do not change the capacity.\<close>

lemma pq_ready_other:
  assumes "pq_ready ref q'" "pq_ready ref' q" "pq_cap q' = pq_cap q"
  shows "pq_ready ref' q'"
proof -
  have "message_max_count (snd q') = message_max_count (snd q)"
    using assms(3) pq_ready_counts [OF assms(1)] pq_ready_counts [OF assms(2)] by (simp add: pq_cap_def eq_nat_nat_iff)
  then show ?thesis using assms(1,2) by (simp add: pq_ready_def all_mapped_def)
qed

interpretation pq: bounded_fifo "pq_enqueue (Some ref)" "pq_dequeue (Some ref)" "pq_ready ref"
    pq_items pq_cap PQ_MESSAGE_SIZE_REACHED_ERROR PQ_MESSAGE_QUEUE_EMPTY_ERROR
  for ref
proof unfold_locales
  fix st :: "'m pq_state"
  assume r: "pq_ready ref st"
  obtain w where w: "sem_wait (fst st) = Some w" "sem_post w = fst st"
    using r sem_wait_post by (auto simp: pq_ready_def)
  note count = pq_ready_counts [OF r] pq_items_length [OF r]
  have inv: "pq_inv (snd st)" "all_mapped ref (snd st)" using r by (simp_all add: pq_ready_def)
  show "length (pq_items st) \<le> pq_cap st" using count by (simp add: pq_cap_def nat_mono)
  show "\<exists>st'. pq_enqueue (Some ref) st m = Inr (Some (st', 0)) \<and> pq_ready ref st'
      \<and> pq_items st' = pq_items st @ [m] \<and> pq_cap st' = pq_cap st"
    if "length (pq_items st) < pq_cap st" for m
  proof -
    have "message_count (snd st) < message_max_count (snd st)"
      using that count by (simp add: pq_cap_def)
    then show ?thesis using pq_enqueue_refines [OF inv, of m] w r
      by (auto simp: pq_enqueue_eq pq_ready_def pq_items_def pq_cap_def all_mapped_def)
  qed
  show "pq_enqueue (Some ref) st m = Inr (Some (st, PQ_MESSAGE_SIZE_REACHED_ERROR))"
    if "length (pq_items st) = pq_cap st" for m
  proof -
    have "message_count (snd st) = message_max_count (snd st)"
      using that count by (simp add: pq_cap_def eq_nat_nat_iff)
    then show ?thesis using w by (simp add: pq_enqueue_eq pq_enqueue_full)
  qed
  show "\<exists>st'. pq_dequeue (Some ref) st = Inr (Some (st', 0, Some (hd (pq_items st))))
      \<and> pq_ready ref st' \<and> pq_items st' = tl (pq_items st) \<and> pq_cap st' = pq_cap st"
    if "pq_items st \<noteq> []"
    using pq_dequeue_refines [OF inv] that w r
    by (auto simp: pq_dequeue_eq pq_ready_def pq_items_def pq_cap_def all_mapped_def)
  show "pq_dequeue (Some ref) st = Inr (Some (st, PQ_MESSAGE_QUEUE_EMPTY_ERROR, None))"
    if "pq_items st = []"
    using that count w by (simp add: pq_dequeue_eq pq_dequeue_empty)
qed

section \<open>What is flushed\<close>

lemma page_up_ge: "x \<le> page_up x"
proof -
  define d m where "d = (x + page_size - 1) div page_size" and "m = (x + page_size - 1) mod page_size"
  have "x + page_size - 1 = d * page_size + m" "m < page_size"
    by (simp_all add: d_def m_def page_size_def)
  then show ?thesis unfolding page_up_def d_def [symmetric] by linarith
qed

lemma page_up_split:
  assumes "0 \<le> r" "r < page_size"
  shows "page_up (q * page_size + r) = (if r = 0 then q else q + 1) * page_size"
proof -
  have "(q * page_size + r + page_size - 1) div page_size = (if r = 0 then q else q + 1)"
    using assms
    by (intro int_div_pos_eq [where r = "if r = 0 then page_size - 1 else r - 1"])
       (auto simp: page_size_def)
  then show ?thesis by (simp add: page_up_def)
qed

lemma page_up_first: "0 < n \<Longrightarrow> n < page_size \<Longrightarrow> page_up n = page_size"
  using page_up_split [of n 0] by simp

lemma covers_header: "0 < n \<Longrightarrow> n < page_size \<Longrightarrow> covers 0 n 0 sizeof_shared"
  by (simp add: covers_def page_up_first) (simp add: page_size_def sz_values)

lemma slot_not_in_first_page: "0 \<le> k \<Longrightarrow> \<not> covers 0 4 (slot_addr k) (slot_addr (k + 1))"
  by (simp add: covers_def page_up_first page_size_def slot_addr_def sz_values)

lemma covers_slot: "covers (slot_addr k) sz_mail (slot_addr k) (slot_addr (k + 1))"
  using page_up_ge [of "slot_addr k + sz_mail"] by (simp add: covers_def slot_addr_def algebra_simps)

lemma msync_unaligned: "off mod page_size \<noteq> 0 \<Longrightarrow> msync off n s = s"
  by (simp add: msync_def)

lemma msync_hdr: "hdr_dirty (msync off n s) \<Longrightarrow> hdr_dirty s"
  by (auto simp: msync_def split: if_splits)

lemma header_sync_write:
  "hdr_dirty (pq_header_sync True s) = False"
  "slot_dirty (pq_header_sync True s) = slot_dirty s"
proof -
  have "msync 8 4 t = t" for t :: "'m pq_shared"
    by (simp add: msync_unaligned page_size_def)
  then have sync: "pq_header_sync True s = msync 0 4 s"
    by (simp add: pq_header_sync_def Let_def)
  show "hdr_dirty (pq_header_sync True s) = False"
    by (simp add: sync msync_def covers_header page_size_def)
  show "slot_dirty (pq_header_sync True s) = slot_dirty s"
    by (rule nth_equalityI) (simp_all add: sync msync_def slot_not_in_first_page page_size_def)
qed

lemma header_sync_read: "pq_header_sync False s = s"
  by (simp add: pq_header_sync_def msync_unaligned page_size_def)

lemma msync_slot_dirty:
  assumes "nat k < length (slot_dirty s)" "0 \<le> k"
  shows "slot_dirty (msync (slot_addr k) sz_mail s) ! nat k
    \<longleftrightarrow> slot_dirty s ! nat k \<and> slot_addr k mod page_size \<noteq> 0"
  using assms covers_slot [of k] by (auto simp: msync_def)

lemma pq_enqueue_flushes:
  assumes inv: "pq_inv s" and ret: "pq_enqueue_locked ref m s = Inr (s', 0)"
  shows "\<not> hdr_dirty s'" "slot_dirty s' ! nat (write_offset s) \<longleftrightarrow> slot_addr (write_offset s) mod page_size \<noteq> 0"
proof -
  let ?k = "write_offset s"
  have k: "0 \<le> ?k" "nat ?k < length (slot_dirty s)"
    using inv by (auto simp: pq_inv_def)
  obtain t where t: "s' = msync (slot_addr ?k) sz_mail (pq_header_sync True t)"
      "slot_dirty t = (slot_dirty s)[nat ?k := True]"
    using ret by (auto simp: pq_enqueue_locked_def pq_put_def Let_def rbind_eq_Inr_iff pq_errors split: if_splits)
  show "\<not> hdr_dirty s'" using msync_hdr t(1) header_sync_write(1) by metis
  show "slot_dirty s' ! nat ?k \<longleftrightarrow> slot_addr ?k mod page_size \<noteq> 0"
    unfolding t(1) using k msync_slot_dirty [of ?k "pq_header_sync True t"]
    by (simp add: t(2) header_sync_write)
qed

lemma pq_dequeue_flushes:
  "pq_dequeue_locked ref s = Inr (s', 0, m) \<Longrightarrow> hdr_dirty s'"
  by (auto simp: pq_dequeue_locked_def pq_take_def Let_def rbind_eq_Inr_iff pq_errors header_sync_read
      split: if_splits)

section \<open>Creating and reopening\<close>

definition os_all_ok :: "pq_os \<Rightarrow> bool" where
  "os_all_ok os \<longleftrightarrow> os_open_ok os \<and> os_lseek_ok os \<and> os_write_ok os \<and> os_mmap_ok os \<and> os_semget_ok os"

text \<open>The largest queue whose file size fits in an \<open>int\<close>.\<close>

definition max_queue_size :: int where "max_queue_size = 69175"

definition fresh_shared :: "'m \<Rightarrow> int \<Rightarrow> 'm pq_shared" where
  "fresh_shared zero n =
     msync 0 sizeof_shared ((zero_file zero (slot_addr n))
        \<lparr>memory_size := n * sz_mail, message_max_count := n\<rparr>)"

lemma queue_bytes_id:
  "0 < n \<Longrightarrow> n \<le> max_queue_size \<Longrightarrow> u64 (u64 n * sz_mail) = n * sz_mail"
  "0 < n \<Longrightarrow> n \<le> max_queue_size \<Longrightarrow> u64 (sz_mail * u64 n) = n * sz_mail"
  by (simp_all add: u64_id max_queue_size_def sz_values mult.commute)

lemma pq_init_fresh:
  assumes n: "0 < n" "n \<le> max_queue_size" and os: "os_all_ok os"
  shows "pq_init os zero Missing n sem =
    (Some \<lparr>map_len = slot_addr n\<rparr>,
     File \<lparr>file_len = slot_addr n, file_data = fresh_shared zero n\<rparr>, 1, 0)"
proof -
  have "i32 (n * sz_mail) = n * sz_mail" using n by (simp add: i32_id max_queue_size_def sz_values)
  moreover have "i64 (u64 (sizeof_shared + u64 (n * sz_mail))) = slot_addr n"
    using n by (simp add: u64_id i64_id slot_addr_def max_queue_size_def sz_values)
  moreover have "pq_get_mapped_memory os (slot_addr n) True = 0"
    using os n by (simp add: pq_get_mapped_memory_def os_all_ok_def slot_addr_def sz_values)
  ultimately show ?thesis using os n
    by (simp add: pq_init_def file_exist_def queue_bytes_id os_all_ok_def init_semaphore_def
        semaphore_init_def fresh_shared_def Let_def)
qed

lemma fresh_shared_inv:
  assumes "0 < n"
  shows "pq_inv (fresh_shared zero n)" "pq_list (fresh_shared zero n) = []"
    "message_max_count (fresh_shared zero n) = n"
    "all_mapped \<lparr>map_len = slot_addr n\<rparr> (fresh_shared zero n)"
proof -
  show "pq_inv (fresh_shared zero n)" "pq_list (fresh_shared zero n) = []"
      "message_max_count (fresh_shared zero n) = n"
    using assms by (simp_all add: fresh_shared_def zero_file_def pq_inv_def pq_list_def slot_addr_def sz_values)
  show "all_mapped \<lparr>map_len = slot_addr n\<rparr> (fresh_shared zero n)"
    using page_up_ge by (simp add: all_mapped_def fresh_shared_def)
qed

text \<open>
  A second \<open>pq_init\<close> on the file, whatever the queue holds by then: the content is
  untouched, the semaphore is set to 1, and the new reference maps the slots' size only.
\<close>

lemma pq_init_reopen:
  assumes n: "0 < n" "n \<le> max_queue_size" and os: "os_all_ok os"
  shows "pq_init os zero (File \<lparr>file_len = slot_addr n, file_data = s\<rparr>) n sem =
    (Some \<lparr>map_len = n * sz_mail\<rparr>, File \<lparr>file_len = slot_addr n, file_data = s\<rparr>, 1, 0)"
proof -
  have "i32 (slot_addr n) = slot_addr n"
    using n by (simp add: i32_id slot_addr_def max_queue_size_def sz_values)
  moreover have "u64 (slot_addr n) = u64 (sizeof_shared + n * sz_mail)"
    by (simp add: slot_addr_def)
  moreover have "slot_addr n \<noteq> -1" using n by (simp add: slot_addr_def sz_values)
  moreover have "i64 (n * sz_mail) = n * sz_mail" using n by (simp add: i64_id max_queue_size_def sz_values)
  moreover have "pq_get_mapped_memory os (n * sz_mail) False = 0"
    using os n by (simp add: pq_get_mapped_memory_def os_all_ok_def sz_values)
  ultimately show ?thesis using os n
    by (simp add: pq_init_def pq_open_def file_exist_def file_size_def queue_bytes_id os_all_ok_def
        init_semaphore_def semaphore_init_def Let_def pq_errors)
qed

lemma reopened_mapping:
  assumes "0 < n" "message_max_count s = n"
  shows "all_mapped \<lparr>map_len = n * sz_mail\<rparr> s \<longleftrightarrow>
    (let r = n * sz_mail mod page_size in 0 < r \<and> r + sizeof_shared \<le> page_size)"
proof -
  define q r where "q = n * sz_mail div page_size" and "r = n * sz_mail mod page_size"
  have b: "n * sz_mail = q * page_size + r" "0 \<le> r" "r < page_size"
    by (simp_all add: q_def r_def page_size_def)
  have "page_up (n * sz_mail) = (if r = 0 then q else q + 1) * page_size"
    using page_up_split [OF b(2,3), of q] b(1) by simp
  moreover have "slot_addr n = q * page_size + (r + sizeof_shared)"
    by (simp add: slot_addr_def b(1))
  ultimately show ?thesis using assms b(2)
    by (auto simp: all_mapped_def r_def [symmetric] distrib_right sizeof_shared_def Let_def)
qed

section \<open>Properties\<close>

lemma null_check_is_dead:
  "pq_enqueue None st m = Inl Null_Deref" "pq_dequeue None st = Inl Null_Deref"
  by (simp_all add: pq_enqueue_eq pq_dequeue_eq)

text \<open>
  C7. Any sequence of \<open>pq_enqueue\<close> and \<open>pq_dequeue\<close> calls on a well-formed queue file whose
  slots are all mapped behaves as a first-in first-out list of at most
  \<open>message_max_count\<close> messages: no call faults or blocks, every return code and every
  dequeued message is that of the list, and the file is well formed afterwards.
\<close>

theorem pq_behaves_as_fifo:
  assumes "0 < sem" "pq_inv s" "all_mapped ref s"
  shows "\<exists>sem' s' rs. queue_run (pq_enqueue (Some ref)) (pq_dequeue (Some ref)) (sem, s) ops
      = Inr (Some ((sem', s'), rs))
    \<and> pq_inv s' \<and> message_max_count s' = message_max_count s
    \<and> fifo_run (nat (message_max_count s)) PQ_MESSAGE_SIZE_REACHED_ERROR
        PQ_MESSAGE_QUEUE_EMPTY_ERROR (pq_list s) ops = (pq_list s', rs)"
proof -
  have ready: "pq_ready ref (sem, s)" using assms by (simp add: pq_ready_def)
  obtain sem' s' rs where run: "queue_run (pq_enqueue (Some ref)) (pq_dequeue (Some ref)) (sem, s) ops
      = Inr (Some ((sem', s'), rs))" "pq_ready ref (sem', s')" "pq_cap (sem', s') = pq_cap (sem, s)"
    "fifo_run (pq_cap (sem, s)) PQ_MESSAGE_SIZE_REACHED_ERROR PQ_MESSAGE_QUEUE_EMPTY_ERROR
       (pq_items (sem, s)) ops = (pq_items (sem', s'), rs)"
    using pq.run_refines [OF ready, of ops] by (metis surj_pair)
  moreover have "message_max_count s' = message_max_count s"
    using run(3) pq_ready_counts [OF ready] pq_ready_counts [OF run(2)]
    by (auto simp: pq_cap_def)
  ultimately show ?thesis by (auto simp: pq_ready_def pq_cap_def pq_items_def)
qed

lemma pq_behaves_as_fifo_witness:
  "\<exists>sem' s' rs. queue_run (pq_enqueue (Some \<lparr>map_len = slot_addr 1\<rparr>))
      (pq_dequeue (Some \<lparr>map_len = slot_addr 1\<rparr>)) (1, fresh_shared (0::nat) 1)
      [Enq 7, Enq 8, Deq, Deq] = Inr (Some ((sem', s'), rs)) \<and> pq_list s' = []
    \<and> rs = [(0, None), (PQ_MESSAGE_SIZE_REACHED_ERROR, None), (0, Some 7),
            (PQ_MESSAGE_QUEUE_EMPTY_ERROR, None)]"
  using pq_behaves_as_fifo [of 1 "fresh_shared (0::nat) 1" "\<lparr>map_len = slot_addr 1\<rparr>"
      "[Enq 7, Enq 8, Deq, Deq]"]
  by (auto simp: fresh_shared_inv)

text \<open>A wait and a post, each of which works or fails.\<close>

lemma lock_moves:
  assumes "semaphore_wait w sem = Some (sem1, r)" "semaphore_post p sem1 = Some (sem2, r')"
  shows "int (sem_val sem2) = int (sem_val sem) - of_bool w + of_bool p"
    "sem_undo sem2 = sem_undo sem + of_bool w - of_bool p" "semaphore_exit sem2 = semaphore_exit sem"
  using assms
  by (auto simp: semaphore_wait_def semaphore_post_def semop_def semaphore_exit_def split: if_splits)

text \<open>
  C12. The semaphore over a call, whatever \<open>semop\<close> answers and on every path of the call that
  returns, a full or an empty queue included. Each call takes one from the value and gives one back, as far as \<open>semop\<close>
  works, and the kernel's undo count for the process moves against it: where both work nothing has
  changed, and what the process leaves behind when it exits is the same as before the call in any case.
  A call whose wait fails goes on all the same: it changes the file as one that holds the semaphore,
  also while its value is 0 because another process is inside, and raises the value by one.
\<close>

theorem pq_lock_released:
  "(\<forall>sem' s' c. pq_enqueue_sem ans (Some ref) (sem, s) m = Inr (Some ((sem', s'), c)) \<longrightarrow>
      int (sem_val sem') = int (sem_val sem) - of_bool (wait_ok ans) + of_bool (post_ok ans)
      \<and> sem_undo sem' = sem_undo sem + of_bool (wait_ok ans) - of_bool (post_ok ans)
      \<and> semaphore_exit sem' = semaphore_exit sem)
   \<and> (\<forall>sem' s' c m'. pq_dequeue_sem ans (Some ref) (sem, s) = Inr (Some ((sem', s'), c, m')) \<longrightarrow>
      int (sem_val sem') = int (sem_val sem) - of_bool (wait_ok ans) + of_bool (post_ok ans)
      \<and> sem_undo sem' = sem_undo sem + of_bool (wait_ok ans) - of_bool (post_ok ans)
      \<and> semaphore_exit sem' = semaphore_exit sem)
   \<and> (\<not> wait_ok ans \<and> post_ok ans \<longrightarrow>
      pq_enqueue_sem ans (Some ref) (sem, s) m
        = rbind (pq_enqueue_locked ref m s) (\<lambda>(s', c).
            Inr (Some ((\<lparr>sem_val = sem_val sem + 1, sem_undo = sem_undo sem - 1\<rparr>, s'), c)))
      \<and> pq_dequeue_sem ans (Some ref) (sem, s)
        = rbind (pq_dequeue_locked ref s) (\<lambda>(s', c, m').
            Inr (Some ((\<lparr>sem_val = sem_val sem + 1, sem_undo = sem_undo sem - 1\<rparr>, s'), c, m'))))"
proof (intro conjI allI impI)
  fix sem' s' c
  assume ret: "pq_enqueue_sem ans (Some ref) (sem, s) m = Inr (Some ((sem', s'), c))"
  obtain sem1 r where w: "semaphore_wait (wait_ok ans) sem = Some (sem1, r)"
    using ret by (auto simp: pq_enqueue_sem_def split: option.splits)
  have "semaphore_post (post_ok ans) sem1 = Some (sem', snd (the (semaphore_post (post_ok ans) sem1)))"
    using ret w by (auto simp: pq_enqueue_sem_def rbind_eq_Inr_iff split: if_splits)
  note lock = lock_moves [OF w this]
  show "int (sem_val sem') = int (sem_val sem) - of_bool (wait_ok ans) + of_bool (post_ok ans)"
    "sem_undo sem' = sem_undo sem + of_bool (wait_ok ans) - of_bool (post_ok ans)"
    "semaphore_exit sem' = semaphore_exit sem"
    by (fact lock)+
next
  fix sem' s' c m'
  assume ret: "pq_dequeue_sem ans (Some ref) (sem, s) = Inr (Some ((sem', s'), c, m'))"
  obtain sem1 r where w: "semaphore_wait (wait_ok ans) sem = Some (sem1, r)"
    using ret by (auto simp: pq_dequeue_sem_def split: option.splits)
  have "semaphore_post (post_ok ans) sem1 = Some (sem', snd (the (semaphore_post (post_ok ans) sem1)))"
    using ret w by (auto simp: pq_dequeue_sem_def rbind_eq_Inr_iff split: if_splits prod.splits)
  note lock = lock_moves [OF w this]
  show "int (sem_val sem') = int (sem_val sem) - of_bool (wait_ok ans) + of_bool (post_ok ans)"
    "sem_undo sem' = sem_undo sem + of_bool (wait_ok ans) - of_bool (post_ok ans)"
    "semaphore_exit sem' = semaphore_exit sem"
    by (fact lock)+
qed (simp_all add: pq_enqueue_sem_locked pq_dequeue_sem_locked semaphore_wait_failed semaphore_post_value sem_post_def)

theorem pq_lock_released_witness:
  "pq_enqueue_sem \<lparr>wait_ok = False, post_ok = True\<rparr> (Some \<lparr>map_len = 0\<rparr>) (\<lparr>sem_val = 0, sem_undo = 0\<rparr>, zero_file (0::nat) 24) 5
      = Inr (Some ((\<lparr>sem_val = 1, sem_undo = -1\<rparr>, zero_file 0 24), PQ_MESSAGE_SIZE_REACHED_ERROR))"
  using pq_lock_released [of "\<lparr>wait_ok = False, post_ok = True\<rparr>" "\<lparr>map_len = 0\<rparr>" "\<lparr>sem_val = 0, sem_undo = 0\<rparr>" "zero_file (0::nat) 24" 5]
  by (simp add: pq_enqueue_locked_def zero_file_def)

text \<open>
  C8. Persistence. Where the system calls succeed, \<open>pq_init\<close> creates an empty queue of any
  size from 1 to 69175; after any calls on it, a further \<open>pq_init\<close> on the same file, as
  after a restart, succeeds and finds exactly the messages that were still queued.
\<close>

theorem pq_survives_restart:
  assumes "0 < n" "n \<le> max_queue_size" "os_all_ok os" "os_all_ok os'"
  shows "\<exists>ref f. pq_init os zero Missing n sem = (Some ref, File f, 1, 0)
    \<and> (\<exists>sem' s rs. queue_run (pq_enqueue (Some ref)) (pq_dequeue (Some ref)) (1, file_data f) ops
          = Inr (Some ((sem', s), rs))
       \<and> fifo_run (nat n) PQ_MESSAGE_SIZE_REACHED_ERROR PQ_MESSAGE_QUEUE_EMPTY_ERROR [] ops
          = (pq_list s, rs)
       \<and> (\<exists>ref'. pq_init os' zero (File (f\<lparr>file_data := s\<rparr>)) n sem'
            = (Some ref', File (f\<lparr>file_data := s\<rparr>), 1, 0)))"
proof -
  let ?ref = "\<lparr>map_len = slot_addr n\<rparr>"
  let ?f = "\<lparr>file_len = slot_addr n, file_data = fresh_shared zero n\<rparr>"
  note fresh = fresh_shared_inv [OF assms(1), of zero]
  obtain sem' s rs where "queue_run (pq_enqueue (Some ?ref)) (pq_dequeue (Some ?ref))
      (1, fresh_shared zero n) ops = Inr (Some ((sem', s), rs))"
    "fifo_run (nat n) PQ_MESSAGE_SIZE_REACHED_ERROR PQ_MESSAGE_QUEUE_EMPTY_ERROR [] ops
      = (pq_list s, rs)"
    using pq.run_refines [of ?ref "(1, fresh_shared zero n)" ops] fresh
    by (auto simp: pq_ready_def pq_cap_def pq_items_def)
  then show ?thesis using pq_init_fresh [OF assms(1-3), of zero sem]
      pq_init_reopen [OF assms(1,2,4), of zero s sem'] by auto
qed

definition os_good :: pq_os where
  "os_good = \<lparr>os_open_ok = True, os_lseek_ok = True, os_write_ok = True, os_mmap_ok = True,
              os_semget_ok = True\<rparr>"

lemma os_good_ok: "os_all_ok os_good"
  by (simp add: os_all_ok_def os_good_def)

lemma pq_survives_restart_witness:
  "\<exists>ref f. pq_init os_good (0::nat) Missing 2 0 = (Some ref, File f, 1, 0)
    \<and> (\<exists>sem' s rs. queue_run (pq_enqueue (Some ref)) (pq_dequeue (Some ref)) (1, file_data f)
          [Enq 4, Enq 5, Deq] = Inr (Some ((sem', s), rs))
       \<and> pq_list s = [5]
       \<and> (\<exists>ref'. pq_init os_good 0 (File (f\<lparr>file_data := s\<rparr>)) 2 sem'
            = (Some ref', File (f\<lparr>file_data := s\<rparr>), 1, 0)))"
  using pq_survives_restart [of 2 os_good os_good "0::nat" 0 "[Enq 4, Enq 5, Deq]"]
  by (auto simp: os_good_ok max_queue_size_def)

text \<open>
  The reopened mapping is 24 bytes short. For a queue size whose slots end less than 24
  bytes before a page boundary or on one, the first \<open>pq_enqueue\<close> after a reopen that comes
  to the last slot writes outside the mapping, although the queue has room.
\<close>

theorem pq_reopen_short_mapping:
  assumes "0 < n" "n \<le> max_queue_size" "os_all_ok os"
    and "n * sz_mail mod page_size = 0 \<or> page_size < n * sz_mail mod page_size + sizeof_shared"
    and "pq_inv s" "message_max_count s = n" "message_count s < n" "write_offset s = n - 1"
  shows "\<exists>ref. pq_init os zero (File \<lparr>file_len = slot_addr n, file_data = s\<rparr>) n sem
      = (Some ref, File \<lparr>file_len = slot_addr n, file_data = s\<rparr>, 1, 0)
    \<and> pq_enqueue (Some ref) (1, s) m = Inl Out_Of_Bounds"
proof -
  have "\<not> all_mapped \<lparr>map_len = n * sz_mail\<rparr> s"
    using reopened_mapping [OF assms(1,6)] assms(4) by (auto simp: Let_def)
  then have "\<not> slot_mapped \<lparr>map_len = n * sz_mail\<rparr> s (n - 1)"
    by (simp add: slot_mapped_def all_mapped_def assms(6))
  then have "pq_enqueue (Some \<lparr>map_len = n * sz_mail\<rparr>) (1, s) m = Inl Out_Of_Bounds"
    using assms(6-8) by (simp add: pq_enqueue_eq sem_wait_def pq_enqueue_locked_def pq_put_def)
  then show ?thesis using pq_init_reopen [OF assms(1-3), of zero s sem] by auto
qed

definition last_slot_next :: "nat pq_shared" where
  "last_slot_next = (fresh_shared 0 335)\<lparr>read_offset := 334, write_offset := 334\<rparr>"

lemma last_slot_next_inv:
  "pq_inv last_slot_next" "message_max_count last_slot_next = 335"
  "message_count last_slot_next = 0" "write_offset last_slot_next = 334"
  using fresh_shared_inv(1) [of 335 "0::nat"] fresh_shared_inv(3) [of 335 "0::nat"]
  by (simp_all add: last_slot_next_def pq_inv_def fresh_shared_def zero_file_def)

lemma pq_reopen_short_mapping_witness:
  "\<exists>ref. pq_init os_good 0 (File \<lparr>file_len = slot_addr 335, file_data = last_slot_next\<rparr>) 335 0
      = (Some ref, File \<lparr>file_len = slot_addr 335, file_data = last_slot_next\<rparr>, 1, 0)
    \<and> pq_enqueue (Some ref) (1, last_slot_next) 9 = Inl Out_Of_Bounds"
  using pq_reopen_short_mapping [of 335 os_good last_slot_next 0 0 9]
  by (simp add: os_good_ok last_slot_next_inv max_queue_size_def sz_values page_size_def)

text \<open>
  What is on disk when a call returns: a successful \<open>pq_enqueue\<close> has flushed the header,
  but the message itself only where its slot starts on a page; a successful \<open>pq_dequeue\<close>
  leaves the changed header unflushed, since neither address it passes to \<open>msync\<close> is on a
  page boundary.
\<close>

theorem pq_flush_coverage:
  assumes "pq_inv s"
  shows "(\<forall>st c. pq_enqueue (Some ref) (sem, s) m = Inr (Some (st, c)) \<and> c = 0 \<longrightarrow>
      \<not> hdr_dirty (snd st)
      \<and> (slot_dirty (snd st) ! nat (write_offset s)
          \<longleftrightarrow> slot_addr (write_offset s) mod page_size \<noteq> 0))
    \<and> (\<forall>st c r. pq_dequeue (Some ref) (sem, s) = Inr (Some (st, c, r)) \<and> c = 0 \<longrightarrow>
      hdr_dirty (snd st))"
  using pq_enqueue_flushes [OF assms, of ref m] pq_dequeue_flushes [of ref s]
  by (auto simp: pq_enqueue_eq pq_dequeue_eq rbind_eq_Inr_iff split: option.splits)

lemma pq_flush_coverage_witness:
  "\<exists>st. pq_enqueue (Some \<lparr>map_len = slot_addr 1\<rparr>) (1, fresh_shared (0::nat) 1) 7
      = Inr (Some (st, 0)) \<and> \<not> hdr_dirty (snd st) \<and> slot_dirty (snd st) ! 0"
proof -
  note fresh = fresh_shared_inv [of 1 "0::nat"]
  have w: "write_offset (fresh_shared (0::nat) 1) = 0" "message_count (fresh_shared (0::nat) 1) = 0"
    by (simp_all add: fresh_shared_def zero_file_def)
  obtain s' where "pq_enqueue_locked \<lparr>map_len = slot_addr 1\<rparr> 7 (fresh_shared (0::nat) 1) = Inr (s', 0)"
    using pq_enqueue_refines [OF fresh(1) fresh(4)] fresh(3) w by auto
  then have "pq_enqueue (Some \<lparr>map_len = slot_addr 1\<rparr>) (1, fresh_shared (0::nat) 1) 7
      = Inr (Some ((1, s'), 0))"
    by (simp add: pq_enqueue_eq sem_wait_def sem_post_def)
  then show ?thesis
    using pq_flush_coverage [OF fresh(1), of "\<lparr>map_len = slot_addr 1\<rparr>" 1 7]
    by (simp add: w slot_addr_def page_size_def sz_values)
qed

end
