(* ===== verification/Connection.thy ===== *)
theory Connection
  imports Request_Headers Persisted_Queue
begin

text \<open>
  \<^verbatim>\<open>src/connection.c\<close>: the handling of one event of one client connection, from the bytes that
  are read over the SMTP dialogue, the parsed message and the queue to the bytes that are
  sent. The handler may also block (on the queue's semaphore) or loop for ever (sending with
  a write buffer of size 0), so that its steps are \<open>'a act\<close>: \<open>None\<close> where it does not return,
  else the \<open>'a res\<close> of the other components.

  What the socket calls answer is a parameter: \<open>rd\<close> is what \<open>read\<close> finds (\<open>None\<close>: -1), of
  which it takes as much as fits, and \<open>snd_ans k\<close> the answer of the \<open>k\<close>-th \<open>send\<close>. \<open>srv->config\<close>
  and \<open>srv->master->config\<close> are the same configuration \<open>cfg\<close> (\<open>config_copy_eq\<close>). What
  \<open>safe_warn\<close>, \<open>perror\<close> and \<open>printf\<close> write is not modelled.

  \<open>link_refines\<close> relates a connection between two events to a state of the dialogue machine
  of \<open>Request_Dialogue\<close>; the properties at the end say what one event does.
\<close>

section \<open>Steps that may not return\<close>

type_synonym 'a act = "'a res option"

definition abind :: "'a act \<Rightarrow> ('a \<Rightarrow> 'b act) \<Rightarrow> 'b act" where
  "abind m f =
     (case m of None \<Rightarrow> None | Some (Inl e) \<Rightarrow> Some (Inl e) | Some (Inr x) \<Rightarrow> f x)"

lemma abind_simps [simp]:
  "abind None f = None" "abind (Some (Inl e)) f = Some (Inl e)" "abind (Some (Inr x)) f = f x"
  by (simp_all add: abind_def)

lemma abind_eq_value_iff:
  "abind m f = Some (Inr y) \<longleftrightarrow> (\<exists>x. m = Some (Inr x) \<and> f x = Some (Inr y))"
  by (auto simp: abind_def split: option.splits sum.splits)

section \<open>The connection and its surroundings\<close>

text \<open>
  \<open>lk_sent\<close> lists the calls of \<open>send\<close>, each with its bytes and its answer; \<open>lk_closed\<close>
  counts the calls of \<open>close\<close> on the descriptor.
\<close>

record link =
  lk_conn :: connection
  lk_queue :: "mail pq_state"
  lk_sent :: "(char option list \<times> int) list"
  lk_closed :: nat

definition connection_start :: "connection \<Rightarrow> connection" where
  "connection_start conn = conn\<lparr>cn_status := CONN_STARTED, cn_buffer_len := 0,
     cn_read_buffer := None, cn_response := Some response_init, cn_request := Some request_init\<rparr>"

definition connection_reset :: "connection \<Rightarrow> connection" where
  "connection_reset conn = conn\<lparr>cn_buffer_len := 0, cn_status := CONN_INACTIVE,
     cn_read_buffer := None,
     cn_request := (case cn_request conn of None \<Rightarrow> None | Some req \<Rightarrow> request_free req),
     cn_response := (case cn_response conn of None \<Rightarrow> None | Some resp \<Rightarrow> response_free resp)\<rparr>"

definition connection_free :: "connection \<Rightarrow> connection option" where
  "connection_free conn = None"

section \<open>Welcome message\<close>

definition welcome_pieces :: "config \<Rightarrow> string list" where
  "welcome_pieces cfg = [''220 '', hostname cfg, '' SMTP '', server_name cfg, CRLF]"

definition start_stage :: "config \<Rightarrow> connection \<Rightarrow> connection res" where
  "start_stage cfg conn =
     (if cn_status conn = CONN_STARTED then
        (case cn_response conn of
           None \<Rightarrow> Inl Null_Deref
         | Some resp \<Rightarrow>
             rbind (app_list response_append resp (welcome_pieces cfg)) (\<lambda>resp.
               Inr (conn\<lparr>cn_response := Some resp, cn_status := CONN_WRITING\<rparr>)))
      else Inr conn)"

section \<open>Reading\<close>

definition read_socket :: "config \<Rightarrow> string option \<Rightarrow> connection \<Rightarrow> connection res" where
  "read_socket cfg rd conn =
     (let conn = (if cn_buffer_len conn = 0
                  then conn\<lparr>cn_read_buffer := Some (malloc (nat (read_buffer_size cfg + 1)))\<rparr>
                  else conn);
          room = read_buffer_size cfg - int (cn_buffer_len conn) in
      if room > 0 then
        (case rd of
           None \<Rightarrow> Inr (conn\<lparr>cn_status := CONN_ERROR\<rparr>)
         | Some s \<Rightarrow>
             (case cn_read_buffer conn of
                None \<Rightarrow> Inl Null_Deref
              | Some buf \<Rightarrow>
                  let got = take (nat room) s in
                  rbind (blk_copy buf (cn_buffer_len conn) (map Some got)) (\<lambda>buf.
                    Inr (conn\<lparr>cn_read_buffer := Some buf,
                              cn_buffer_len := cn_buffer_len conn + length got\<rparr>))))
      else Inr (conn\<lparr>cn_status := CONN_ERROR\<rparr>))"

section \<open>Queueing a message\<close>

definition new_mail :: mail where
  "new_mail = \<lparr>ml_headers = replicate HEADER_MAX_LEN new_hdr, ml_header_count = 0,
               ml_body = malloc BODY_MAX_LEN\<rparr>"

definition copy_body :: "request \<Rightarrow> mail \<Rightarrow> mail res" where
  "copy_body req m =
     (if rq_body_len req < BODY_MAX_LEN then
        (case rq_body req of
           None \<Rightarrow> Inl Null_Deref
         | Some body \<Rightarrow>
             rbind (blk_slice body 0 (rq_body_len req + 1)) (\<lambda>bytes.
             rbind (blk_copy (ml_body m) 0 bytes) (\<lambda>b. Inr (m\<lparr>ml_body := b\<rparr>))))
      else rbind (blk_set (ml_body m) 0 NUL) (\<lambda>b. Inr (m\<lparr>ml_body := b\<rparr>)))"

text \<open>
  The loop runs to \<open>header_count\<close> (its second test repeats the first); both arrays of
  headers have \<open>HEADER_MAX_LEN\<close> elements.
\<close>

fun copy_headers :: "request \<Rightarrow> nat \<Rightarrow> nat \<Rightarrow> mail \<Rightarrow> mail res" where
  "copy_headers req i 0 m = Inr m"
| "copy_headers req i (Suc n) m =
     (if i < length (rq_headers req) \<and> i < length (ml_headers m)
      then copy_headers req (Suc i) n (m\<lparr>ml_headers := (ml_headers m)[i := rq_headers req ! i]\<rparr>)
      else Inl Out_Of_Bounds)"

definition make_mail :: "request \<Rightarrow> nat \<Rightarrow> mail res" where
  "make_mail req cnt =
     rbind (copy_body req new_mail) (\<lambda>m. copy_headers req 0 cnt (m\<lparr>ml_header_count := cnt\<rparr>))"

text \<open>The answer of \<open>pq_enqueue\<close> decides only what is printed.\<close>

definition queue_mail :: "pq_ref option \<Rightarrow> mail \<Rightarrow> mail pq_state \<Rightarrow> mail pq_state act" where
  "queue_mail ref m q =
     (case pq_enqueue ref q m of
        Inl e \<Rightarrow> Some (Inl e) | Inr None \<Rightarrow> None | Inr (Some (q', code)) \<Rightarrow> Some (Inr q'))"

definition process_message ::
  "pq_ref option \<Rightarrow> connection \<Rightarrow> mail pq_state \<Rightarrow> (connection \<times> mail pq_state) act" where
  "process_message ref conn q =
     (case cn_request conn of
        None \<Rightarrow> Some (Inl Null_Deref)
      | Some req \<Rightarrow>
          if rq_process req then
            abind (Some (request_parse_data req)) (\<lambda>req.
            let conn = conn\<lparr>cn_request := Some req\<rparr> in
            case rq_header_count req of
              None \<Rightarrow> Some (Inl Uninit_Read)
            | Some cnt \<Rightarrow>
                if cnt > 0 then
                  abind (Some (make_mail req cnt)) (\<lambda>m.
                  abind (queue_mail ref m q) (\<lambda>q. Some (Inr (conn, q))))
                else Some (Inr (conn\<lparr>cn_status := CONN_ERROR\<rparr>, q)))
          else Some (Inr (conn, q)))"

definition read_stage :: "config \<Rightarrow> pq_ref option \<Rightarrow> string option \<Rightarrow> link \<Rightarrow> link act" where
  "read_stage cfg ref rd lk =
     (if cn_status (lk_conn lk) = CONN_READING then
        abind (Some (read_socket cfg rd (lk_conn lk))) (\<lambda>conn.
        if cn_buffer_len conn > 0 \<and> cn_status conn \<noteq> CONN_ERROR then
          abind (Some (request_parse_commands cfg conn)) (\<lambda>(conn, r).
          if r = 0 then
            abind (process_message ref conn (lk_queue lk)) (\<lambda>(conn, q).
              Some (Inr (lk\<lparr>lk_conn := conn\<lparr>cn_status := CONN_WRITING\<rparr>, lk_queue := q\<rparr>)))
          else Some (Inr (lk\<lparr>lk_conn := conn\<lparr>cn_status := CONN_ERROR\<rparr>\<rparr>)))
        else Some (Inr (lk\<lparr>lk_conn := conn\<rparr>)))
      else Some (Inr lk))"

section \<open>Writing\<close>

text \<open>
  The loop over chunks, from \<open>data_sent\<close>, for the \<open>k\<close>-th call of \<open>send\<close>. The result is the
  calls made and whether the last one did not fail. \<open>size\<close> is an \<open>int\<close>; a negative one
  makes \<open>send\<close> read an enormous range.
\<close>

partial_function (option) send_chunks ::
  "int \<Rightarrow> (nat \<Rightarrow> int) \<Rightarrow> block \<Rightarrow> nat \<Rightarrow> nat \<Rightarrow> nat \<Rightarrow> (char option list \<times> int) list \<Rightarrow>
   ((char option list \<times> int) list \<times> bool) act" where
  "send_chunks wsize snd_ans data data_len data_sent k sent =
     (if data_sent < data_len then
        let rest = int data_len - int data_sent;
            size = (if rest \<ge> wsize then wsize else rest) in
        if size < 0 then Some (Inl Out_Of_Bounds)
        else
          (case blk_slice data data_sent (nat size) of
             Inl e \<Rightarrow> Some (Inl e)
           | Inr bytes \<Rightarrow>
               if snd_ans k = -1 then Some (Inr (sent @ [(bytes, -1)], False))
               else send_chunks wsize snd_ans data data_len (data_sent + nat size) (Suc k)
                      (sent @ [(bytes, snd_ans k)]))
      else Some (Inr (sent, True)))"

definition send_response ::
  "config \<Rightarrow> (nat \<Rightarrow> int) \<Rightarrow> response \<Rightarrow> ((char option list \<times> int) list \<times> bool) act" where
  "send_response cfg snd_ans resp =
     (let n = rs_data_len resp in
      if int n \<le> write_buffer_size cfg then
        (case rs_data resp of
           None \<Rightarrow> (if n = 0 then Some (Inr ([([], snd_ans 0)], snd_ans 0 \<noteq> -1))
                    else Some (Inl Null_Deref))
         | Some b \<Rightarrow>
             abind (Some (blk_slice b 0 n)) (\<lambda>bytes.
               Some (Inr ([(bytes, snd_ans 0)], snd_ans 0 \<noteq> -1))))
      else
        (case rs_data resp of
           None \<Rightarrow> (if n = 0 then Some (Inr ([], True)) else Some (Inl Null_Deref))
         | Some b \<Rightarrow> send_chunks (write_buffer_size cfg) snd_ans b n 0 0 []))"

definition clear_request :: "request \<Rightarrow> request" where
  "clear_request req = (if \<not> rq_in_data req then request_init else req)"

definition write_stage :: "config \<Rightarrow> (nat \<Rightarrow> int) \<Rightarrow> link \<Rightarrow> link act" where
  "write_stage cfg snd_ans lk =
     (if cn_status (lk_conn lk) = CONN_WRITING then
        (case cn_response (lk_conn lk) of
           None \<Rightarrow> Some (Inl Null_Deref)
         | Some resp \<Rightarrow>
             abind (send_response cfg snd_ans resp) (\<lambda>(sent, ok).
             let lk = lk\<lparr>lk_sent := lk_sent lk @ sent\<rparr>; conn = lk_conn lk in
             if ok then
               (case cn_request conn of
                  None \<Rightarrow> Some (Inl Null_Deref)
                | Some req \<Rightarrow>
                    Some (Inr (lk\<lparr>lk_conn := conn\<lparr>
                      cn_status := (if rq_quit req then CONN_CLOSED else CONN_READING),
                      cn_request := Some (clear_request req),
                      cn_response := Some response_init,
                      cn_read_buffer := None, cn_buffer_len := 0\<rparr>\<rparr>)))
             else Some (Inr (lk\<lparr>lk_conn := conn\<lparr>cn_status := CONN_ERROR\<rparr>\<rparr>))))
      else Some (Inr lk))"

section \<open>Closing, and the whole handler\<close>

definition close_stage :: "link \<Rightarrow> link" where
  "close_stage lk =
     (let conn = lk_conn lk;
          conn = (if cn_status conn = CONN_ERROR then conn\<lparr>cn_status := CONN_CLOSED\<rparr> else conn);
          lk = (if cn_status conn = CONN_CLOSED
                then lk\<lparr>lk_conn := conn\<lparr>cn_status := CONN_INACTIVE\<rparr>, lk_closed := lk_closed lk + 1\<rparr>
                else lk\<lparr>lk_conn := conn\<rparr>)
      in if cn_status (lk_conn lk) = CONN_INACTIVE
         then lk\<lparr>lk_conn := connection_reset (lk_conn lk)\<rparr> else lk)"

definition connection_handle ::
  "config \<Rightarrow> pq_ref option \<Rightarrow> string option \<Rightarrow> (nat \<Rightarrow> int) \<Rightarrow> link \<Rightarrow> link act" where
  "connection_handle cfg ref rd snd_ans lk =
     abind (Some (start_stage cfg (lk_conn lk))) (\<lambda>conn.
     abind (read_stage cfg ref rd (lk\<lparr>lk_conn := conn\<rparr>)) (\<lambda>lk.
     abind (write_stage cfg snd_ans lk) (\<lambda>lk.
       Some (Inr (close_stage lk)))))"

section \<open>The peer's address\<close>

text \<open>
  \<open>getpeername\<close> and \<open>inet_ntop\<close> are parameters: the peer's address, an IPv4 one as the
  32-bit number the kernel gives, any other as its bytes.
\<close>

datatype 'a6 peer = IPv4 nat | Other 'a6

definition connection_get_ip ::
  "(nat \<Rightarrow> string) \<Rightarrow> ('a6 \<Rightarrow> string) \<Rightarrow> 'a6 peer option \<Rightarrow> string option" where
  "connection_get_ip ntop4 ntop6 peername =
     (case peername of
        None \<Rightarrow> None
      | Some (IPv4 a) \<Rightarrow> Some (ntop4 a)
      | Some (Other a) \<Rightarrow> Some (ntop6 a))"

definition connection_get_iplong :: "'a6 peer option \<Rightarrow> nat" where
  "connection_get_iplong peername =
     (case peername of None \<Rightarrow> 0 | Some (IPv4 a) \<Rightarrow> a | Some (Other a) \<Rightarrow> 0)"

section \<open>Sending\<close>

lemma send_chunks_returns:
  "0 < wsize \<Longrightarrow> blk_holds b (pre @ t) \<Longrightarrow>
   \<exists>calls ok. send_chunks wsize ans b (length (pre @ t)) (length pre) k sent
       = Some (Inr (sent @ calls, ok))
     \<and> (ok \<longrightarrow> concat (map fst calls) = map Some t)
     \<and> (ok \<longleftrightarrow> -1 \<notin> snd ` set calls)
     \<and> map snd calls = map ans [k..<k + length calls]
     \<and> (\<forall>c \<in> set calls. int (length (fst c)) \<le> wsize)"
proof (induction "length t" arbitrary: pre t k sent rule: less_induct)
  case less
  show ?case
  proof (cases "t = []")
    case True
    then show ?thesis by (subst send_chunks.simps) simp
  next
    case False
    let ?size = "nat (if int (length t) \<ge> wsize then wsize else int (length t))"
    have size: "0 < ?size" "?size \<le> length t" "int ?size \<le> wsize" using less.prems(1) False by auto
    let ?u = "take ?size t" and ?v = "drop ?size t"
    have t: "pre @ t = (pre @ ?u) @ ?v" by simp
    have "blk_holds b (pre @ ?u)" using less.prems(2) blk_holds_prefix unfolding t by blast
    from blk_slice_holds [OF this] have slice: "blk_slice b (length pre) ?size = Inr (map Some ?u)"
      using size(2) by (simp add: min_absorb2)
    have nonneg: "\<not> (if int (length t) \<ge> wsize then wsize else int (length t)) < 0"
      using less.prems(1) by simp
    have step: "send_chunks wsize ans b (length (pre @ t)) (length pre) k sent =
      (if ans k = -1 then Some (Inr (sent @ [(map Some ?u, -1)], False))
       else send_chunks wsize ans b (length (pre @ t)) (length (pre @ ?u)) (Suc k)
              (sent @ [(map Some ?u, ans k)]))"
      using slice nonneg size(2) False
      by (subst send_chunks.simps) (simp add: Let_def min_absorb2 of_nat_diff)
    show ?thesis
    proof (cases "ans k = -1")
      case True
      show ?thesis
        by (intro exI [of _ "[(map Some ?u, -1)]"] exI [of _ False])
          (use step True size in \<open>auto simp: min_absorb2\<close>)
    next
      case ok: False
      have "blk_holds b ((pre @ ?u) @ ?v)" using less.prems(2) by simp
      moreover have "length ?v < length t" using size False by simp
      ultimately obtain calls ok where c:
        "send_chunks wsize ans b (length ((pre @ ?u) @ ?v)) (length (pre @ ?u)) (Suc k)
              (sent @ [(map Some ?u, ans k)])
         = Some (Inr ((sent @ [(map Some ?u, ans k)]) @ calls, ok))"
        "ok \<longrightarrow> concat (map fst calls) = map Some ?v"
        "ok \<longleftrightarrow> -1 \<notin> snd ` set calls"
        "map snd calls = map ans [Suc k..<Suc k + length calls]"
        "\<forall>c \<in> set calls. int (length (fst c)) \<le> wsize"
        using less.hyps [OF _ less.prems(1)] by blast
      have "map Some t = map Some ?u @ map Some ?v" by (metis append_take_drop_id map_append)
      then show ?thesis
        by (intro exI [of _ "(map Some ?u, ans k) # calls"] exI [of _ ok])
          (use step ok c size in \<open>simp add: min_absorb2 upt_conv_Cons del: upt_Suc\<close>)
    qed
  qed
qed


lemma send_response_small:
  assumes "response_holds resp s" "int (length s) \<le> write_buffer_size cfg"
  shows "send_response cfg ans resp = Some (Inr ([(map Some s, ans 0)], ans 0 \<noteq> -1))"
proof -
  have len: "rs_data_len resp = length s" using assms(1) by (simp add: response_holds_def)
  show ?thesis
  proof (cases "rs_data resp")
    case None
    then have "s = []" using assms(1) by (simp add: response_holds_def)
    then show ?thesis using assms(2) len None by (simp add: send_response_def)
  next
    case (Some b)
    then show ?thesis using assms(2) response_holds_slice [OF assms(1) Some]
      by (simp add: send_response_def Let_def len)
  qed
qed

lemma send_response_returns:
  assumes "0 < write_buffer_size cfg" "response_holds resp s"
  shows "\<exists>calls ok. send_response cfg ans resp = Some (Inr (calls, ok))
     \<and> (ok \<longrightarrow> concat (map fst calls) = map Some s) \<and> (ok \<longleftrightarrow> -1 \<notin> snd ` set calls)
     \<and> map snd calls = map ans [0..<length calls]
     \<and> (\<forall>c \<in> set calls. int (length (fst c)) \<le> write_buffer_size cfg)"
proof (cases "int (length s) \<le> write_buffer_size cfg")
  case True
  have "send_response cfg ans resp = Some (Inr ([(map Some s, ans 0)], ans 0 \<noteq> -1))"
    by (rule send_response_small [OF assms(2) True])
  then show ?thesis using True by auto
next
  case False
  then have "s \<noteq> []" using assms(1) by auto
  then obtain b where b: "rs_data resp = Some b" "blk_holds b s" "rs_data_len resp = length s"
    using assms(2) by (auto simp: response_holds_def dest: blk_holds_prefix split: option.splits)
  then show ?thesis using False send_chunks_returns [OF assms(1), of b "[]" s ans 0 "[]"]
    by (simp add: send_response_def)
qed

lemma send_chunks_of_size_0:
  assumes "send_chunks w ans b n d k sent = Some y"
  shows "w = 0 \<longrightarrow> d < n \<longrightarrow> d \<le> bsize b \<longrightarrow> (\<forall>j. ans j \<noteq> -1) \<longrightarrow> False"
proof (rule send_chunks.raw_induct [OF _ assms, where P = "\<lambda>w ans b n d k sent y.
    w = 0 \<longrightarrow> d < n \<longrightarrow> d \<le> bsize b \<longrightarrow> (\<forall>j. ans j \<noteq> -1) \<longrightarrow> False"])
  fix f w ans b n d k sent y
  assume "\<And>w ans b n d k sent y. f w ans b n d k sent = Some y \<Longrightarrow>
      w = 0 \<longrightarrow> d < n \<longrightarrow> d \<le> bsize b \<longrightarrow> (\<forall>j. ans j \<noteq> -1) \<longrightarrow> False"
    "(if d < n then
        let rest = int n - int d; size = (if rest \<ge> w then w else rest) in
        if size < 0 then Some (Inl Out_Of_Bounds)
        else
          (case blk_slice b d (nat size) of
             Inl e \<Rightarrow> Some (Inl e)
           | Inr bytes \<Rightarrow>
               if ans k = -1 then Some (Inr (sent @ [(bytes, -1)], False))
               else f w ans b n (d + nat size) (Suc k) (sent @ [(bytes, ans k)]))
      else Some (Inr (sent, True))) = Some y"
  then show "w = 0 \<longrightarrow> d < n \<longrightarrow> d \<le> bsize b \<longrightarrow> (\<forall>j. ans j \<noteq> -1) \<longrightarrow> False"
    by (auto simp: Let_def split: if_splits)
qed

lemma send_chunks_stuck:
  "\<forall>j. ans j \<noteq> -1 \<Longrightarrow> d < n \<Longrightarrow> d \<le> bsize b \<Longrightarrow> send_chunks 0 ans b n d k sent = None"
  using send_chunks_of_size_0 [of 0 ans b n d k sent]
  by (cases "send_chunks 0 ans b n d k sent") auto

text \<open>What arrives of the calls: of each, as many bytes as \<open>send\<close> answered.\<close>

definition on_wire :: "(char option list \<times> int) list \<Rightarrow> char option list" where
  "on_wire calls = concat (map (\<lambda>c. take (nat (snd c)) (fst c)) calls)"

lemma on_wire_append [simp]: "on_wire (a @ b) = on_wire a @ on_wire b"
  by (simp add: on_wire_def)

lemma on_wire_full:
  "\<forall>c \<in> set calls. snd c = int (length (fst c)) \<Longrightarrow> on_wire calls = concat (map fst calls)"
  by (induction calls) (auto simp: on_wire_def)

lemma on_wire_length: "length (on_wire calls) \<le> length (concat (map fst calls))"
  by (induction calls) (auto simp: on_wire_def)

lemma on_wire_partial:
  "(b, r) \<in> set calls \<Longrightarrow> nat r < length b \<Longrightarrow>
     length (on_wire calls) < length (concat (map fst calls))"
proof (induction calls)
  case (Cons c calls)
  then show ?case
  proof (cases "c = (b, r)")
    case True
    then have "length (take (nat r) b) < length b" using Cons.prems(2) by (cases b) auto
    then show ?thesis using True on_wire_length [of calls] by (simp add: on_wire_def)
  next
    case False
    then have "length (on_wire calls) < length (concat (map fst calls))"
      using Cons by auto
    then show ?thesis by (simp add: on_wire_def)
  qed
qed simp

section \<open>One event\<close>

definition close_result :: "link \<Rightarrow> bool" where
  "close_result lk \<longleftrightarrow> cn_status (lk_conn lk) = CONN_READING
     \<or> cn_status (lk_conn lk) = CONN_INACTIVE \<and> cn_request (lk_conn lk) = None
       \<and> cn_response (lk_conn lk) = None \<and> cn_read_buffer (lk_conn lk) = None
       \<and> cn_buffer_len (lk_conn lk) = 0"

lemma start_stage_status:
  "start_stage cfg conn = Inr conn' \<Longrightarrow> cn_status conn' \<noteq> CONN_STARTED"
  by (auto simp: start_stage_def rbind_eq_Inr_iff split: if_splits option.splits)

lemma read_stage_status:
  "read_stage cfg ref rd lk = Some (Inr lk') \<Longrightarrow> cn_status (lk_conn lk) \<noteq> CONN_STARTED \<Longrightarrow>
     cn_status (lk_conn lk') \<noteq> CONN_STARTED"
  by (auto simp: read_stage_def abind_eq_value_iff read_socket_def rbind_eq_Inr_iff Let_def
      split: if_splits option.splits)

lemma write_stage_status:
  "write_stage cfg ans lk = Some (Inr lk') \<Longrightarrow> cn_status (lk_conn lk) \<noteq> CONN_STARTED \<Longrightarrow>
     cn_status (lk_conn lk') \<noteq> CONN_STARTED \<and> cn_status (lk_conn lk') \<noteq> CONN_WRITING"
  by (auto simp: write_stage_def abind_eq_value_iff Let_def split: if_splits option.splits)

lemma close_stage_result:
  "cn_status (lk_conn lk) \<noteq> CONN_STARTED \<Longrightarrow> cn_status (lk_conn lk) \<noteq> CONN_WRITING \<Longrightarrow>
     close_result (close_stage lk)"
  by (cases "cn_status (lk_conn lk)")
    (simp_all add: close_stage_def Let_def close_result_def connection_reset_def request_free_def
      response_free_def split: option.splits)

section \<open>The handler implements the dialogue\<close>

text \<open>
  Between two events the connection waits for input, and its request is in the state \<open>m\<close>
  of the dialogue with everything answered.
\<close>

definition link_refines :: "link \<Rightarrow> smtp \<Rightarrow> bool" where
  "link_refines lk m \<longleftrightarrow>
     cn_status (lk_conn lk) = CONN_READING \<and> cn_buffer_len (lk_conn lk) = 0 \<and> \<not> sm_error m
     \<and> sm_out m = [] \<and> \<not> sm_process m
     \<and> (\<exists>req resp. cn_request (lk_conn lk) = Some req \<and> cn_response (lk_conn lk) = Some resp
          \<and> request_refines req resp m \<and> hdrs_sized (rq_headers req)
          \<and> rq_body req = None \<and> rq_body_len req = 0)"

text \<open>The state of the dialogue once the answers of a turn are sent.\<close>

definition next_turn :: "smtp \<Rightarrow> smtp" where
  "next_turn m = (if sm_in_data m then m\<lparr>sm_out := []\<rparr> else smtp_start)"

definition good_sizes :: "config \<Rightarrow> bool" where
  "good_sizes cfg \<longleftrightarrow> 0 < read_buffer_size cfg \<and> 0 < write_buffer_size cfg"

lemma request_init_body [simp]: "rq_body request_init = None" "rq_body_len request_init = 0"
  by (simp_all add: request_init_def)

lemma all_answered:
  assumes "map snd calls = map ans [0..<length calls]" "\<forall>k. ans k \<noteq> (-1 :: int)"
  shows "-1 \<notin> snd ` set calls"
proof -
  have "snd ` set calls = set (map snd calls)" by simp
  then show ?thesis unfolding assms(1) using assms(2) by auto
qed

lemma request_init_sized: "hdrs_sized (rq_headers request_init)"
  by (simp add: hdrs_sized_def request_init_def hdr_sized_def new_hdr_def list_all_length max_len_defs)

lemma read_socket_received:
  assumes "link_refines lk m" "0 < read_buffer_size cfg" "t \<noteq> []" "int (length t) \<le> read_buffer_size cfg"
  shows "\<exists>req resp conn. read_socket cfg (Some t) (lk_conn lk) = Inr conn \<and> received conn req resp t
    \<and> cn_status conn = CONN_READING \<and> request_refines req resp m \<and> hdrs_sized (rq_headers req)
    \<and> rq_body req = None \<and> rq_body_len req = 0"
proof -
  obtain req resp where r: "cn_request (lk_conn lk) = Some req" "cn_response (lk_conn lk) = Some resp"
    "request_refines req resp m" "hdrs_sized (rq_headers req)" "rq_body req = None" "rq_body_len req = 0"
    using assms(1) by (auto simp: link_refines_def)
  let ?m = "malloc (nat (read_buffer_size cfg + 1))"
  obtain b where b: "blk_copy ?m 0 (map Some t) = Inr b" "blk_holds b t"
    using blk_holds_append [of ?m "[]" t] assms(4) by (auto simp: le_nat_iff)
  have "take (nat (read_buffer_size cfg)) t = t" using assms(4) by simp
  then show ?thesis using assms(1,2) r b
    by (simp add: read_socket_def Let_def link_refines_def received_def)
qed


text \<open>A connection about to answer.\<close>

definition answering :: "link \<Rightarrow> link \<Rightarrow> request \<Rightarrow> smtp \<Rightarrow> bool" where
  "answering lk lk' req m \<longleftrightarrow>
     cn_status (lk_conn lk') = CONN_WRITING \<and> cn_request (lk_conn lk') = Some req
     \<and> (\<exists>resp. cn_response (lk_conn lk') = Some resp \<and> response_holds resp (sm_out m))
     \<and> rq_quit req = sm_quit m \<and> rq_in_data req = sm_in_data m
     \<and> lk_sent lk' = lk_sent lk \<and> lk_closed lk' = lk_closed lk"

lemma read_stage_turn:
  assumes lk: "link_refines lk m" and sizes: "good_sizes cfg"
    and t: "t \<noteq> []" "int (length t) \<le> read_buffer_size cfg" "reads_ok (data_buffer_size cfg) m t"
    and m': "m' = smtp_scan (data_buffer_size cfg) m t" "\<not> sm_error m'" "\<not> sm_process m'"
  shows "\<exists>lk' req. read_stage cfg ref (Some t) lk = Some (Inr lk') \<and> answering lk lk' req m'
    \<and> data_holds req (sm_data m') \<and> rq_process req = sm_process m' \<and> hdrs_sized (rq_headers req)
    \<and> rq_body req = None \<and> rq_body_len req = 0 \<and> lk_queue lk' = lk_queue lk"
proof -
  obtain req resp conn where r: "read_socket cfg (Some t) (lk_conn lk) = Inr conn"
    "received conn req resp t" "cn_status conn = CONN_READING" "request_refines req resp m"
    "hdrs_sized (rq_headers req)" "rq_body req = None" "rq_body_len req = 0"
    using read_socket_received [OF lk _ t(1,2)] sizes by (auto simp: good_sizes_def)
  have "\<not> sm_error m" using lk by (simp add: link_refines_def)
  from parse_commands_loop [OF r(2) t(3) r(4) this r(3)] m' obtain req' resp' where p:
    "request_parse_commands cfg conn = Inr (conn\<lparr>cn_request := Some req',
       cn_response := Some resp', cn_status := CONN_READING\<rparr>, 0)"
    "request_refines req' resp' m'" "same_message req req'"
    by (auto simp: Let_def)
  have "\<not> rq_process req'" using p(2) m'(3) by (simp add: request_refines_def)
  then have "read_stage cfg ref (Some t) lk = Some (Inr (lk\<lparr>lk_conn := conn\<lparr>cn_request := Some req',
       cn_response := Some resp', cn_status := CONN_WRITING\<rparr>\<rparr>))"
    using lk r p t(1) by (simp add: read_stage_def process_message_def link_refines_def received_def)
  then show ?thesis using p r(5-7)
    by (auto simp: answering_def request_refines_def same_message_def)
qed

lemma write_stage_answers:
  assumes a: "answering lk0 lk req m" and sizes: "good_sizes cfg" and ans: "\<forall>k. ans k \<noteq> -1"
  shows "\<exists>calls. write_stage cfg ans lk = Some (Inr (lk\<lparr>lk_sent := lk_sent lk0 @ calls,
        lk_conn := (lk_conn lk)\<lparr>cn_status := (if sm_quit m then CONN_CLOSED else CONN_READING),
          cn_request := Some (clear_request req), cn_response := Some response_init,
          cn_read_buffer := None, cn_buffer_len := 0\<rparr>\<rparr>))
    \<and> concat (map fst calls) = map Some (sm_out m) \<and> map snd calls = map ans [0..<length calls]"
proof -
  obtain resp where resp: "cn_response (lk_conn lk) = Some resp" "response_holds resp (sm_out m)"
    using a by (auto simp: answering_def)
  obtain calls ok where c: "send_response cfg ans resp = Some (Inr (calls, ok))"
    "ok \<longrightarrow> concat (map fst calls) = map Some (sm_out m)" "ok \<longleftrightarrow> -1 \<notin> snd ` set calls"
    "map snd calls = map ans [0..<length calls]"
    using send_response_returns [OF _ resp(2), of cfg ans] sizes by (auto simp: good_sizes_def)
  have ok using c(3) all_answered [OF c(4) ans] by simp
  then show ?thesis using a resp c
    by (intro exI [of _ calls]) (auto simp: write_stage_def answering_def Let_def)
qed

lemma turn_handled:
  assumes lk: "link_refines lk m" and sizes: "good_sizes cfg"
    and t: "t \<noteq> []" "int (length t) \<le> read_buffer_size cfg" "reads_ok (data_buffer_size cfg) m t"
    and m': "m' = smtp_scan (data_buffer_size cfg) m t" "\<not> sm_error m'" "\<not> sm_process m'"
    and ans: "\<forall>k. ans k \<noteq> -1"
  shows "\<exists>lk' calls. connection_handle cfg ref (Some t) ans lk = Some (Inr lk')
    \<and> lk_sent lk' = lk_sent lk @ calls \<and> concat (map fst calls) = map Some (sm_out m')
    \<and> lk_queue lk' = lk_queue lk \<and> close_result lk'
    \<and> (if sm_quit m' then cn_status (lk_conn lk') = CONN_INACTIVE \<and> lk_closed lk' = lk_closed lk + 1
       else link_refines lk' (next_turn m') \<and> lk_closed lk' = lk_closed lk)"
proof -
  obtain lk1 req where r: "read_stage cfg ref (Some t) lk = Some (Inr lk1)" "answering lk lk1 req m'"
    "data_holds req (sm_data m')" "rq_process req = sm_process m'" "hdrs_sized (rq_headers req)"
    "rq_body req = None" "rq_body_len req = 0" "lk_queue lk1 = lk_queue lk"
    using read_stage_turn [OF lk sizes t m'] by blast
  let ?conn = "(lk_conn lk1)\<lparr>cn_status := (if sm_quit m' then CONN_CLOSED else CONN_READING),
          cn_request := Some (clear_request req), cn_response := Some response_init,
          cn_read_buffer := None, cn_buffer_len := 0\<rparr>"
  obtain calls where w: "write_stage cfg ans lk1
      = Some (Inr (lk1\<lparr>lk_sent := lk_sent lk @ calls, lk_conn := ?conn\<rparr>))"
    "concat (map fst calls) = map Some (sm_out m')"
    using write_stage_answers [OF r(2) sizes ans] by blast
  let ?lk = "close_stage (lk1\<lparr>lk_sent := lk_sent lk @ calls, lk_conn := ?conn\<rparr>)"
  have "cn_status (lk_conn lk) = CONN_READING" using lk by (simp add: link_refines_def)
  then have h: "connection_handle cfg ref (Some t) ans lk = Some (Inr ?lk)"
    using r(1) w(1) by (simp add: connection_handle_def start_stage_def)
  have "\<not> sm_quit m' \<Longrightarrow> link_refines ?lk (next_turn m')"
    using r m' response_holds_init start_refines request_init_sized
    by (auto simp: close_stage_def Let_def link_refines_def next_turn_def clear_request_def
        request_refines_def answering_def smtp_start_def)
  moreover have "close_result ?lk" by (rule close_stage_result) simp_all
  ultimately show ?thesis using h w r
    by (intro exI [of _ ?lk] exI [of _ calls])
      (simp add: close_stage_def Let_def answering_def connection_reset_def)
qed

text \<open>
  One turn of the dialogue. A connection that waits in state \<open>m\<close> of the dialogue and
  receives bytes that complete no message: the handler returns, hands to \<open>send\<close> exactly the
  answers of the dialogue, leaves the queue alone, and then waits in the next state or, after
  QUIT, has closed the descriptor once and dropped its buffers.
\<close>

theorem handle_one_turn:
  assumes lk: "link_refines lk m" and sizes: "good_sizes cfg"
    and t: "t \<noteq> []" "int (length t) \<le> read_buffer_size cfg" "reads_ok (data_buffer_size cfg) m t"
    and m': "m' = smtp_scan (data_buffer_size cfg) m t" "\<not> sm_error m'" "\<not> sm_process m'"
    and ans: "\<forall>k. ans k \<noteq> -1"
  shows "\<exists>lk' calls. connection_handle cfg ref (Some t) ans lk = Some (Inr lk')
    \<and> lk_sent lk' = lk_sent lk @ calls \<and> concat (map fst calls) = map Some (sm_out m')
    \<and> lk_queue lk' = lk_queue lk \<and> close_result lk'
    \<and> (if sm_quit m' then cn_status (lk_conn lk') = CONN_INACTIVE \<and> lk_closed lk' = lk_closed lk + 1
       else link_refines lk' (next_turn m') \<and> lk_closed lk' = lk_closed lk)"
  using turn_handled [OF assms] .

definition open_link :: "request \<Rightarrow> link" where
  "open_link req =
     \<lparr>lk_conn = \<lparr>cn_request = Some req, cn_response = Some response_init, cn_status = CONN_READING,
                 cn_read_buffer = None, cn_buffer_len = 0\<rparr>,
      lk_queue = (1, fresh_shared new_mail 1), lk_sent = [], lk_closed = 0\<rparr>"

lemma open_link_refines: "link_refines (open_link request_init) smtp_start"
  using start_refines request_init_sized
  by (simp add: link_refines_def open_link_def smtp_start_def)

lemma open_link_data_refines:
  "link_refines (open_link (request_init\<lparr>rq_in_data := True\<rparr>)) (smtp_start\<lparr>sm_in_data := True\<rparr>)"
  using start_refines request_init_sized
  by (simp add: link_refines_def open_link_def smtp_start_def request_refines_def)

lemma default_sizes: "good_sizes config_init" "data_buffer_size config_init = 40000"
    "read_buffer_size config_init = 4046"
  by (simp_all add: good_sizes_def config_init_def config_load_default_def)

theorem handle_one_turn_witness:
  "\<exists>lk' calls. connection_handle config_init None (Some (''EHLO x'' @ CRLF)) (\<lambda>_. 100) (open_link request_init)
      = Some (Inr lk')
    \<and> lk_sent lk' = calls \<and> concat (map fst calls) = map Some reply_ehlo
    \<and> link_refines lk' smtp_start \<and> lk_closed lk' = 0"
proof -
  let ?m = "smtp_start\<lparr>sm_out := reply_ehlo\<rparr>"
  have scan: "?m = smtp_scan (data_buffer_size config_init) smtp_start (''EHLO x'' @ CRLF)"
    by (simp add: smtp_cmd_def smtp_start_def DATA_CMD_def)
  have "reads_ok (data_buffer_size config_init) smtp_start (''EHLO x'' @ CRLF)"
    by (rule reads_ok_line) simp
  then show ?thesis
    using handle_one_turn [OF open_link_refines default_sizes(1) _ _ _ scan, of "\<lambda>_. 100" None]
    by (auto simp: default_sizes smtp_start_def next_turn_def open_link_def)
qed

section \<open>A complete message\<close>

text \<open>The mail that is queued for a message with the fields \<open>fs\<close> and the body \<open>txt\<close>.\<close>

definition mail_is :: "mail \<Rightarrow> field list \<Rightarrow> string \<Rightarrow> bool" where
  "mail_is ml fs txt \<longleftrightarrow> ml_header_count ml = length fs \<and> length fs \<le> length (ml_headers ml)
     \<and> (\<forall>i<length fs. hdr_is (ml_headers ml ! i) (fs ! i)) \<and> blk_cstr (ml_body ml) = Inr txt"

lemma copy_headers_ok:
  "i + n \<le> length (rq_headers req) \<Longrightarrow> i + n \<le> length (ml_headers ml) \<Longrightarrow>
   \<exists>hs. copy_headers req i n ml = Inr (ml\<lparr>ml_headers := hs\<rparr>) \<and> length hs = length (ml_headers ml)
     \<and> (\<forall>j<i. hs ! j = ml_headers ml ! j) \<and> (\<forall>j<n. hs ! (i + j) = rq_headers req ! (i + j))"
proof (induction n arbitrary: i ml)
  case 0
  then show ?case by (intro exI [of _ "ml_headers ml"]) simp
next
  case (Suc n)
  let ?ml = "ml\<lparr>ml_headers := (ml_headers ml)[i := rq_headers req ! i]\<rparr>"
  obtain hs where hs: "copy_headers req (Suc i) n ?ml = Inr (?ml\<lparr>ml_headers := hs\<rparr>)"
    "length hs = length (ml_headers ml)" "\<forall>j<Suc i. hs ! j = ml_headers ?ml ! j" "\<forall>j<n. hs ! (Suc i + j) = rq_headers req ! (Suc i + j)"
    using Suc.IH [of "Suc i" ?ml] Suc.prems by auto
  have "\<forall>j<Suc n. hs ! (i + j) = rq_headers req ! (i + j)"
  proof (intro allI impI)
    fix j assume "j < Suc n"
    moreover have "hs ! i = rq_headers req ! i" using hs(3) Suc.prems by simp
    ultimately show "hs ! (i + j) = rq_headers req ! (i + j)" using hs(4) by (cases j) auto
  qed
  then show ?case using hs Suc.prems by (intro exI [of _ hs]) simp
qed

lemma copy_body_ok:
  assumes "rq_body_len req = length s" "rq_body req = Some b" "blk_holds b (s @ [NUL])"
  shows "\<exists>b'. copy_body req new_mail = Inr (new_mail\<lparr>ml_body := b'\<rparr>)
    \<and> blk_holds b' (if length s < BODY_MAX_LEN then s @ [NUL] else [NUL])"
proof (cases "length s < BODY_MAX_LEN")
  case True
  have "blk_slice b 0 (length s + 1) = Inr (map Some (s @ [NUL]))"
    using blk_holds_slice [OF assms(3)] by simp
  moreover obtain b' where "blk_copy (malloc BODY_MAX_LEN) 0 (map Some (s @ [NUL])) = Inr b'"
    "blk_holds b' (s @ [NUL])"
    using blk_holds_append [of "malloc BODY_MAX_LEN" "[]" "s @ [NUL]"] True by auto
  ultimately show ?thesis using True assms(1,2) by (simp add: copy_body_def new_mail_def)
next
  case False
  obtain b' where "blk_set (malloc BODY_MAX_LEN) 0 NUL = Inr b'" "blk_holds b' [NUL]"
    using blk_holds_append [of "malloc BODY_MAX_LEN" "[]" "[NUL]"] by (auto simp: max_len_defs)
  then show ?thesis using False assms(1) by (simp add: copy_body_def new_mail_def)
qed

lemma make_mail_ok:
  assumes body: "rq_body_len req = length (txt @ NUL # u)" "rq_body req = Some b"
      "blk_holds b ((txt @ NUL # u) @ [NUL])" "no_nul txt"
    and hs: "hdrs_sized (rq_headers req)" "length fs \<le> HEADER_MAX_LEN"
      "\<forall>i<length fs. hdr_is (rq_headers req ! i) (fs ! i)"
  shows "\<exists>ml. make_mail req (length fs) = Inr ml
    \<and> mail_is ml fs (if length (txt @ NUL # u) < BODY_MAX_LEN then txt else [])"
proof -
  obtain b' where b': "copy_body req new_mail = Inr (new_mail\<lparr>ml_body := b'\<rparr>)"
    "blk_holds b' (if length (txt @ NUL # u) < BODY_MAX_LEN then (txt @ NUL # u) @ [NUL] else [NUL])"
    using copy_body_ok [OF body(1-3)] by blast
  let ?txt = "if length (txt @ NUL # u) < BODY_MAX_LEN then txt else []"
  have "blk_holds b' (?txt @ [NUL])"
    using b'(2) blk_holds_prefix [of b' "txt @ [NUL]" "u @ [NUL]"] by (simp split: if_splits)
  then have str: "blk_cstr b' = Inr ?txt" using blk_cstr_holds [of b' ?txt] body(4) by simp
  let ?ml = "new_mail\<lparr>ml_body := b', ml_header_count := length fs\<rparr>"
  obtain l where l: "copy_headers req 0 (length fs) ?ml = Inr (?ml\<lparr>ml_headers := l\<rparr>)"
    "length l = HEADER_MAX_LEN" "\<forall>j<length fs. l ! j = rq_headers req ! j"
    using copy_headers_ok [of 0 "length fs" req ?ml] hs(1,2)
    by (auto simp: hdrs_sized_length new_mail_def)
  then show ?thesis using b'(1) str hs(2,3) by (simp add: make_mail_def mail_is_def)
qed

lemma queue_mail_ok:
  assumes "pq_ready ref q"
  shows "\<exists>q'. queue_mail (Some ref) ml q = Some (Inr q') \<and> pq_ready ref q' \<and> pq_cap q' = pq_cap q
    \<and> pq_items q' = (if length (pq_items q) < pq_cap q then pq_items q @ [ml] else pq_items q)"
  using pq.enq_refines [OF assms, of ml]
  by (fastforce simp: queue_mail_def split: if_splits)

lemma read_stage_message:
  assumes lk: "link_refines lk m" "sm_in_data m" and sizes: "good_sizes cfg"
    and t: "t \<noteq> []" "int (length t) \<le> read_buffer_size cfg"
      "sm_data m @ t = (render_fields fs @ CRLF @ txt) @ END_DATA"
      "quiet [] (butlast ((render_fields fs @ CRLF @ txt) @ END_DATA))"
      "int (length (render_fields fs @ CRLF @ txt) + 5) \<le> data_buffer_size cfg"
    and fs: "fs \<noteq> []" "list_all field_ok fs" "length fs \<le> HEADER_MAX_LEN"
    and bt: "no_nul txt" "txt = [] \<or> \<not> blank_char (hd txt)"
    and q: "pq_ready ref (lk_queue lk)"
  shows "\<exists>lk' req ml. read_stage cfg (Some ref) (Some t) lk = Some (Inr lk')
    \<and> answering lk lk' req (m\<lparr>sm_out := reply_queued, sm_in_data := False, sm_process := True,
        sm_quit := True\<rparr>)
    \<and> mail_is ml fs (if length txt + 5 < BODY_MAX_LEN then txt else [])
    \<and> pq_ready ref (lk_queue lk') \<and> pq_cap (lk_queue lk') = pq_cap (lk_queue lk) \<and> pq_items (lk_queue lk') =
        (if length (pq_items (lk_queue lk)) < pq_cap (lk_queue lk)
         then pq_items (lk_queue lk) @ [ml] else pq_items (lk_queue lk))"
proof -
  let ?msg = "render_fields fs @ CRLF @ txt"
  let ?body = "txt @ NUL # LF # CHR ''.'' # CRLF"
  obtain req resp conn where r: "read_socket cfg (Some t) (lk_conn lk) = Inr conn"
    "received conn req resp t" "cn_status conn = CONN_READING" "request_refines req resp m"
    "hdrs_sized (rq_headers req)"
    using read_socket_received [OF lk(1) _ t(1,2)] sizes by (auto simp: good_sizes_def)
  have m: "\<not> sm_error m" "sm_out m = []" using lk by (simp_all add: link_refines_def)
  note fin = smtp_scan_finish [OF lk(2) m(1) t(3,1,4,5)]
  from parse_commands_loop [OF r(2) fin(1) r(4) m(1) r(3)] obtain req' resp' where p:
    "request_parse_commands cfg conn = Inr (conn\<lparr>cn_request := Some req',
       cn_response := Some resp', cn_status := CONN_READING\<rparr>, 0)"
    "request_refines req' resp' (m\<lparr>sm_data := stored_message ?msg, sm_out := reply_queued,
       sm_in_data := False, sm_process := True, sm_quit := True\<rparr>)" "same_message req req'"
    using m by (auto simp: fin(2) Let_def)
  have d: "data_holds req' (render_fields fs @ CRLF @ ?body)" "hdrs_sized (rq_headers req')"
    using p(2,3) r(5) by (simp_all add: request_refines_def stored_message_def same_message_def)
  have nb: "\<not> blank_char (hd ?body)" using bt(2) by (cases "txt") (auto simp: blank_char_def)
  obtain hs b where pd: "request_parse_data req' = Inr (req'\<lparr>rq_headers := hs,
        rq_header_count := Some (length fs), rq_body_len := length ?body, rq_body := Some b\<rparr>)"
    "hdrs_sized hs" "\<forall>i<length fs. hdr_is (hs ! i) (fs ! i)" "blk_holds b (?body @ [NUL])"
    using parse_data_ok [OF d fs(2,1) _ nb fs(3)] by auto
  let ?req = "req'\<lparr>rq_headers := hs, rq_header_count := Some (length fs),
       rq_body_len := length ?body, rq_body := Some b\<rparr>"
  have len5: "length ?body = length txt + 5" by simp
  have "\<exists>ml. make_mail ?req (length fs) = Inr ml
    \<and> mail_is ml fs (if length ?body < BODY_MAX_LEN then txt else [])"
    using pd bt(1) fs(3) by (intro make_mail_ok) auto
  then obtain ml where ml: "make_mail ?req (length fs) = Inr ml"
    "mail_is ml fs (if length txt + 5 < BODY_MAX_LEN then txt else [])"
    unfolding len5 by blast
  obtain q' where q': "queue_mail (Some ref) ml (lk_queue lk) = Some (Inr q')" "pq_ready ref q'" "pq_cap q' = pq_cap (lk_queue lk)"
    "pq_items q' = (if length (pq_items (lk_queue lk)) < pq_cap (lk_queue lk)
      then pq_items (lk_queue lk) @ [ml] else pq_items (lk_queue lk))"
    using queue_mail_ok [OF q, of ml] by blast
  have flags: "rq_process req'" "rq_quit req'" "\<not> rq_in_data req'" "response_holds resp' reply_queued"
    using p(2) by (simp_all add: request_refines_def)
  have "read_stage cfg (Some ref) (Some t) lk = Some (Inr (lk\<lparr>lk_conn := conn\<lparr>cn_request := Some ?req,
       cn_response := Some resp', cn_status := CONN_WRITING\<rparr>, lk_queue := q'\<rparr>))"
    using lk(1) r p(1) t(1) fs(1) flags(1) pd(1) ml(1) q'(1)
    by (simp add: read_stage_def process_message_def link_refines_def received_def Let_def)
  then show ?thesis using flags ml(2) q'(2-4)
    by (intro exI [of _ "lk\<lparr>lk_conn := conn\<lparr>cn_request := Some ?req,
       cn_response := Some resp', cn_status := CONN_WRITING\<rparr>, lk_queue := q'\<rparr>"] exI [of _ ?req]
        exI [of _ ml]) (simp add: answering_def)
qed


lemma message_handled:
  assumes lk: "link_refines lk m" "sm_in_data m" and sizes: "good_sizes cfg"
    and t: "t \<noteq> []" "int (length t) \<le> read_buffer_size cfg"
      "sm_data m @ t = (render_fields fs @ CRLF @ txt) @ END_DATA"
      "quiet [] (butlast ((render_fields fs @ CRLF @ txt) @ END_DATA))"
      "int (length (render_fields fs @ CRLF @ txt) + 5) \<le> data_buffer_size cfg"
    and fs: "fs \<noteq> []" "list_all field_ok fs" "length fs \<le> HEADER_MAX_LEN"
    and bt: "no_nul txt" "txt = [] \<or> \<not> blank_char (hd txt)"
    and q: "pq_ready ref (lk_queue lk)" and ans: "\<forall>k. ans k \<noteq> -1"
  shows "\<exists>lk' calls ml. connection_handle cfg (Some ref) (Some t) ans lk = Some (Inr lk')
    \<and> mail_is ml fs (if length txt + 5 < BODY_MAX_LEN then txt else [])
    \<and> pq_ready ref (lk_queue lk') \<and> pq_cap (lk_queue lk') = pq_cap (lk_queue lk) \<and> pq_items (lk_queue lk') =
        (if length (pq_items (lk_queue lk)) < pq_cap (lk_queue lk)
         then pq_items (lk_queue lk) @ [ml] else pq_items (lk_queue lk))
    \<and> lk_sent lk' = lk_sent lk @ calls \<and> concat (map fst calls) = map Some reply_queued
    \<and> close_result lk' \<and> cn_status (lk_conn lk') = CONN_INACTIVE \<and> lk_closed lk' = lk_closed lk + 1"
proof -
  obtain lk1 req ml where r: "read_stage cfg (Some ref) (Some t) lk = Some (Inr lk1)"
    "answering lk lk1 req (m\<lparr>sm_out := reply_queued, sm_in_data := False, sm_process := True,
        sm_quit := True\<rparr>)"
    "mail_is ml fs (if length txt + 5 < BODY_MAX_LEN then txt else [])"
    "pq_ready ref (lk_queue lk1)" "pq_cap (lk_queue lk1) = pq_cap (lk_queue lk)" "pq_items (lk_queue lk1) =
        (if length (pq_items (lk_queue lk)) < pq_cap (lk_queue lk)
         then pq_items (lk_queue lk) @ [ml] else pq_items (lk_queue lk))"
    using read_stage_message [OF lk sizes t fs bt q] by blast
  let ?conn = "(lk_conn lk1)\<lparr>cn_status := CONN_CLOSED,
          cn_request := Some (clear_request req), cn_response := Some response_init,
          cn_read_buffer := None, cn_buffer_len := 0\<rparr>"
  obtain calls where w: "write_stage cfg ans lk1
      = Some (Inr (lk1\<lparr>lk_sent := lk_sent lk @ calls, lk_conn := ?conn\<rparr>))"
    "concat (map fst calls) = map Some reply_queued"
    using write_stage_answers [OF r(2) sizes ans] by auto
  let ?lk = "close_stage (lk1\<lparr>lk_sent := lk_sent lk @ calls, lk_conn := ?conn\<rparr>)"
  have "cn_status (lk_conn lk) = CONN_READING" using lk by (simp add: link_refines_def)
  then have h: "connection_handle cfg (Some ref) (Some t) ans lk = Some (Inr ?lk)"
    using r(1) w(1) by (simp add: connection_handle_def start_stage_def)
  have "close_result ?lk" by (rule close_stage_result) simp_all
  then show ?thesis using h w r
    by (intro exI [of _ ?lk] exI [of _ calls] exI [of _ ml])
      (simp add: close_stage_def Let_def answering_def connection_reset_def)
qed

text \<open>
  C4. A message is accepted end to end. The last bytes of a message of at most 20 header
  fields, a blank line and a body arrive (whatever arrived before, in whatever pieces): the
  handler returns, appends to the queue exactly one mail with these headers and this body,
  answers that it is queued and closes. Two ends of it are not announced to the client: a
  full queue drops the mail, and a body of 7995 bytes or more is replaced by the empty one.
\<close>

theorem handle_message:
  assumes lk: "link_refines lk m" "sm_in_data m" and sizes: "good_sizes cfg"
    and t: "t \<noteq> []" "int (length t) \<le> read_buffer_size cfg"
      "sm_data m @ t = (render_fields fs @ CRLF @ txt) @ END_DATA"
      "quiet [] (butlast ((render_fields fs @ CRLF @ txt) @ END_DATA))"
      "int (length (render_fields fs @ CRLF @ txt) + 5) \<le> data_buffer_size cfg"
    and fs: "fs \<noteq> []" "list_all field_ok fs" "length fs \<le> HEADER_MAX_LEN"
    and bt: "no_nul txt" "txt = [] \<or> \<not> blank_char (hd txt)"
    and q: "pq_ready ref (lk_queue lk)" and ans: "\<forall>k. ans k \<noteq> -1"
  shows "\<exists>lk' calls ml. connection_handle cfg (Some ref) (Some t) ans lk = Some (Inr lk')
    \<and> mail_is ml fs (if length txt + 5 < BODY_MAX_LEN then txt else [])
    \<and> pq_ready ref (lk_queue lk') \<and> pq_items (lk_queue lk') =
        (if length (pq_items (lk_queue lk)) < pq_cap (lk_queue lk)
         then pq_items (lk_queue lk) @ [ml] else pq_items (lk_queue lk))
    \<and> lk_sent lk' = lk_sent lk @ calls \<and> concat (map fst calls) = map Some reply_queued
    \<and> close_result lk' \<and> cn_status (lk_conn lk') = CONN_INACTIVE \<and> lk_closed lk' = lk_closed lk + 1"
  using message_handled [OF assms] by blast

theorem handle_message_witness:
  "\<exists>lk' ml. connection_handle config_init (Some \<lparr>map_len = slot_addr 1\<rparr>)
      (Some ((''From: a'' @ CRLF @ CRLF @ ''hi'') @ END_DATA)) (\<lambda>_. 24)
      (open_link (request_init\<lparr>rq_in_data := True\<rparr>)) = Some (Inr lk')
    \<and> mail_is ml [(''From'', CHR '' '', ''a'', [])] ''hi'' \<and> pq_items (lk_queue lk') = [ml]"
proof -
  let ?fs = "[(''From'', CHR '' '', ''a'', [])]" and ?t = "(''From: a'' @ CRLF @ CRLF @ ''hi'') @ END_DATA"
  have m: "sm_in_data (smtp_start\<lparr>sm_in_data := True\<rparr>)" "sm_data (smtp_start\<lparr>sm_in_data := True\<rparr>) = []"
    by (simp_all add: smtp_start_def)
  have msg: "render_fields ?fs @ CRLF @ ''hi'' = ''From: a'' @ CRLF @ CRLF @ ''hi''" by simp
  have t: "?t \<noteq> []" "int (length ?t) \<le> read_buffer_size config_init"
    "sm_data (smtp_start\<lparr>sm_in_data := True\<rparr>) @ ?t = (render_fields ?fs @ CRLF @ ''hi'') @ END_DATA"
    "quiet [] (butlast ((render_fields ?fs @ CRLF @ ''hi'') @ END_DATA))"
    "int (length (render_fields ?fs @ CRLF @ ''hi'') + 5) \<le> data_buffer_size config_init"
    by (simp_all add: default_sizes m(2) END_DATA_def ends_data_def)
  have fs: "?fs \<noteq> []" "list_all field_ok ?fs" "length ?fs \<le> HEADER_MAX_LEN"
    "no_nul ''hi''" "''hi'' = [] \<or> \<not> blank_char (hd ''hi'')"
    by (simp_all add: blank_char_def max_len_defs)
  have q: "pq_ready \<lparr>map_len = slot_addr 1\<rparr> (lk_queue (open_link (request_init\<lparr>rq_in_data := True\<rparr>)))"
    and empty: "pq_items (lk_queue (open_link (request_init\<lparr>rq_in_data := True\<rparr>))) = []"
      "pq_cap (lk_queue (open_link (request_init\<lparr>rq_in_data := True\<rparr>))) = 1"
    using fresh_shared_inv [of 1 new_mail]
    by (simp_all add: pq_ready_def pq_items_def pq_cap_def open_link_def fresh_shared_def)
  have "length ''hi'' + 5 < BODY_MAX_LEN" by (simp add: max_len_defs)
  then show ?thesis
    using handle_message [OF open_link_data_refines m(1) default_sizes(1) t fs q, of "\<lambda>_. 24"] empty
    by auto
qed

text \<open>
  C14. Whatever state a connection is in, whatever the socket calls answer: if the handler
  returns without a fault, the connection waits for input, or it is inactive with its buffers,
  request and response freed.
\<close>

theorem handle_leaves_reading_or_inactive:
  assumes "connection_handle cfg ref rd ans lk = Some (Inr lk')"
  shows "close_result lk'"
proof -
  obtain conn lk1 lk2 where s: "start_stage cfg (lk_conn lk) = Inr conn"
    "read_stage cfg ref rd (lk\<lparr>lk_conn := conn\<rparr>) = Some (Inr lk1)"
    "write_stage cfg ans lk1 = Some (Inr lk2)" "lk' = close_stage lk2"
    using assms by (auto simp: connection_handle_def abind_eq_value_iff)
  have "cn_status (lk_conn lk1) \<noteq> CONN_STARTED"
    using read_stage_status [OF s(2)] start_stage_status [OF s(1)] by simp
  then show ?thesis unfolding s(4) using write_stage_status [OF s(3)] close_stage_result by blast
qed

theorem handle_leaves_reading_or_inactive_witness:
  "\<exists>lk'. connection_handle config_init None None (\<lambda>_. 0)
      ((open_link request_init)\<lparr>lk_conn := (lk_conn (open_link request_init))\<lparr>cn_status := CONN_CLOSED\<rparr>\<rparr>)
      = Some (Inr lk') \<and> close_result lk'"
proof -
  let ?lk = "(open_link request_init)\<lparr>lk_conn := (lk_conn (open_link request_init))\<lparr>cn_status := CONN_CLOSED\<rparr>\<rparr>"
  have "connection_handle config_init None None (\<lambda>_. 0) ?lk = Some (Inr (close_stage ?lk))"
    by (simp add: connection_handle_def start_stage_def read_stage_def write_stage_def)
  from this handle_leaves_reading_or_inactive [OF this] show ?thesis by blast
qed

text \<open>
  C15. Sending an answer. With a write buffer of positive size the sending loop ends, no call
  gets more than the buffer's size, and unless a call fails the calls together carry the
  answer; but what reaches the client is the answer only if every call took all its bytes: a
  call that takes fewer is not repeated for the rest.
\<close>

theorem send_response_complete:
  assumes "0 < write_buffer_size cfg" "response_holds resp s"
  shows "\<exists>calls ok. send_response cfg ans resp = Some (Inr (calls, ok))
    \<and> (ok \<longleftrightarrow> -1 \<notin> snd ` set calls)
    \<and> (\<forall>c \<in> set calls. int (length (fst c)) \<le> write_buffer_size cfg)
    \<and> (ok \<longrightarrow> concat (map fst calls) = map Some s)
    \<and> (ok \<longrightarrow> (\<forall>c \<in> set calls. snd c = int (length (fst c))) \<longrightarrow> on_wire calls = map Some s)
    \<and> (ok \<longrightarrow> (\<exists>c \<in> set calls. nat (snd c) < length (fst c)) \<longrightarrow> length (on_wire calls) < length s)"
proof -
  obtain calls ok where c: "send_response cfg ans resp = Some (Inr (calls, ok))"
    "ok \<longrightarrow> concat (map fst calls) = map Some s" "ok \<longleftrightarrow> -1 \<notin> snd ` set calls"
    "\<forall>c \<in> set calls. int (length (fst c)) \<le> write_buffer_size cfg"
    using send_response_returns [OF assms, of ans] by blast
  have part: "length (on_wire calls) < length s"
    if yes: "ok" and short: "\<exists>c \<in> set calls. nat (snd c) < length (fst c)"
  proof -
    obtain b r where "(b, r) \<in> set calls" "nat r < length b" using short by auto
    from on_wire_partial [OF this] show ?thesis using c(2) yes by simp
  qed
  show ?thesis
    by (intro exI [of _ calls] exI [of _ ok]) (use c part on_wire_full [of calls] in auto)
qed

definition resp_hello :: response where
  "resp_hello = \<lparr>rs_data_alloc = 6, rs_data_len = 5,
     rs_data = Some \<lparr>bsize = 6, cells = map Some (''hello'' @ [NUL])\<rparr>\<rparr>"

lemma resp_hello_holds: "response_holds resp_hello ''hello''"
  by (simp add: resp_hello_def response_holds_def blk_holds_def)

theorem send_response_complete_witness:
  "\<exists>calls. send_response (config_init\<lparr>write_buffer_size := 4\<rparr>) (\<lambda>_. 0) resp_hello = Some (Inr (calls, True))
    \<and> concat (map fst calls) = map Some ''hello'' \<and> length (on_wire calls) < 5"
proof -
  obtain calls ok where c: "send_response (config_init\<lparr>write_buffer_size := 4\<rparr>) (\<lambda>_. 0) resp_hello
      = Some (Inr (calls, ok))" "ok \<longleftrightarrow> -1 \<notin> snd ` set calls"
    "ok \<longrightarrow> concat (map fst calls) = map Some ''hello''"
    "ok \<longrightarrow> (\<exists>c \<in> set calls. nat (snd c) < length (fst c)) \<longrightarrow> length (on_wire calls) < length ''hello''"
    using send_response_complete [OF _ resp_hello_holds, of "config_init\<lparr>write_buffer_size := 4\<rparr>" "\<lambda>_. 0"]
    by auto
  have "send_response (config_init\<lparr>write_buffer_size := 4\<rparr>) (\<lambda>_. 0) resp_hello
      = Some (Inr ([(map Some ''hell'', 0), (map Some ''o'', 0)], True))"
    by (simp add: send_response_def resp_hello_def send_chunks.simps blk_slice_def cell_def upt_rec)
  then show ?thesis using c by auto
qed

text \<open>
  With a write buffer of size 0 (\<open>write-buffer-size = 0\<close>), the loop never ends once there
  is something to send and no call fails.
\<close>

theorem send_response_stuck:
  assumes "write_buffer_size cfg = 0" "response_holds resp s" "s \<noteq> []" "\<forall>k. ans k \<noteq> -1"
  shows "send_response cfg ans resp = None"
proof -
  obtain b where b: "rs_data resp = Some b" "blk_holds b s" "rs_data_len resp = length s"
    using assms(2,3) by (auto simp: response_holds_def dest: blk_holds_prefix split: option.splits)
  then show ?thesis using assms send_chunks_stuck [of ans 0 "length s" b 0 "[]"]
    by (simp add: send_response_def)
qed

theorem send_response_stuck_witness:
  "send_response (config_init\<lparr>write_buffer_size := 0\<rparr>) (\<lambda>_. 0) resp_hello = None"
  by (rule send_response_stuck [OF _ resp_hello_holds]) simp_all

section \<open>A message without a blank line\<close>

definition no_blank_line :: "string \<Rightarrow> bool" where
  "no_blank_line s \<longleftrightarrow> list_all (\<lambda>t. \<not> starts_with (CRLF @ CRLF) t) (tails s)"

lemma tails_suffix: "t \<noteq> [] \<Longrightarrow> t \<in> set (tails (pre @ t))"
  by (induction pre) (cases t; auto)+

lemma parse_char_done: "returns (\<lambda>st'. ps_done st' = ps_done st) (parse_char data cur st)"
  unfolding parse_char_def by (intro returns_rbind returns_if) simp_all

lemma no_blank_compare:
  assumes "blk_holds data d" "no_blank_line d" "last d = LF" "i < length d" "length d - i > 2"
  shows "strncmp_lit data i (CRLF @ CRLF) = Inr False"
proof -
  define pre t where "pre = take i d" and "t = drop i d"
  have d: "d = pre @ t" "length pre = i" "t \<noteq> []" using assms(4) by (simp_all add: pre_def t_def)
  have hd: "blk_holds data (pre @ t)" using assms(1) d(1) by simp
  show ?thesis
  proof (cases "4 \<le> length t")
    case True
    have "\<not> starts_with (CRLF @ CRLF) t"
      using assms(2) tails_suffix [OF d(3), of pre] by (simp add: no_blank_line_def list_all_iff d(1))
    then show ?thesis using strncmp_lit_holds [OF hd, of "CRLF @ CRLF"] True d(2) by simp
  next
    case False
    then have "length t = 3" using assms(5) by (simp add: t_def)
    then obtain a b c where t: "t = [a, b, c]" by (auto simp: numeral_3_eq_3 length_Suc_conv)
    then have "c = LF" using assms(3) d(1) by simp
    then have "blk_get data i = Inr a" "blk_get data (Suc i) = Inr b" "blk_get data (Suc (Suc i)) = Inr LF"
      using blk_holds_get [OF hd, of i] blk_holds_get [OF hd, of "Suc i"]
        blk_holds_get [OF hd, of "Suc (Suc i)"] d(2) by (simp_all add: t nth_append)
    then show ?thesis by simp
  qed
qed

lemma parse_char_advance: "returns (\<lambda>st'. ps_i st' \<le> ps_i st + 3) (parse_char data cur st)"
  unfolding parse_char_def by (intro returns_rbind returns_if) simp_all

lemma parse_char_small:
  assumes "blk_holds data (pre @ c # t)" "ps_i st = length pre" "c \<noteq> CR" "c \<noteq> CHR '':''"
  shows "returns (\<lambda>st'. ps_i st' = ps_i st + 1) (parse_char data c st)"
proof -
  note char = parse_char_ordinary [OF assms(1-3) disjI1 [OF assms(4)]]
  show ?thesis unfolding char by (intro returns_rbind returns_if) simp_all
qed

text \<open>
  Storing a byte leaves room behind it, so that a read behind the stored data is one of an unwritten
  byte of the block.
\<close>

lemma data_step_room:
  "data_step limit c req resp = Inr (req', resp', g) \<Longrightarrow> rq_data_len req' < rq_data_alloc req'"
proof -
  assume step: "data_step limit c req resp = Inr (req', resp', g)"
  obtain r where r: "data_grow req = Inr r" using step by (auto simp: data_step_def rbind_eq_Inr_iff)
  then have "rq_data_len r + 2 < rq_data_alloc r"
    by (auto simp: data_grow_def Let_def rbind_eq_Inr_iff split: if_splits)
  then show ?thesis using step r
    by (auto simp: data_step_def Let_def rbind_eq_Inr_iff split: if_splits option.splits)
qed

lemma cmd_step_data:
  "cmd_step buf i req resp = Inr (k, req', resp') \<Longrightarrow>
     rq_data_len req' = rq_data_len req \<and> rq_data_alloc req' = rq_data_alloc req"
  by (auto simp: cmd_step_def rbind_eq_Inr_iff split: if_splits)

lemma request_loop_room:
  "request_loop limit buf n i req resp status = Inr (req', resp', status') \<Longrightarrow>
     rq_data_len req < rq_data_alloc req \<or> rq_in_data req \<and> i < n \<Longrightarrow> rq_data_len req' < rq_data_alloc req'"
proof (induction limit buf n i req resp status rule: request_loop.induct)
  case (1 limit buf n i req resp status)
  show ?case
  proof (cases "i < n")
    case False
    then show ?thesis using "1.prems" by (simp add: request_loop.simps [of limit buf n i])
  next
    case True
    obtain c where c: "blk_get buf i = Inr c"
      using "1.prems"(1) True by (subst (asm) request_loop.simps) (auto simp: rbind_eq_Inr_iff)
    show ?thesis
    proof (cases "rq_in_data req")
      case False
      then obtain k r rs where k: "cmd_step buf i req resp = Inr (k, r, rs)"
        "request_loop limit buf n (Suc (i + k)) r rs status = Inr (req', resp', status')"
        using "1.prems"(1) True c by (subst (asm) request_loop.simps) (auto simp: rbind_eq_Inr_iff)
      have "rq_data_len r < rq_data_alloc r" using cmd_step_data [OF k(1)] "1.prems"(2) False by simp
      then show ?thesis using "1.IH"(1) [OF True c False k(1) refl refl k(2)] by blast
    next
      case data: True
      then obtain r rs g where g: "data_step limit c req resp = Inr (r, rs, g)"
        "(if g then request_loop limit buf n (Suc i) r rs status else Inr (r, rs, CONN_ERROR)) = Inr (req', resp', status')"
        using "1.prems"(1) True c by (subst (asm) request_loop.simps) (auto simp: rbind_eq_Inr_iff)
      note room = data_step_room [OF g(1)]
      show ?thesis
      proof (cases g)
        case True
        then show ?thesis using "1.IH"(2) [OF \<open>i < n\<close> c _ g(1) refl refl] data g(2) room by simp
      next
        case False
        then show ?thesis using g(2) room by simp
      qed
    qed
  qed
qed

text \<open>The parser either goes on or reads an unwritten byte, as long as there are not too many lines.\<close>

definition uninit_or :: "('a \<Rightarrow> bool) \<Rightarrow> 'a res \<Rightarrow> bool" where
  "uninit_or P r \<longleftrightarrow> (case r of Inl e \<Rightarrow> e = Uninit_Read | Inr x \<Rightarrow> P x)"

lemma uninit_or_simps [simp]: "uninit_or P (Inl e) \<longleftrightarrow> e = Uninit_Read" "uninit_or P (Inr x) \<longleftrightarrow> P x"
  by (simp_all add: uninit_or_def)

lemma uninit_or_rbind: "uninit_or Q m \<Longrightarrow> (\<And>x. Q x \<Longrightarrow> uninit_or P (f x)) \<Longrightarrow> uninit_or P (rbind m f)"
  by (cases m) simp_all

lemma compare_stored:
  "blk_exact b d \<Longrightarrow> length d < bsize b \<Longrightarrow> i \<le> length d \<Longrightarrow> uninit_or (\<lambda>x. True) (strncmp_lit b i lit)"
proof (induction lit arbitrary: i)
  case (Cons c lit)
  show ?case
  proof (cases "i < length d")
    case True
    then have "blk_get b i = Inr (d ! i)" using blk_holds_get [OF blk_exact_holds [OF Cons.prems(1)]] by simp
    then show ?thesis using Cons.IH [of "Suc i"] Cons.prems True by simp
  next
    case False
    then have "blk_get b i = Inl Uninit_Read" using Cons.prems by (simp add: blk_get_def blk_exact_def cell_def)
    then show ?thesis by simp
  qed
qed simp

definition parse_fine :: "string \<Rightarrow> parse_state \<Rightarrow> bool" where
  "parse_fine u st \<longleftrightarrow> hdrs_sized (ps_headers st)
     \<and> ps_cur_len st < (if ps_is_key st then KEY_MAX_LEN else VALUE_MAX_LEN)
     \<and> ps_header_count st + count_list (drop (ps_i st) u) CR < HEADER_MAX_LEN"

lemma put_sized:
  assumes "hdrs_sized hs" "j < HEADER_MAX_LEN"
  shows "off < KEY_MAX_LEN \<Longrightarrow> uninit_or hdrs_sized (put_key hs j off c)"
    and "off < VALUE_MAX_LEN \<Longrightarrow> uninit_or hdrs_sized (put_value hs j off c)"
  using assms hdrs_sized_nth [OF assms]
  by (auto simp: put_key_def put_value_def hdrs_sized_length blk_copy_def hdr_sized_def intro!: hdrs_sized_update)

lemma count_list_drop: "count_list (drop k xs) c \<le> count_list xs c"
  by (metis append_take_drop_id count_list_append le_add2)

lemma count_list_further: "i \<le> j \<Longrightarrow> count_list (drop j u) c \<le> count_list (drop i u) c"
  using count_list_drop [of "j - i" "drop i u" c] by simp

lemma parse_char_fine:
  assumes fine: "parse_fine u st" and data: "blk_exact data d" "length d < bsize data" "d = u @ r" "ps_i st < length d"
    and c: "c = d ! ps_i st" "ps_i st < length u \<or> c \<noteq> CR"
  shows "uninit_or (parse_fine u) (parse_char data c st)"
proof -
  have st: "hdrs_sized (ps_headers st)" "ps_header_count st < HEADER_MAX_LEN"
    "ps_cur_len st < (if ps_is_key st then KEY_MAX_LEN else VALUE_MAX_LEN)"
    using fine by (auto simp: parse_fine_def)
  note puts = put_sized [OF st(1,2)]
  have further: "ps_header_count st + count_list (drop j u) CR < HEADER_MAX_LEN" if "ps_i st \<le> j" for j
    using fine count_list_further [OF that, of u CR] by (simp add: parse_fine_def)
  have last_cr: "Suc (ps_header_count st) + count_list (drop (ps_i st + 2) u) CR < HEADER_MAX_LEN" if "c = CR"
  proof -
    have i: "ps_i st < length u" "u ! ps_i st = CR" using c that data(3) by (auto simp: nth_append)
    then have "count_list (drop (ps_i st) u) CR = Suc (count_list (drop (Suc (ps_i st)) u) CR)"
      by (simp add: Cons_nth_drop_Suc [symmetric])
    then show ?thesis using fine count_list_further [of "Suc (ps_i st)" "ps_i st + 2" u CR] by (simp add: parse_fine_def)
  qed
  have compare: "uninit_or (\<lambda>x. True) (strncmp_lit data (ps_i st) lit)" for lit
    using compare_stored [OF data(1,2)] data(4) by simp
  have small: "KEY_MAX_LEN \<le> VALUE_MAX_LEN" "0 < KEY_MAX_LEN" "0 < VALUE_MAX_LEN" by (simp_all add: max_len_defs)
  show ?thesis
  proof (cases "c = CHR '':'' \<and> ps_is_key st")
    case True
    then show ?thesis unfolding parse_char_def
      by (simp, intro uninit_or_rbind [OF puts(1)]) (use st(3) further small in \<open>simp_all add: parse_fine_def\<close>)
  next
    case False
    have cur: "uninit_or (parse_fine u)
       (if c = CR then
         rbind (if ps_header_count st < HEADER_MAX_LEN
                then put_value (ps_headers st) (ps_header_count st) (ps_cur_len st) NUL
                else Inr (ps_headers st)) (\<lambda>hs.
           Inr (st\<lparr>ps_headers := hs, ps_cur_len := 0, ps_is_key := True,
                   ps_header_count := ps_header_count st + 1, ps_i := ps_i st + 2\<rparr>))
       else if c = NUL then Inr (st\<lparr>ps_i := ps_i st + 1\<rparr>)
       else if ps_is_key st then
         (if c \<noteq> CHR '' '' \<and> ps_cur_len st < KEY_MAX_LEN - 1
          then rbind (put_key (ps_headers st) (ps_header_count st) (ps_cur_len st) c) (\<lambda>hs.
                 Inr (st\<lparr>ps_headers := hs, ps_cur_len := ps_cur_len st + 1, ps_i := ps_i st + 1\<rparr>))
          else Inr (st\<lparr>ps_i := ps_i st + 1\<rparr>))
       else
         (if ps_cur_len st < VALUE_MAX_LEN - 1
          then rbind (put_value (ps_headers st) (ps_header_count st) (ps_cur_len st) c) (\<lambda>hs.
                 Inr (st\<lparr>ps_headers := hs, ps_cur_len := ps_cur_len st + 1, ps_i := ps_i st + 1\<rparr>))
          else Inr (st\<lparr>ps_i := ps_i st + 1\<rparr>)))"
      (is "uninit_or _ (if _ then ?cr else if _ then ?nul else if _ then (if _ then ?key else ?skip) else (if _ then ?val else ?skip))")
    proof -
      have "uninit_or (parse_fine u) ?cr" if "c = CR"
        using st small last_cr [OF that]
        by (simp, intro uninit_or_rbind [OF puts(2)]) (auto simp: parse_fine_def split: if_splits)
      moreover have "parse_fine u (st\<lparr>ps_i := ps_i st + 1\<rparr>)" using fine further [of "ps_i st + 1"] by (simp add: parse_fine_def)
      moreover have "uninit_or (parse_fine u) ?key" if "ps_is_key st" "ps_cur_len st < KEY_MAX_LEN - 1"
        by (intro uninit_or_rbind [OF puts(1)]) (use that further [of "ps_i st + 1"] in \<open>simp_all add: parse_fine_def\<close>)
      moreover have "uninit_or (parse_fine u) ?val" if "\<not> ps_is_key st" "ps_cur_len st < VALUE_MAX_LEN - 1"
        by (intro uninit_or_rbind [OF puts(2)]) (use that further [of "ps_i st + 1"] in \<open>simp_all add: parse_fine_def\<close>)
      ultimately show ?thesis by simp
    qed
    have fold: "parse_fine u (st\<lparr>ps_i := ps_i st + 3\<rparr>)" using fine further [of "ps_i st + 3"] by (simp add: parse_fine_def)
    have "uninit_or (\<lambda>x. True) (if tab then Inr True else strncmp_lit data (ps_i st) (CRLF @ '' ''))" for tab
      using compare [of "CRLF @ '' ''"] by (cases tab) (simp_all del: strncmp_lit.simps)
    note second = uninit_or_rbind [OF this]
    show ?thesis unfolding parse_char_def if_not_P [OF False]
      by (intro uninit_or_rbind [OF compare] second) (use fold cur in \<open>auto split: if_splits simp del: strncmp_lit.simps\<close>)
  qed
qed

text \<open>How a stored message ends, after its NUL, and that the loop comes by its last CR.\<close>

lemma parse_loop_bodyless:
  assumes data: "blk_exact data d" "length d < bsize data" "no_blank_line d" "d = u @ [NUL, LF, CHR ''.'', CR, LF]"
  shows "\<not> ps_done st \<Longrightarrow> ps_i st \<le> length u + 3 \<Longrightarrow> parse_fine u st \<Longrightarrow> parse_loop data (length d) st = Inl Uninit_Read"
proof (induction "length d - ps_i st" arbitrary: st rule: less_induct)
  case less
  have len: "length d = length u + 5" and last: "last d = LF" using data(4) by simp_all
  have i: "ps_i st < length d" using less.prems(2) len by simp
  have holds: "blk_holds data d" using data(1) by (rule blk_exact_holds)
  obtain c where c: "blk_get data (ps_i st) = Inr c" "c = d ! ps_i st"
    using blk_holds_get [OF holds i] by blast
  have blank: "(if length d - ps_i st > 2 then strncmp_lit data (ps_i st) (CRLF @ CRLF) else Inr False)
      = Inr False"
    using no_blank_compare [OF holds data(3) last i] by simp
  have step: "parse_step data (length d) st = parse_char data c st"
    using blank c(1) by (simp add: parse_step_def del: strncmp_lit.simps)
  have split: "d = take (ps_i st) d @ c # drop (Suc (ps_i st)) d" "length (take (ps_i st) d) = ps_i st"
    using i c(2) by (simp_all add: id_take_nth_drop)
  show ?case
  proof (cases "ps_i st = length u + 3")
    case True
    have "c = CR" using c(2) True data(4) by (simp add: nth_append)
    moreover have "blk_get data (Suc (ps_i st)) = Inr LF"
      using blk_holds_get [OF holds, of "Suc (ps_i st)"] True len data(4) by (simp add: nth_append)
    moreover have "blk_get data (Suc (Suc (ps_i st))) = Inl Uninit_Read"
      using data(1,2) True len by (simp add: blk_get_def blk_exact_def cell_def)
    ultimately have "parse_char data c st = Inl Uninit_Read" using c(1) by (simp add: parse_char_def)
    then show ?thesis using run_step [OF i less.prems(1) step] by simp
  next
    case False
    have small: "c \<noteq> CR \<and> c \<noteq> CHR '':''" if "\<not> ps_i st < length u"
    proof -
      have "ps_i st = length u \<or> ps_i st = length u + 1 \<or> ps_i st = length u + 2"
        using that le_neq_implies_less [OF less.prems(2) False] by linarith
      then show ?thesis by (elim disjE) (simp_all add: c(2) data(4) nth_append)
    qed
    have "returns (\<lambda>st'. ps_i st' \<le> length u + 3) (parse_char data c st)"
    proof (cases "ps_i st < length u")
      case True
      show ?thesis using parse_char_advance [of st data c] True
        by (cases "parse_char data c st") auto
    next
      case end': False
      then have "returns (\<lambda>st'. ps_i st' = ps_i st + 1) (parse_char data c st)"
        using parse_char_small [of data "take (ps_i st) d" c "drop (Suc (ps_i st)) d" st] holds split small by simp
      then show ?thesis using False less.prems(2) by (cases "parse_char data c st") auto
    qed
    moreover have "returns (\<lambda>st'. ps_done st' = ps_done st) (parse_char data c st)"
      by (rule parse_char_done)
    moreover have "returns (\<lambda>st'. ps_i st < ps_i st') (parse_char data c st)"
      by (rule parse_char_returns)
    moreover have "uninit_or (parse_fine u) (parse_char data c st)"
      by (rule parse_char_fine [OF less.prems(3) data(1,2,4) i c(2)]) (use small in blast)
    ultimately show ?thesis
      using run_step [OF i less.prems(1) step] less.hyps i less.prems(1)
      by (cases "parse_char data c st") (auto intro: diff_less_mono2)
  qed
qed

lemma parse_data_bodyless:
  assumes "data_holds req (stored_message msg)" "rq_data_len req < rq_data_alloc req" "hdrs_sized (rq_headers req)"
    and "no_blank_line (stored_message msg)" "count_list msg CR < HEADER_MAX_LEN"
  shows "request_parse_data req = Inl Uninit_Read"
proof -
  obtain b where b: "rq_data req = Some b" "blk_exact b (stored_message msg)"
    "rq_data_len req = length (stored_message msg)" "length (stored_message msg) < bsize b"
    using assms(1,2) by (auto simp: data_holds_def stored_message_def split: option.splits)
  have "parse_fine msg (parse_start req)" using assms(3,5) by (simp add: parse_fine_def parse_start_def max_len_defs)
  then have "parse_loop b (length (stored_message msg)) (parse_start req) = Inl Uninit_Read"
    using parse_loop_bodyless [OF b(2,4) assms(4), of msg "parse_start req"]
    by (auto simp: parse_start_def stored_message_def)
  then show ?thesis using b by (simp add: request_parse_data_def Let_def parse_start_def)
qed

lemma bodyless_handled:
  assumes lk: "link_refines lk m" "sm_in_data m" and sizes: "good_sizes cfg"
    and t: "t \<noteq> []" "int (length t) \<le> read_buffer_size cfg" "sm_data m @ t = msg @ END_DATA"
      "quiet [] (butlast (msg @ END_DATA))" "int (length msg + 5) \<le> data_buffer_size cfg"
    and nb: "no_blank_line (stored_message msg)" "count_list msg CR < HEADER_MAX_LEN"
  shows "connection_handle cfg ref (Some t) ans lk = Some (Inl Uninit_Read)"
proof -
  obtain req resp conn where r: "read_socket cfg (Some t) (lk_conn lk) = Inr conn"
    "received conn req resp t" "cn_status conn = CONN_READING" "request_refines req resp m"
    "hdrs_sized (rq_headers req)"
    using read_socket_received [OF lk(1) _ t(1,2)] sizes by (auto simp: good_sizes_def)
  have m: "\<not> sm_error m" using lk by (simp add: link_refines_def)
  note fin = smtp_scan_finish [OF lk(2) m t(3,1,4,5)]
  let ?m = "m\<lparr>sm_data := stored_message msg, sm_out := sm_out m @ reply_queued,
       sm_in_data := False, sm_process := True, sm_quit := True\<rparr>"
  from parse_commands_loop [OF r(2) fin(1) r(4) m r(3)] obtain req1 resp1 where p:
    "request_parse_commands cfg conn = Inr (conn\<lparr>cn_request := Some req1,
       cn_response := Some resp1, cn_status := CONN_READING\<rparr>, 0)"
    "request_refines req1 resp1 ?m" "same_message req req1"
    using m by (auto simp: fin(2) Let_def)
  have d: "data_holds req1 (stored_message msg)" "rq_process req1" "hdrs_sized (rq_headers req1)"
    using p(2,3) r(5) by (simp_all add: request_refines_def same_message_def)
  have in_data: "rq_in_data req" using r(4) lk(2) by (simp add: request_refines_def)
  obtain buf a b status where loop: "request_loop (data_buffer_size cfg) buf (cn_buffer_len conn) 0 req resp (cn_status conn)
      = Inr (a, b, status)" "conn\<lparr>cn_request := Some a, cn_response := Some b, cn_status := status\<rparr>
      = conn\<lparr>cn_request := Some req1, cn_response := Some resp1, cn_status := CONN_READING\<rparr>" "0 < cn_buffer_len conn"
    using p(1) r(2) t(1) by (auto simp: request_parse_commands_def received_def rbind_eq_Inr_iff)
  have "a = req1" using arg_cong [OF loop(2), of cn_request] by simp
  then have "rq_data_len req1 < rq_data_alloc req1" using request_loop_room [OF loop(1)] loop(3) in_data by simp
  then have "request_parse_data req1 = Inl Uninit_Read" by (rule parse_data_bodyless [OF d(1) _ d(3) nb])
  then show ?thesis using lk(1) r(1-3) p(1) t(1) d(2)
    by (simp add: connection_handle_def start_stage_def read_stage_def link_refines_def received_def
        process_message_def)
qed

text \<open>
  C13. A message without a blank line and with fewer than 20 lines, in particular every message of so
  many header fields with an empty body (the end mark then begins with the CR LF of the blank line). The
  parser takes the fields, runs on to the last byte of the data and then reads the byte behind it,
  which is inside its block and which nothing has written.
\<close>

theorem bodyless_message_faults:
  assumes lk: "link_refines lk m" "sm_in_data m" and sizes: "good_sizes cfg"
    and t: "t \<noteq> []" "int (length t) \<le> read_buffer_size cfg" "sm_data m @ t = msg @ END_DATA"
      "quiet [] (butlast (msg @ END_DATA))" "int (length msg + 5) \<le> data_buffer_size cfg"
    and nb: "no_blank_line (stored_message msg)" "count_list msg CR < HEADER_MAX_LEN"
  shows "connection_handle cfg ref (Some t) ans lk = Some (Inl Uninit_Read)"
  by (rule bodyless_handled [OF assms])

theorem bodyless_message_faults_witness:
  "connection_handle config_init None (Some ((''a: b'' @ CRLF) @ END_DATA)) (\<lambda>_. 24)
      (open_link (request_init\<lparr>rq_in_data := True\<rparr>)) = Some (Inl Uninit_Read)"
proof -
  let ?t = "(''a: b'' @ CRLF) @ END_DATA"
  have m: "sm_in_data (smtp_start\<lparr>sm_in_data := True\<rparr>)" "sm_data (smtp_start\<lparr>sm_in_data := True\<rparr>) = []"
    by (simp_all add: smtp_start_def)
  have t: "?t \<noteq> []" "int (length ?t) \<le> read_buffer_size config_init"
    "sm_data (smtp_start\<lparr>sm_in_data := True\<rparr>) @ ?t = (''a: b'' @ CRLF) @ END_DATA"
    "quiet [] (butlast ((''a: b'' @ CRLF) @ END_DATA))"
    "int (length (''a: b'' @ CRLF) + 5) \<le> data_buffer_size config_init"
    by (simp_all add: default_sizes m(2) END_DATA_def ends_data_def)
  have nb: "no_blank_line (stored_message (''a: b'' @ CRLF))" "count_list (''a: b'' @ CRLF) CR < HEADER_MAX_LEN"
    by (simp_all add: no_blank_line_def stored_message_def max_len_defs)
  show ?thesis
    by (rule bodyless_message_faults [OF open_link_data_refines m(1) default_sizes(1) t nb])
qed

end
