(* ===== verification/String_Buffer.thy ===== *)
theory String_Buffer
  imports Prelude
begin

text \<open>
  \<^verbatim>\<open>src/mailhandler/string_buffer.c\<close>: the buffer in which the mail handler puts together its
  JSON text. It grows by a fixed chunk, whatever is appended: \<open>string_buffer_append_correct\<close>
  shows when that is not enough. Its interface is \<open>append_buffer\<close>, for pieces of at most one
  chunk.
\<close>

definition STRING_BUFFER_CHUNK_SIZE :: nat where "STRING_BUFFER_CHUNK_SIZE = 512"

record string_buffer =
  sb_str :: "block option"
  sb_alloc_size :: nat
  sb_size :: nat

definition string_buffer_init :: string_buffer where
  "string_buffer_init = \<lparr>sb_str = None, sb_alloc_size = 0, sb_size = 0\<rparr>"

definition string_buffer_grow :: "string_buffer \<Rightarrow> string_buffer res" where
  "string_buffer_grow sb =
     rbind (case sb_str sb of
              None \<Rightarrow> Inr (malloc (sb_alloc_size sb + STRING_BUFFER_CHUNK_SIZE + 1))
            | Some b \<Rightarrow> rbind (blk_slice b 0 (sb_size sb))
                (blk_copy (malloc (sb_alloc_size sb + STRING_BUFFER_CHUNK_SIZE + 1)) 0)) (\<lambda>new.
       Inr (sb\<lparr>sb_str := Some new, sb_alloc_size := sb_alloc_size sb + STRING_BUFFER_CHUNK_SIZE\<rparr>))"

definition string_buffer_append :: "string_buffer \<Rightarrow> string \<Rightarrow> string_buffer res" where
  "string_buffer_append sb val =
     (let val_len = length val in
      if val_len > 0 then
        rbind (if int val_len \<ge> int (sb_alloc_size sb) - int (sb_size sb)
               then string_buffer_grow sb else Inr sb) (\<lambda>sb.
        case sb_str sb of
          None \<Rightarrow> Inl Null_Deref
        | Some b \<Rightarrow>
            rbind (blk_copy b (sb_size sb) (map Some val)) (\<lambda>b.
            rbind (blk_set b (sb_size sb + val_len) NUL) (\<lambda>b.
              Inr (sb\<lparr>sb_str := Some b, sb_size := sb_size sb + val_len\<rparr>))))
      else Inr sb)"

definition string_buffer_free :: "string_buffer \<Rightarrow> string_buffer option" where
  "string_buffer_free sb = None"

definition sb_holds :: "string_buffer \<Rightarrow> string \<Rightarrow> bool" where
  "sb_holds sb s \<longleftrightarrow> sb_size sb = length s \<and> length s \<le> sb_alloc_size sb \<and>
     (case sb_str sb of
        None \<Rightarrow> s = [] \<and> sb_alloc_size sb = 0
      | Some b \<Rightarrow> bsize b = sb_alloc_size sb + 1 \<and> blk_holds b (s @ [NUL]))"

lemma string_buffer_grow_holds:
  assumes "sb_holds sb s"
  shows "\<exists>sb' b. string_buffer_grow sb = Inr sb' \<and> sb_str sb' = Some b \<and> blk_holds b s
    \<and> sb_alloc_size sb' = sb_alloc_size sb + STRING_BUFFER_CHUNK_SIZE
    \<and> bsize b = sb_alloc_size sb' + 1 \<and> sb_size sb' = length s"
proof (cases "sb_str sb")
  case None
  then show ?thesis using assms by (simp add: string_buffer_grow_def sb_holds_def)
next
  case (Some b)
  let ?m = "malloc (sb_alloc_size sb + STRING_BUFFER_CHUNK_SIZE + 1)"
  have b: "blk_slice b 0 (length s) = Inr (map Some s)" "length s \<le> sb_alloc_size sb"
    using assms Some by (auto simp: sb_holds_def blk_holds_slice dest: blk_holds_prefix)
  then obtain b' where "blk_copy ?m 0 (map Some s) = Inr b'" "blk_holds b' s" "bsize b' = bsize ?m"
    using blk_holds_append [of ?m "[]" s] by auto
  then show ?thesis using assms Some b by (simp add: string_buffer_grow_def sb_holds_def)
qed

lemma string_buffer_append_room:
  assumes "sb_holds sb s" "length d \<le> sb_alloc_size sb - length s + STRING_BUFFER_CHUNK_SIZE"
  shows "\<exists>sb'. string_buffer_append sb d = Inr sb' \<and> sb_holds sb' (s @ d)"
proof (cases "d = []")
  case True
  then show ?thesis using assms by (simp add: string_buffer_append_def)
next
  case False
  have size: "sb_size sb = length s" "length s \<le> sb_alloc_size sb"
    using assms(1) by (simp_all add: sb_holds_def)
  have "\<exists>sb1 b. (if int (length d) \<ge> int (sb_alloc_size sb) - int (sb_size sb)
       then string_buffer_grow sb else Inr sb) = Inr sb1 \<and> sb_str sb1 = Some b \<and> blk_holds b s
     \<and> bsize b = sb_alloc_size sb1 + 1 \<and> sb_size sb1 = length s
     \<and> length s + length d \<le> sb_alloc_size sb1"
  proof (cases "int (length d) \<ge> int (sb_alloc_size sb) - int (sb_size sb)")
    case True
    then show ?thesis using string_buffer_grow_holds [OF assms(1)] assms(2) size by fastforce
  next
    case small: False
    then obtain b where "sb_str sb = Some b" using assms(1) False
      by (auto simp: sb_holds_def split: option.splits)
    then show ?thesis using small assms(1) size
      by (auto simp: sb_holds_def dest: blk_holds_prefix)
  qed
  then obtain sb1 b where sb1: "(if int (length d) \<ge> int (sb_alloc_size sb) - int (sb_size sb)
       then string_buffer_grow sb else Inr sb) = Inr sb1" "sb_str sb1 = Some b" "blk_holds b s"
     "bsize b = sb_alloc_size sb1 + 1" "sb_size sb1 = length s" "length s + length d \<le> sb_alloc_size sb1"
    by blast
  obtain b2 where b2: "blk_copy b (length s) (map Some d) = Inr b2" "blk_holds b2 (s @ d)" "bsize b2 = bsize b"
    using blk_holds_append [OF sb1(3), of d] sb1 by auto
  obtain b3 where b3: "blk_set b2 (length s + length d) NUL = Inr b3" "blk_holds b3 ((s @ d) @ [NUL])"
    "bsize b3 = bsize b2"
    using blk_holds_append [OF b2(2), of "[NUL]"] b2(3) sb1 by auto
  then show ?thesis using False sb1 b2
    by (simp add: string_buffer_append_def Let_def sb_holds_def)
qed

interpretation str_buffer: append_buffer string_buffer_init string_buffer_append sb_holds
    "\<lambda>d. length d \<le> STRING_BUFFER_CHUNK_SIZE"
proof unfold_locales
  show "sb_holds string_buffer_init []"
    by (simp add: sb_holds_def string_buffer_init_def)
next
  fix b s and d :: string
  assume "sb_holds b s" "length d \<le> STRING_BUFFER_CHUNK_SIZE"
  then show "\<exists>b'. string_buffer_append b d = Inr b' \<and> sb_holds b' (s @ d)"
    by (intro string_buffer_append_room) simp_all
qed

lemma string_buffer_append_overflow:
  assumes "sb_holds sb s" "sb_alloc_size sb - length s + STRING_BUFFER_CHUNK_SIZE < length d"
  shows "string_buffer_append sb d = Inl Out_Of_Bounds"
proof -
  have size: "sb_size sb = length s" "length s \<le> sb_alloc_size sb"
    using assms(1) by (simp_all add: sb_holds_def)
  obtain sb1 b where g: "string_buffer_grow sb = Inr sb1" "sb_str sb1 = Some b" "blk_holds b s"
    "sb_alloc_size sb1 = sb_alloc_size sb + STRING_BUFFER_CHUNK_SIZE"
    "bsize b = sb_alloc_size sb1 + 1" "sb_size sb1 = length s"
    using string_buffer_grow_holds [OF assms(1)] by blast
  have d: "d \<noteq> []" "int (length d) \<ge> int (sb_alloc_size sb) - int (sb_size sb)"
    using assms(2) size by auto
  show ?thesis
  proof (cases "length s + length d \<le> bsize b")
    case True
    then have full: "length s + length d = bsize b" using assms(2) g(4,5) size by linarith
    obtain b2 where "blk_copy b (length s) (map Some d) = Inr b2" "bsize b2 = bsize b"
      using blk_holds_append [OF g(3), of d] True by auto
    moreover have "blk_set b2 (length s + length d) NUL = Inl Out_Of_Bounds"
      by (rule blk_copy_fault) (simp add: \<open>bsize b2 = bsize b\<close> full)
    ultimately show ?thesis using d g by (simp add: string_buffer_append_def Let_def)
  next
    case False
    then have "blk_copy b (length s) (map Some d) = Inl Out_Of_Bounds" by (intro blk_copy_fault) simp
    then show ?thesis using d g by (simp add: string_buffer_append_def Let_def)
  qed
qed

text \<open>
  C28. On a well-formed buffer that holds \<open>s\<close>, appending \<open>d\<close> appends it, terminated and within
  the buffer, exactly where \<open>d\<close> is no longer than the free space and one chunk; any longer
  string is written behind the block. In particular the buffer takes every sequence of
  strings of at most one chunk.
\<close>

theorem string_buffer_append_correct:
  assumes "sb_holds sb s"
  shows "(if length d \<le> sb_alloc_size sb - length s + STRING_BUFFER_CHUNK_SIZE
      then \<exists>sb'. string_buffer_append sb d = Inr sb' \<and> sb_holds sb' (s @ d)
      else string_buffer_append sb d = Inl Out_Of_Bounds)
    \<and> (list_all (\<lambda>d. length d \<le> STRING_BUFFER_CHUNK_SIZE) ds \<longrightarrow>
        (\<exists>sb'. app_list string_buffer_append sb ds = Inr sb' \<and> sb_holds sb' (s @ concat ds)))"
  using string_buffer_append_room [OF assms, of d] string_buffer_append_overflow [OF assms, of d]
    str_buffer.app_list_holds [OF assms, of ds] by auto

theorem string_buffer_append_correct_witness:
  "string_buffer_append string_buffer_init (replicate 513 CHR ''x'') = Inl Out_Of_Bounds
   \<and> (\<exists>sb'. app_list string_buffer_append string_buffer_init [''a'', ''b''] = Inr sb' \<and> sb_holds sb' ''ab'')"
proof -
  have "sb_holds string_buffer_init []" by (rule str_buffer.holds_new)
  from string_buffer_append_correct [OF this, of "replicate 513 CHR ''x''" "[''a'', ''b'']"]
  show ?thesis by (simp add: string_buffer_init_def STRING_BUFFER_CHUNK_SIZE_def)
qed

end
