(* ===== verification/Cache_Trie.thy ===== *)
theory Cache_Trie
  imports Prelude "HOL-Library.Sublist"
begin

text \<open>
  \<^verbatim>\<open>src/cache.c\<close>: a trie over the bytes of a key, from its last byte to its first, with 256
  children a node. A key is a byte array and a length, as in the calls. The child of a byte
  from 128 on is the child 255, since the bytes are signed and the index is taken from the
  byte converted to \<open>unsigned int\<close>.

  The key of \<open>cache_add\<close> is the content of a C string, that is its bytes before the NUL, whose number is
  its \<open>strlen\<close>; a value is a pointer other than NULL.

  The interface of the component is the locale \<open>keyed_store\<close>: a lookup answers with what was
  stored last under the same path. \<open>used\<close>, \<open>max\<close> and \<open>size\<close> of the structs are not read by any
  operation but \<open>cache_init\<close>; the \<open>printf\<close> calls are left out.
\<close>

section \<open>The interface\<close>

text \<open>
  A store under keys, where two keys may be the same to it: \<open>path\<close> is what it distinguishes.
\<close>

locale keyed_store =
  fixes empty_store :: 's
    and put :: "'s \<Rightarrow> 'k \<Rightarrow> 'v \<Rightarrow> 's res"
    and get :: "'s \<Rightarrow> 'k \<Rightarrow> 'v option res"
    and ok :: "'s \<Rightarrow> bool"
    and key_ok :: "'k \<Rightarrow> bool"
    and path :: "'k \<Rightarrow> 'p"
  assumes ok_empty: "ok empty_store"
    and put_ok: "ok s \<Longrightarrow> key_ok k \<Longrightarrow> \<exists>s'. put s k v = Inr s' \<and> ok s'"
    and get_ok: "ok s \<Longrightarrow> key_ok k \<Longrightarrow> \<exists>r. get s k = Inr r"
    and get_empty: "key_ok k \<Longrightarrow> get empty_store k = Inr None"
    and get_put: "ok s \<Longrightarrow> key_ok k \<Longrightarrow> key_ok k' \<Longrightarrow> put s k v = Inr s' \<Longrightarrow>
      get s' k' = (if path k = path k' then Inr (Some v) else get s k')"
begin

fun put_all :: "'s \<Rightarrow> ('k \<times> 'v) list \<Rightarrow> 's res" where
  "put_all s [] = Inr s"
| "put_all s ((k, v) # kvs) = rbind (put s k v) (\<lambda>s. put_all s kvs)"

text \<open>After any entries, a lookup answers as the list of them, the last one first, would.\<close>

lemma put_all_get:
  "ok s \<Longrightarrow> list_all (\<lambda>kv. key_ok (fst kv)) kvs \<Longrightarrow> key_ok k' \<Longrightarrow>
   \<exists>s'. put_all s kvs = Inr s' \<and> ok s' \<and> get s' k' =
     (case map_of (rev (map (\<lambda>(k, v). (path k, v)) kvs)) (path k') of
        None \<Rightarrow> get s k' | Some v \<Rightarrow> Inr (Some v))"
proof (induction kvs arbitrary: s)
  case Nil
  then show ?case by simp
next
  case (Cons kv kvs)
  obtain k v where kv: "kv = (k, v)" by fastforce
  obtain s1 where s1: "put s k v = Inr s1" "ok s1"
    using put_ok Cons.prems kv by fastforce
  obtain s' where "put_all s1 kvs = Inr s'" "ok s'" "get s' k' =
     (case map_of (rev (map (\<lambda>(k, v). (path k, v)) kvs)) (path k') of
        None \<Rightarrow> get s1 k' | Some v \<Rightarrow> Inr (Some v))"
    using Cons.IH [OF s1(2)] Cons.prems by auto
  moreover have "get s1 k' = (if path k = path k' then Inr (Some v) else get s k')"
    using get_put s1 Cons.prems kv by auto
  ultimately show ?case using s1 by (auto simp: kv map_add_def split: option.splits)
qed

end

section \<open>Nodes and operations\<close>

text \<open>The field \<open>used\<close> of a node is set to 0 and never read; it is left out.\<close>

datatype 'v cnode = CNode (node_value: "'v option") (node_nodes: "'v cnode option list")

record 'v cache =
  ca_nodes :: "'v cnode option list"
  ca_size :: nat
  ca_used :: nat
  ca_max :: nat

definition cache_init :: "'v cache" where
  "cache_init = \<lparr>ca_nodes = replicate 256 None, ca_size = 256, ca_used = 0, ca_max = 256\<rparr>"

definition cache_create_node :: "'v cnode" where
  "cache_create_node = CNode None (replicate 256 None)"

text \<open>The index of a child: \<open>(unsigned int)id[i] < 256 ? id[i] : 255\<close>, with signed bytes.\<close>

definition child_index :: "char \<Rightarrow> nat" where
  "child_index c = (let n = of_char c in if n < 128 then n else 255)"

text \<open>The indices from \<open>id[len-1]\<close> down to \<open>id[0]\<close>.\<close>

definition id_path :: "string \<times> nat \<Rightarrow> nat list res" where
  "id_path k = (case k of (s, len) \<Rightarrow>
     if 0 < len \<and> len \<le> length s then Inr (map child_index (rev (take len s)))
     else Inl Out_Of_Bounds)"

definition node_or_new :: "'v cnode option \<Rightarrow> 'v cnode" where
  "node_or_new n = (case n of None \<Rightarrow> cache_create_node | Some n \<Rightarrow> n)"

fun node_add :: "nat list \<Rightarrow> 'v \<Rightarrow> 'v cnode \<Rightarrow> 'v cnode" where
  "node_add [] v (CNode _ ns) = CNode (Some v) ns"
| "node_add (i # is) v (CNode w ns) =
     CNode w (ns[i := Some (node_add is v (node_or_new (ns ! i)))])"

definition cache_add :: "'v cache \<Rightarrow> string \<Rightarrow> 'v \<Rightarrow> 'v cache res" where
  "cache_add c s v =
     rbind (id_path (s, length s)) (\<lambda>p.
       case p of [] \<Rightarrow> Inl Out_Of_Bounds
       | i # is \<Rightarrow> Inr (c\<lparr>ca_nodes := (ca_nodes c)[i := Some (node_add is v (node_or_new (ca_nodes c ! i)))]\<rparr>))"

text \<open>\<open>cache_get\<close> follows the pointers without a test, \<open>cache_get_exists\<close> with one.\<close>

fun node_walk :: "nat list \<Rightarrow> 'v cnode option \<Rightarrow> 'v cnode option res" where
  "node_walk [] n = Inr n"
| "node_walk (i # is) None = Inl Null_Deref"
| "node_walk (i # is) (Some n) = node_walk is (node_nodes n ! i)"

fun node_find :: "nat list \<Rightarrow> 'v cnode option \<Rightarrow> 'v cnode option" where
  "node_find is None = None"
| "node_find [] (Some n) = Some n"
| "node_find (i # is) (Some n) = node_find is (node_nodes n ! i)"

definition cache_get_node :: "'v cache \<Rightarrow> string \<times> nat \<Rightarrow> 'v cnode option res" where
  "cache_get_node c k =
     rbind (id_path k) (\<lambda>p. case p of [] \<Rightarrow> Inl Out_Of_Bounds | i # is \<Rightarrow> node_walk is (ca_nodes c ! i))"

definition cache_get :: "'v cache \<Rightarrow> string \<times> nat \<Rightarrow> 'v option res" where
  "cache_get c k =
     rbind (cache_get_node c k) (\<lambda>n. case n of None \<Rightarrow> Inl Null_Deref | Some n \<Rightarrow> Inr (node_value n))"

definition cache_find :: "'v cache \<Rightarrow> string \<times> nat \<Rightarrow> 'v cnode option res" where
  "cache_find c k =
     rbind (id_path k) (\<lambda>p. case p of [] \<Rightarrow> Inl Out_Of_Bounds | i # is \<Rightarrow> Inr (node_find is (ca_nodes c ! i)))"

definition cache_get_exists :: "'v cache \<Rightarrow> string \<times> nat \<Rightarrow> 'v option res" where
  "cache_get_exists c k =
     rbind (cache_find c k) (\<lambda>n. Inr (case n of None \<Rightarrow> None | Some n \<Rightarrow> node_value n))"

definition cache_exists :: "'v cache \<Rightarrow> string \<times> nat \<Rightarrow> int res" where
  "cache_exists c k = rbind (cache_find c k) (\<lambda>n. Inr (if n = None then 1 else 0))"

text \<open>Freeing: the values that are freed, in the order of the calls.\<close>

function cache_free_nodes :: "'v cnode \<Rightarrow> 'v list" where
  "cache_free_nodes (CNode v ns) =
     concat (map (\<lambda>n. case n of None \<Rightarrow> [] | Some m \<Rightarrow> cache_free_nodes m) ns)
     @ (case v of None \<Rightarrow> [] | Some v \<Rightarrow> [v])"
  by pat_completeness auto
termination
proof (relation "measure size", simp)
  fix v :: "'v option" and ns :: "'v cnode option list" and x m
  assume "x \<in> set ns" "x = Some m"
  then have "size m < size_list (size_option size) ns"
    by (induction ns) auto
  then show "(m, CNode v ns) \<in> measure size" by simp
qed

definition cache_free :: "'v cache \<Rightarrow> 'v list" where
  "cache_free c = concat (map (\<lambda>n. case n of None \<Rightarrow> [] | Some m \<Rightarrow> cache_free_nodes m) (ca_nodes c))"

section \<open>Well-formed tries\<close>

inductive node_ok :: "'v cnode \<Rightarrow> bool" where
  "length ns = 256 \<Longrightarrow> (\<And>n. Some n \<in> set ns \<Longrightarrow> node_ok n) \<Longrightarrow> node_ok (CNode v ns)"

inductive_cases node_okE: "node_ok (CNode v ns)"

definition nodes_ok :: "'v cnode option list \<Rightarrow> bool" where
  "nodes_ok ns \<longleftrightarrow> length ns = 256 \<and> (\<forall>n. Some n \<in> set ns \<longrightarrow> node_ok n)"

lemma node_ok_iff [simp]: "node_ok (CNode v ns) \<longleftrightarrow> nodes_ok ns"
  by (auto simp: nodes_ok_def intro: node_ok.intros elim: node_okE)

lemma nodes_ok_fresh [simp]: "nodes_ok (replicate 256 None)"
  by (simp add: nodes_ok_def)

lemma nodes_ok_nth: "nodes_ok ns \<Longrightarrow> i < 256 \<Longrightarrow> ns ! i = Some n \<Longrightarrow> node_ok n"
  unfolding nodes_ok_def by (metis nth_mem)

lemma nodes_ok_update: "nodes_ok ns \<Longrightarrow> node_ok n \<Longrightarrow> nodes_ok (ns[i := Some n])"
  unfolding nodes_ok_def using set_update_subset_insert [of ns i "Some n"] by fastforce

lemma child_index_less: "child_index c < 256"
  by (simp add: child_index_def Let_def)

lemma node_or_new_ok: "nodes_ok ns \<Longrightarrow> i < 256 \<Longrightarrow> node_ok (node_or_new (ns ! i))"
  by (auto simp: node_or_new_def cache_create_node_def nodes_ok_nth split: option.splits)

definition path_ok :: "nat list \<Rightarrow> bool" where
  "path_ok p \<longleftrightarrow> list_all (\<lambda>i. i < 256) p"

lemma path_ok_simps [simp]: "path_ok []" "path_ok (i # p) \<longleftrightarrow> i < 256 \<and> path_ok p"
  by (simp_all add: path_ok_def)

lemma node_add_ok: "node_ok n \<Longrightarrow> path_ok p \<Longrightarrow> node_ok (node_add p v n)"
proof (induction p v n rule: node_add.induct)
  case (2 i "is" v w ns)
  then show ?case by (auto intro!: nodes_ok_update node_or_new_ok)
qed simp

section \<open>Looking up after adding\<close>

definition value_at :: "nat list \<Rightarrow> 'v cnode option \<Rightarrow> 'v option" where
  "value_at p n = (case node_find p n of None \<Rightarrow> None | Some m \<Rightarrow> node_value m)"

lemma value_at_simps [simp]:
  "value_at p None = None" "value_at [] (Some n) = node_value n"
  "value_at (i # p) (Some n) = value_at p (node_nodes n ! i)"
  by (simp_all add: value_at_def)

lemma value_at_new: "path_ok p \<Longrightarrow> value_at p (Some (node_or_new n)) = value_at p n"
  by (cases n; cases p) (simp_all add: node_or_new_def cache_create_node_def)

lemma value_at_add:
  "node_ok n \<Longrightarrow> path_ok p \<Longrightarrow> path_ok q \<Longrightarrow>
     value_at q (Some (node_add p v n)) = (if p = q then Some v else value_at q (Some n))"
proof (induction p v n arbitrary: q rule: node_add.induct)
  case (1 v w ns)
  then show ?case by (cases q) auto
next
  case (2 i "is" v w ns)
  then have ok: "node_ok (node_or_new (ns ! i))" "length ns = 256"
    by (auto simp: nodes_ok_def node_or_new_ok)
  show ?case
  proof (cases q)
    case Nil
    then show ?thesis by simp
  next
    case (Cons j q')
    then show ?thesis using "2.IH" [OF ok(1), of q'] "2.prems" ok(2) value_at_new [of q' "ns ! i"]
      by (auto simp: nth_list_update)
  qed
qed

lemma node_find_new: "p \<noteq> [] \<Longrightarrow> path_ok p \<Longrightarrow>
    node_find p (Some (node_or_new n)) = None \<longleftrightarrow> node_find p n = None"
  by (cases n; cases p) (simp_all add: node_or_new_def cache_create_node_def)

lemma node_find_add:
  "node_ok n \<Longrightarrow> path_ok p \<Longrightarrow> path_ok q \<Longrightarrow>
     node_find q (Some (node_add p v n)) = None \<longleftrightarrow> \<not> prefix q p \<and> node_find q (Some n) = None"
proof (induction p v n arbitrary: q rule: node_add.induct)
  case (1 v w ns)
  then show ?case by (cases q) auto
next
  case (2 i "is" v w ns)
  then have ok: "node_ok (node_or_new (ns ! i))" "length ns = 256"
    by (auto simp: nodes_ok_def node_or_new_ok)
  show ?case
  proof (cases q)
    case Nil
    then show ?thesis by simp
  next
    case (Cons j q')
    then show ?thesis using "2.IH" [OF ok(1), of q'] "2.prems" ok(2) node_find_new [of q' "ns ! i"]
      by (cases "q' = []") (auto simp: nth_list_update)
  qed
qed

section \<open>The cache as a store\<close>

definition cache_ok :: "'v cache \<Rightarrow> bool" where
  "cache_ok c \<longleftrightarrow> nodes_ok (ca_nodes c)"

definition key_path :: "string \<Rightarrow> nat list" where
  "key_path s = map child_index (rev s)"

definition lookup_key :: "'v cache \<Rightarrow> string \<Rightarrow> 'v option res" where
  "lookup_key c s = cache_get_exists c (s, length s)"

lemma id_path_key: "s \<noteq> [] \<Longrightarrow> \<exists>i p. id_path (s, length s) = Inr (i # p) \<and> key_path s = i # p
    \<and> i < 256 \<and> path_ok p"
  using child_index_less
  by (cases s rule: rev_cases) (auto simp: id_path_def key_path_def path_ok_def list_all_iff)

lemma cache_add_eq:
  assumes "cache_ok c" "s \<noteq> []"
  shows "\<exists>i p. key_path s = i # p \<and> i < 256 \<and> path_ok p \<and> cache_add c s v
    = Inr (c\<lparr>ca_nodes := (ca_nodes c)[i := Some (node_add p v (node_or_new (ca_nodes c ! i)))]\<rparr>)"
  using id_path_key [OF assms(2)] by (auto simp: cache_add_def)

lemma cache_add_keeps: "cache_ok c \<Longrightarrow> s \<noteq> [] \<Longrightarrow> \<exists>c'. cache_add c s v = Inr c' \<and> cache_ok c'"
  using cache_add_eq [of c s v]
  by (fastforce simp: cache_ok_def intro!: nodes_ok_update node_add_ok node_or_new_ok)

lemma lookup_eq:
  "s \<noteq> [] \<Longrightarrow> key_path s = i # p \<Longrightarrow> lookup_key c s = Inr (value_at p (ca_nodes c ! i))"
  using id_path_key [of s]
  by (auto simp: lookup_key_def cache_get_exists_def cache_find_def value_at_def)

lemma lookup_after_add:
  assumes c: "cache_ok c" and s: "s \<noteq> []" "t \<noteq> []" and add: "cache_add c s v = Inr c'"
  shows "lookup_key c' t = (if key_path s = key_path t then Inr (Some v) else lookup_key c t)"
proof -
  obtain i p where p: "key_path s = i # p" "i < 256" "path_ok p"
    "c' = c\<lparr>ca_nodes := (ca_nodes c)[i := Some (node_add p v (node_or_new (ca_nodes c ! i)))]\<rparr>"
    using cache_add_eq [OF c s(1), of v] add by auto
  obtain j q where q: "key_path t = j # q" "j < 256" "path_ok q"
    using id_path_key [OF s(2)] by auto
  have len: "length (ca_nodes c) = 256" using c by (simp add: cache_ok_def nodes_ok_def)
  have n: "node_ok (node_or_new (ca_nodes c ! i))" using c p(2) node_or_new_ok
    by (auto simp: cache_ok_def)
  show ?thesis
    using value_at_add [OF n p(3) q(3), of v] value_at_new [OF q(3), of "ca_nodes c ! i"]
    by (auto simp: lookup_eq [OF s(2) q(1)] p q len nth_list_update)
qed

interpretation cache_store: keyed_store cache_init cache_add lookup_key cache_ok "\<lambda>s. s \<noteq> []" key_path
proof unfold_locales
  show "cache_ok cache_init" by (simp add: cache_ok_def cache_init_def)
  show "\<exists>s'. cache_add s k v = Inr s' \<and> cache_ok s'" if "cache_ok s" "k \<noteq> []" for s k and v :: 'a
    using cache_add_keeps [OF that] .
  show "\<exists>r. lookup_key s k = Inr r" if "k \<noteq> []" for s :: "'a cache" and k
    using id_path_key [OF that] lookup_eq [OF that, of _ _ s] by auto
  show "lookup_key cache_init k = Inr (None :: 'a option)" if "k \<noteq> []" for k
    using id_path_key [OF that] lookup_eq [OF that, where c = "cache_init :: 'a cache"]
    by (auto simp: cache_init_def)
  show "lookup_key s' k' = (if key_path k = key_path k' then Inr (Some v) else lookup_key s k')"
    if "cache_ok s" "k \<noteq> []" "k' \<noteq> []" "cache_add s k v = Inr s'" for s k k' s' and v :: 'a
    using lookup_after_add [OF that] .
qed

section \<open>Properties\<close>

text \<open>ASCII keys are distinguished by their paths.\<close>

definition ascii :: "string \<Rightarrow> bool" where
  "ascii s \<longleftrightarrow> list_all (\<lambda>c. (of_char c :: nat) < 128) s"

lemma child_index_ascii: "(of_char c :: nat) < 128 \<Longrightarrow> child_index c = child_index d \<Longrightarrow> c = d"
  by (auto simp: child_index_def Let_def split: if_splits)

lemma key_path_ascii: "ascii s \<Longrightarrow> key_path s = key_path t \<Longrightarrow> s = t"
proof -
  have "list_all (\<lambda>c. (of_char c :: nat) < 128) s \<Longrightarrow> map child_index s = map child_index t \<Longrightarrow> s = t" for s t
    by (induction s arbitrary: t) (auto simp: map_eq_Cons_conv dest: child_index_ascii)
  moreover assume "ascii s" "key_path s = key_path t"
  ultimately show ?thesis by (simp add: ascii_def key_path_def rev_map [symmetric])
qed

text \<open>
  C29. The cache is a map: after any sequence of \<open>cache_add\<close> calls on a fresh cache,
  \<open>cache_get_exists\<close> answers with what was added last under a key with the same path, and with
  NULL where there is none. The path of an ASCII key determines it; bytes from 128 on are one
  and the same to the cache (the instance: two different keys of one byte).
\<close>

theorem cache_is_map:
  assumes "list_all (\<lambda>kv. fst kv \<noteq> []) kvs" "s \<noteq> []"
  shows "\<exists>c. cache_store.put_all cache_init kvs = Inr c
    \<and> cache_get_exists c (s, length s) = Inr (map_of (rev (map (\<lambda>(k, v). (key_path k, v)) kvs)) (key_path s))
    \<and> (ascii s \<longrightarrow> (\<forall>k \<in> fst ` set kvs. key_path k = key_path s \<longrightarrow> k = s))"
proof -
  have ok: "cache_ok (cache_init :: 'a cache)" by (rule cache_store.ok_empty)
  obtain c where c: "cache_store.put_all cache_init kvs = Inr c" "lookup_key c s =
     (case map_of (rev (map (\<lambda>(k, v). (key_path k, v)) kvs)) (key_path s) of
        None \<Rightarrow> lookup_key cache_init s | Some v \<Rightarrow> Inr (Some v))"
    using cache_store.put_all_get [OF ok assms] by blast
  have "lookup_key cache_init s = Inr (None :: 'a option)" using assms(2) by (rule cache_store.get_empty)
  moreover have "ascii s \<Longrightarrow> key_path k = key_path s \<Longrightarrow> k = s" for k
    using key_path_ascii [of s k] by simp
  ultimately show ?thesis using c by (auto simp: lookup_key_def split: option.splits)
qed

theorem cache_is_map_witness:
  "\<exists>c. cache_store.put_all cache_init [([CHR 0xE9], 1 :: nat), ([CHR 0xFC], 2)] = Inr c
    \<and> cache_get_exists c ([CHR 0xE9], 1) = Inr (Some 2)"
  using cache_is_map [of "[([CHR 0xE9], 1 :: nat), ([CHR 0xFC], 2)]" "[CHR 0xE9]"]
  by (auto simp: key_path_def child_index_def)

text \<open>Which nodes exist: those on the path of an added key.\<close>

definition node_there :: "'v cache \<Rightarrow> string \<Rightarrow> bool" where
  "node_there c t = (case key_path t of [] \<Rightarrow> False | j # q \<Rightarrow> node_find q (ca_nodes c ! j) \<noteq> None)"

lemma cache_exists_eq: "t \<noteq> [] \<Longrightarrow> cache_exists c (t, length t) = Inr (if node_there c t then 0 else 1)"
  using id_path_key [of t] by (auto simp: cache_exists_def cache_find_def node_there_def)

lemma node_there_add:
  assumes c: "cache_ok c" and s: "s \<noteq> []" "t \<noteq> []" and add: "cache_add c s v = Inr c'"
  shows "node_there c' t \<longleftrightarrow> prefix (key_path t) (key_path s) \<or> node_there c t"
proof -
  obtain i p where p: "key_path s = i # p" "i < 256" "path_ok p"
    "c' = c\<lparr>ca_nodes := (ca_nodes c)[i := Some (node_add p v (node_or_new (ca_nodes c ! i)))]\<rparr>"
    using cache_add_eq [OF c s(1), of v] add by auto
  obtain j q where q: "key_path t = j # q" "j < 256" "path_ok q"
    using id_path_key [OF s(2)] by auto
  have len: "length (ca_nodes c) = 256" using c by (simp add: cache_ok_def nodes_ok_def)
  have n: "node_ok (node_or_new (ca_nodes c ! i))" using c p(2) node_or_new_ok
    by (auto simp: cache_ok_def)
  show ?thesis
    using node_find_add [OF n p(3) q(3), of v] node_find_new [OF _ q(3), of "ca_nodes c ! i"]
    by (cases "q = []") (auto simp: node_there_def p q len nth_list_update)
qed

lemma node_there_all:
  "cache_ok c \<Longrightarrow> list_all (\<lambda>kv. fst kv \<noteq> []) kvs \<Longrightarrow> t \<noteq> [] \<Longrightarrow>
   \<exists>c'. cache_store.put_all c kvs = Inr c' \<and>
     (node_there c' t \<longleftrightarrow> node_there c t \<or> (\<exists>kv \<in> set kvs. prefix (key_path t) (key_path (fst kv))))"
proof (induction kvs arbitrary: c)
  case Nil
  then show ?case by simp
next
  case (Cons kv kvs)
  obtain k v where kv: "kv = (k, v)" by fastforce
  obtain c1 where c1: "cache_add c k v = Inr c1" "cache_ok c1"
    using cache_add_keeps [of c k v] Cons.prems kv by auto
  have k: "k \<noteq> []" using Cons.prems(2) kv by simp
  show ?case
    using Cons.IH [OF c1(2)] Cons.prems node_there_add [OF Cons.prems(1) k Cons.prems(3) c1(1)] c1(1)
    by (auto simp: kv)
qed

text \<open>
  \<open>cache_exists\<close> answers 0 (found) not only for the keys that were added but for each of
  their ends: the nodes on the way to a key exist too, without a value.
\<close>

theorem cache_exists_for_suffixes:
  assumes "list_all (\<lambda>kv. fst kv \<noteq> []) kvs" "t \<noteq> []"
  shows "\<exists>c. cache_store.put_all cache_init kvs = Inr c
    \<and> cache_exists c (t, length t)
        = Inr (if \<exists>kv \<in> set kvs. prefix (key_path t) (key_path (fst kv)) then 0 else 1)"
proof -
  have ok: "cache_ok (cache_init :: 'a cache)" by (rule cache_store.ok_empty)
  obtain j q where q: "key_path t = j # q" "j < 256" using id_path_key [OF assms(2)] by auto
  then have "\<not> node_there (cache_init :: 'a cache) t" by (simp add: node_there_def cache_init_def)
  then show ?thesis
    using node_there_all [OF ok assms] by (auto simp: cache_exists_eq [OF assms(2)])
qed

theorem cache_exists_for_suffixes_witness:
  "\<exists>c. cache_store.put_all cache_init [(''ab'', 1 :: nat)] = Inr c \<and> cache_exists c (''b'', 1) = Inr 0"
  using cache_exists_for_suffixes [of "[(''ab'', 1 :: nat)]" "''b''"]
  by (auto simp: key_path_def child_index_def)

end
