(* ===== verification/Base64_Decode.thy ===== *)
theory Base64_Decode
  imports C_Library
begin

unbundle bit_operations_syntax

text \<open>
  \<^verbatim>\<open>src/base64.c\<close>: the server's own base64 decoder. The source text is the array \<open>src\<close> from
  the pointer on (its terminator included), the destination a block. \<open>encode\<close> is the standard
  encoding with padding, against which the decoder is shown to be right.
\<close>

section \<open>The decoder\<close>

definition base64_table :: string where
  "base64_table = ''ABCDEFGHIJKLMNOPQRSTUVWXYZabcdefghijklmnopqrstuvwxyz0123456789+/''"

definition isbase64 :: "char \<Rightarrow> bool" where
  "isbase64 c \<longleftrightarrow> c \<noteq> NUL \<and> strchr base64_table c \<noteq> None"

definition base64_value :: "char \<Rightarrow> nat" where
  "base64_value c = (case strchr base64_table c of Some i \<Rightarrow> i | None \<Rightarrow> 0)"

definition src_at :: "string \<Rightarrow> nat \<Rightarrow> char res" where
  "src_at src i = (if i < length src then Inr (src ! i) else Inl Out_Of_Bounds)"

text \<open>The three bytes of a group; storing them in a \<open>char\<close> keeps the low eight bits.\<close>

definition group_bytes :: "nat \<Rightarrow> nat \<Rightarrow> nat \<Rightarrow> nat \<Rightarrow> string" where
  "group_bytes a b c d =
     [char_of (push_bit 2 a OR drop_bit 4 b), char_of (push_bit 4 b OR drop_bit 2 c),
      char_of (push_bit 6 c OR d)]"

fun skip_eol :: "string \<Rightarrow> string res" where
  "skip_eol [] = Inl Out_Of_Bounds"
| "skip_eol (c # s) = (if c = CR \<or> c = LF then skip_eol s else Inr (c # s))"

lemma skip_eol_length: "skip_eol s = Inr t \<Longrightarrow> length t \<le> length s"
  by (induction s) (auto split: if_splits intro: le_SucI)

text \<open>The loop from the destination offset \<open>p\<close> on; its result is the final \<open>p\<close>.\<close>

function decode_loop :: "block \<Rightarrow> nat \<Rightarrow> string \<Rightarrow> int \<Rightarrow> (block \<times> nat) res" where
  "decode_loop dest p src srclen =
     rbind (src_at src 0) (\<lambda>c0. rbind (src_at src 1) (\<lambda>c1.
     rbind (src_at src 2) (\<lambda>c2. rbind (src_at src 3) (\<lambda>c3.
     rbind (blk_copy dest p (map Some (group_bytes (base64_value c0) (base64_value c1)
                                         (base64_value c2) (base64_value c3)))) (\<lambda>dest.
     if \<not> isbase64 c1 then Inr (dest, p + 3 - 2)
     else if \<not> isbase64 c2 then Inr (dest, p + 3 - 2)
     else if \<not> isbase64 c3 then Inr (dest, p + 3 - 1)
     else rbind (skip_eol (drop 4 src)) (\<lambda>src'.
       if srclen - 4 = 0 then Inr (dest, p + 3)
       else decode_loop dest (p + 3) src' (srclen - 4)))))))"
  by pat_completeness auto
termination
proof (relation "measure (\<lambda>(dest, p, src, srclen). length src)", simp)
  fix src src' :: string and c3 :: char and dest dest' :: block and p srclen
  assume "src_at src 3 = Inr c3" "skip_eol (drop 4 src) = Inr src'"
  then have "3 < length src" "length src' \<le> length src - 4"
    using skip_eol_length [of "drop 4 src" src'] by (auto simp: src_at_def split: if_splits)
  then show "((dest', p + 3, src', srclen - 4), dest, p, src, srclen)
      \<in> measure (\<lambda>(dest, p, src, srclen). length src)" by simp
qed

declare decode_loop.simps [simp del]

definition base64_decode :: "block \<Rightarrow> string \<Rightarrow> int \<Rightarrow> (block \<times> nat) res" where
  "base64_decode dest src srclen =
     rbind (src_at src 0) (\<lambda>c.
     if c = NUL \<or> srclen = 0 then Inr (dest, 0)
     else rbind (decode_loop dest 0 src srclen) (\<lambda>(dest, p).
       rbind (blk_set dest p NUL) (\<lambda>dest. Inr (dest, p))))"

section \<open>The encoding\<close>

definition enc :: "nat \<Rightarrow> char" where
  "enc n = base64_table ! n"

fun encode :: "string \<Rightarrow> string" where
  "encode [] = []"
| "encode [x] = (let x = of_char x in
     [enc (drop_bit 2 x), enc (push_bit 4 (take_bit 2 x)), CHR ''='', CHR ''=''])"
| "encode [x, y] = (let x = of_char x; y = of_char y in
     [enc (drop_bit 2 x), enc (push_bit 4 (take_bit 2 x) OR drop_bit 4 y),
      enc (push_bit 2 (take_bit 4 y)), CHR ''=''])"
| "encode (x # y # z # r) = (let x = of_char x; y = of_char y; z = of_char z in
     [enc (drop_bit 2 x), enc (push_bit 4 (take_bit 2 x) OR drop_bit 4 y),
      enc (push_bit 2 (take_bit 4 y) OR drop_bit 6 z), enc (take_bit 6 z)] @ encode r)"

section \<open>Bits\<close>

lemma byte_bit: "bit (of_char c :: nat) n \<Longrightarrow> n < 8"
proof (rule ccontr)
  assume "bit (of_char c :: nat) n" "\<not> n < 8"
  moreover have "take_bit 8 (of_char c :: nat) = of_char c"
    by (simp add: take_bit_eq_mod)
  ultimately show False by (metis bit_take_bit_iff)
qed

lemma byte_bit_high: "8 \<le> n \<Longrightarrow> \<not> bit (of_char c :: nat) n"
  using byte_bit [of c n] by auto

lemma char_eqI:
  assumes "list_all (\<lambda>n. bit k n \<longleftrightarrow> bit (of_char c :: nat) n) [0, 1, 2, 3, 4, 5, 6, 7]"
  shows "char_of (k :: nat) = c"
proof -
  have a: "bit k n \<longleftrightarrow> bit (of_char c :: nat) n" if "n < 8" for n
  proof -
    have "n \<in> set [0, 1, 2, 3, 4, 5, 6, 7]" using that by auto
    then show ?thesis using assms by (simp only: list_all_iff)
  qed
  have "take_bit 8 k = of_char c"
    by (rule bit_eqI) (use a byte_bit in \<open>auto simp: bit_take_bit_iff\<close>)
  then have "k mod 256 = of_char c" by (simp add: take_bit_eq_mod)
  then show "char_of k = c" by (metis char_of_mod_256 char_of_char)
qed

lemma group_decodes:
  fixes x y z :: nat and cx cy cz :: char
  defines "x \<equiv> of_char cx" and "y \<equiv> of_char cy" and "z \<equiv> of_char cz"
  shows "group_bytes (drop_bit 2 x) (push_bit 4 (take_bit 2 x) OR drop_bit 4 y)
     (push_bit 2 (take_bit 4 y) OR drop_bit 6 z) (take_bit 6 z) = [cx, cy, cz]"
proof -
  have "char_of (push_bit 2 (drop_bit 2 x) OR drop_bit 4 (push_bit 4 (take_bit 2 x) OR drop_bit 4 y)) = cx"
    by (rule char_eqI) (simp add: x_def y_def bit_or_iff bit_push_bit_iff bit_drop_bit_eq bit_take_bit_iff
        byte_bit_high; simp add: numeral_2_eq_2 numeral_3_eq_3)
  moreover have "char_of (push_bit 4 (push_bit 4 (take_bit 2 x) OR drop_bit 4 y)
      OR drop_bit 2 (push_bit 2 (take_bit 4 y) OR drop_bit 6 z)) = cy"
    by (rule char_eqI) (simp add: x_def y_def z_def bit_or_iff bit_push_bit_iff bit_drop_bit_eq bit_take_bit_iff
        byte_bit_high)
  moreover have "char_of (push_bit 6 (push_bit 2 (take_bit 4 y) OR drop_bit 6 z) OR take_bit 6 z) = cz"
    by (rule char_eqI) (simp add: y_def z_def bit_or_iff bit_push_bit_iff bit_drop_bit_eq bit_take_bit_iff
        byte_bit_high)
  ultimately show ?thesis by (simp add: group_bytes_def)
qed


lemma less_64I:
  fixes v :: nat
  assumes "\<And>n. 6 \<le> n \<Longrightarrow> \<not> bit v n"
  shows "v < 64"
proof -
  have "take_bit 6 v = v" by (rule bit_eqI) (use assms in \<open>auto simp: bit_take_bit_iff not_le [symmetric]\<close>)
  then show ?thesis by (simp add: take_bit_nat_eq_self_iff)
qed

lemma sextet_less:
  "drop_bit 2 (of_char x :: nat) < 64"
  "push_bit 4 (take_bit 2 (of_char x :: nat)) OR drop_bit 4 (of_char y) < 64"
  "push_bit 2 (take_bit 4 (of_char y :: nat)) OR drop_bit 6 (of_char z) < 64"
  "push_bit 4 (take_bit 2 (of_char x :: nat)) < 64" "push_bit 2 (take_bit 4 (of_char x :: nat)) < 64"
  "take_bit 6 (of_char z :: nat) < 64"
  by (rule less_64I; simp add: bit_or_iff bit_push_bit_iff bit_drop_bit_eq bit_take_bit_iff byte_bit_high)+

section \<open>Characters of the table\<close>

lemma strchr_nth: "distinct s \<Longrightarrow> i < length s \<Longrightarrow> strchr s (s ! i) = Some i"
proof (induction s arbitrary: i)
  case (Cons c s)
  then show ?case by (cases i) auto
qed simp

lemma table_distinct: "distinct base64_table"
  by (simp add: base64_table_def)

lemma table_length: "length base64_table = 64"
  by (simp add: base64_table_def)

lemma table_chars: "list_all (\<lambda>c. c \<noteq> NUL \<and> c \<noteq> CR \<and> c \<noteq> LF) base64_table"
  by (simp add: base64_table_def)

lemma enc_value: "n < 64 \<Longrightarrow> base64_value (enc n) = n"
  by (simp add: base64_value_def enc_def strchr_nth table_distinct table_length)

lemma enc_chars: "n < 64 \<Longrightarrow> enc n \<noteq> NUL \<and> enc n \<noteq> CR \<and> enc n \<noteq> LF"
  using table_chars by (simp add: enc_def list_all_length table_length)

lemma enc_isbase64: "n < 64 \<Longrightarrow> isbase64 (enc n)"
  by (simp add: isbase64_def enc_chars) (simp add: enc_def strchr_nth table_distinct table_length)

lemma pad_value [simp]: "base64_value (CHR ''='') = 0" "\<not> isbase64 (CHR ''='')"
  by (simp_all add: base64_value_def isbase64_def base64_table_def)

section \<open>Decoding an encoding\<close>

lemma encode_start: "s \<noteq> [] \<Longrightarrow> \<exists>c t. encode s = c # t \<and> c \<noteq> NUL \<and> c \<noteq> CR \<and> c \<noteq> LF"
  by (cases s rule: encode.cases) (auto simp: Let_def enc_chars sextet_less)

lemma four_more: "(4 + n) div 4 = Suc (n div 4)" for n :: nat
  by simp

lemma encode_length: "length s \<le> length (encode s) div 4 * 3"
proof (induction s rule: encode.induct)
  case (4 x y z r)
  then show ?case using "4.IH" [OF refl refl refl] by (simp add: Let_def four_more)
qed (simp_all add: Let_def)

text \<open>One turn of the loop on four characters of an encoding.\<close>

lemma decode_group:
  assumes "blk_holds dest pre" "length pre + 3 \<le> bsize dest"
  shows "\<exists>dest'. blk_copy dest (length pre) (map Some (group_bytes a b c d)) = Inr dest'
    \<and> blk_holds dest' (pre @ group_bytes a b c d) \<and> bsize dest' = bsize dest"
  using blk_holds_append [OF assms(1), of "group_bytes a b c d"] assms(2) by (simp add: group_bytes_def)

lemma src_at_simps [simp]:
  "src_at (c # s) 0 = Inr c" "src_at (c # s) (Suc n) = src_at s n"
  "src_at (a # b # s) 1 = Inr b" "src_at (a # b # c # s) 2 = Inr c" "src_at (a # b # c # d # s) 3 = Inr d"
  by (simp_all add: src_at_def)

lemma decode_loop_encode:
  "blk_holds dest pre \<Longrightarrow> s \<noteq> [] \<Longrightarrow> length pre + length (encode s) div 4 * 3 \<le> bsize dest \<Longrightarrow>
   \<exists>dest'. decode_loop dest (length pre) (encode s @ [NUL]) (int (length (encode s)))
       = Inr (dest', length pre + length s)
     \<and> blk_holds dest' (pre @ s) \<and> bsize dest' = bsize dest"
proof (induction s arbitrary: dest pre rule: encode.induct)
  case 1
  then show ?case by simp
next
  case (2 x)
  have room: "length pre + 3 \<le> bsize dest" using "2.prems"(3) by (simp add: Let_def)
  let ?g = "group_bytes (drop_bit 2 (of_char x)) (push_bit 4 (take_bit 2 (of_char x))) 0 0"
  obtain d where d: "blk_copy dest (length pre) (map Some ?g) = Inr d" "blk_holds d (pre @ ?g)"
    "bsize d = bsize dest"
    using decode_group [OF "2.prems"(1) room] by blast
  have "?g = x # tl ?g"
    using group_decodes [of x "CHR 0x00" "CHR 0x00"] by (simp add: group_bytes_def)
  then have "blk_holds d ((pre @ [x]) @ tl ?g)" using d(2) by simp
  then have "blk_holds d (pre @ [x])" by (rule blk_holds_prefix)
  then show ?case using d
    by (simp add: Let_def decode_loop.simps [of dest] enc_value enc_isbase64 sextet_less)
next
  case (3 x y)
  have room: "length pre + 3 \<le> bsize dest" using "3.prems"(3) by (simp add: Let_def)
  let ?b = "push_bit 4 (take_bit 2 (of_char x)) OR drop_bit 4 (of_char y) :: nat"
  let ?g = "group_bytes (drop_bit 2 (of_char x)) ?b (push_bit 2 (take_bit 4 (of_char y))) 0"
  obtain d where d: "blk_copy dest (length pre) (map Some ?g) = Inr d" "blk_holds d (pre @ ?g)"
    "bsize d = bsize dest"
    using decode_group [OF "3.prems"(1) room] by blast
  have "?g = x # y # tl (tl ?g)"
    using group_decodes [of x y "CHR 0x00"] by (simp add: group_bytes_def)
  then have "blk_holds d ((pre @ [x, y]) @ tl (tl ?g))" using d(2) by simp
  then have "blk_holds d (pre @ [x, y])" by (rule blk_holds_prefix)
  then show ?case using d
    by (simp add: Let_def decode_loop.simps [of dest] enc_value enc_isbase64 sextet_less)
next
  case (4 x y z r)
  let ?b = "push_bit 4 (take_bit 2 (of_char x)) OR drop_bit 4 (of_char y) :: nat"
  let ?c = "push_bit 2 (take_bit 4 (of_char y)) OR drop_bit 6 (of_char z) :: nat"
  have size: "length pre + 3 + length (encode r) div 4 * 3 \<le> bsize dest"
    using "4.prems"(3) by (simp add: Let_def four_more)
  obtain d where d: "blk_copy dest (length pre) (map Some [x, y, z]) = Inr d" "blk_holds d (pre @ [x, y, z])"
    "bsize d = bsize dest"
    using decode_group [OF "4.prems"(1), of "drop_bit 2 (of_char x)" ?b ?c "take_bit 6 (of_char z)"] size
    unfolding group_decodes by auto
  have step: "decode_loop dest (length pre) (encode (x # y # z # r) @ [NUL]) (int (length (encode (x # y # z # r))))
      = rbind (skip_eol (encode r @ [NUL])) (\<lambda>src'. if int (length (encode r)) = 0 then Inr (d, length pre + 3)
          else decode_loop d (length pre + 3) src' (int (length (encode r))))"
    using d(1) group_decodes [of x y z]
    by (simp add: Let_def decode_loop.simps [of dest] enc_value enc_isbase64 sextet_less cong: if_cong)
  show ?case
  proof (cases "r = []")
    case True
    then show ?thesis using d step by simp
  next
    case False
    then obtain e t where e: "encode r = e # t" "e \<noteq> NUL" "e \<noteq> CR" "e \<noteq> LF" using encode_start by blast
    obtain d' where "decode_loop d (length (pre @ [x, y, z])) (encode r @ [NUL]) (int (length (encode r)))
        = Inr (d', length (pre @ [x, y, z]) + length r)"
      "blk_holds d' ((pre @ [x, y, z]) @ r)" "bsize d' = bsize d"
      using "4.IH" [OF refl refl refl d(2) False] size d(3) by auto
    then show ?thesis using step e d(3) by (simp add: numeral_3_eq_3)
  qed
qed

text \<open>
  C30. Decoding undoes encoding: for every byte string \<open>s\<close>, on its base64 text with the
  text's length, the decoder never reads behind the terminator, returns the length of \<open>s\<close> and
  leaves \<open>s\<close>, terminated, in a destination of three bytes a group and one.
\<close>

theorem base64_decode_encode:
  assumes "length (encode s) div 4 * 3 + 1 \<le> bsize dest"
  shows "\<exists>dest'. base64_decode dest (encode s @ [NUL]) (int (length (encode s))) = Inr (dest', length s)
    \<and> (s \<noteq> [] \<longrightarrow> blk_holds dest' (s @ [NUL]))"
proof (cases "s = []")
  case True
  then show ?thesis by (simp add: base64_decode_def)
next
  case False
  obtain d where d: "decode_loop dest 0 (encode s @ [NUL]) (int (length (encode s))) = Inr (d, length s)"
    "blk_holds d s" "bsize d = bsize dest"
    using decode_loop_encode [of dest "[]" s] False assms by auto
  have len: "length s \<le> length (encode s) div 4 * 3" by (rule encode_length)
  obtain d' where "blk_set d (length s) NUL = Inr d'" "blk_holds d' (s @ [NUL])"
    using blk_holds_append [OF d(2), of "[NUL]"] d(3) assms len by auto
  moreover obtain c t where "encode s = c # t" "c \<noteq> NUL" using encode_start [OF False] by blast
  ultimately show ?thesis using d False by (simp add: base64_decode_def)
qed

theorem base64_decode_encode_witness:
  "\<exists>d. base64_decode (malloc 10) (encode ''hello'' @ [NUL]) (int (length (encode ''hello''))) = Inr (d, 5)
     \<and> blk_holds d (''hello'' @ [NUL])"
  using base64_decode_encode [of "''hello''" "malloc 10"] by (auto simp: Let_def)

end
