(* ===== verification/Queue_Processes.thy ===== *)
theory Queue_Processes
  imports Persisted_Queue
begin

text \<open>
  The processes that share one queue file: a server worker, which enqueues, and its mail handler,
  which dequeues, each with its own mapping of the file. Between the wait and the post of the
  semaphore the calls of \<^verbatim>\<open>src/lib-pq/persisted_queue.c\<close> are split into their accesses to the
  shared file (\<open>cs_step\<close>), so that other processes can run between any two of them;
  \<open>cs_runs_locked\<close> ties the steps to the calls as \<open>Persisted_Queue\<close> has them.

  \<open>system_step\<close> interleaves any number of processes. \<open>serialized\<close> is its invariant as long as nobody
  sets the semaphore again; \<open>pq_init\<close> does so whenever a process starts.
\<close>

section \<open>The accesses of a call\<close>

text \<open>
  Where a call is: at the test of the counter; at the slot; at the offset; before and after
  loading the counter; at \<open>msync\<close>; and done. The slot and the message read are kept.
\<close>

datatype 'm cs_pc =
    Test "'m qop"
  | Slot "'m qop"
  | Offset "'m qop" int "'m option"
  | Load "'m qop" int "'m option"
  | Store "'m qop" int "'m option" int
  | Sync "'m qop" int "'m option"
  | Done int "'m option"

fun cs_step :: "pq_ref \<Rightarrow> 'm cs_pc \<Rightarrow> 'm pq_shared \<Rightarrow> ('m cs_pc \<times> 'm pq_shared) res" where
  "cs_step ref (Test (Enq m)) s =
     Inr (if message_count s \<ge> message_max_count s then Done PQ_MESSAGE_SIZE_REACHED_ERROR None else Slot (Enq m), s)"
| "cs_step ref (Test Deq) s =
     Inr (if message_count s \<le> 0 then Done PQ_MESSAGE_QUEUE_EMPTY_ERROR None else Slot Deq, s)"
| "cs_step ref (Slot (Enq m)) s =
     (let k = write_offset s in
      if \<not> slot_mapped ref s k then Inl Out_Of_Bounds
      else Inr (Offset (Enq m) k None,
                s\<lparr>slots := (slots s)[nat k := m], slot_dirty := (slot_dirty s)[nat k := True]\<rparr>))"
| "cs_step ref (Slot Deq) s =
     (let k = read_offset s in
      if \<not> slot_mapped ref s k then Inl Out_Of_Bounds
      else Inr (Offset Deq k (Some (slots s ! nat k)), s))"
| "cs_step ref (Offset (Enq m) k r) s =
     rbind (next_offset (write_offset s) (message_max_count s)) (\<lambda>w.
       Inr (Load (Enq m) k r, s\<lparr>write_offset := w, hdr_dirty := True\<rparr>))"
| "cs_step ref (Offset Deq k r) s =
     rbind (next_offset (read_offset s) (message_max_count s)) (\<lambda>w.
       Inr (Load Deq k r, s\<lparr>read_offset := w, hdr_dirty := True\<rparr>))"
| "cs_step ref (Load x k r) s = Inr (Store x k r (message_count s), s)"
| "cs_step ref (Store (Enq m) k r n) s = Inr (Sync (Enq m) k r, s\<lparr>message_count := n + 1, hdr_dirty := True\<rparr>)"
| "cs_step ref (Store Deq k r n) s = Inr (Sync Deq k r, s\<lparr>message_count := n - 1, hdr_dirty := True\<rparr>)"
| "cs_step ref (Sync (Enq m) k r) s = Inr (Done 0 r, msync (slot_addr k) sz_mail (pq_header_sync True s))"
| "cs_step ref (Sync Deq k r) s = Inr (Done 0 r, pq_header_sync False s)"
| "cs_step ref (Done c r) s = Inr (Done c r, s)"

fun cs_iter :: "pq_ref \<Rightarrow> nat \<Rightarrow> 'm cs_pc \<times> 'm pq_shared \<Rightarrow> ('m cs_pc \<times> 'm pq_shared) res" where
  "cs_iter ref 0 cs = Inr cs"
| "cs_iter ref (Suc n) (c, s) = rbind (cs_step ref c s) (cs_iter ref n)"

text \<open>The calls as one step, with the answer they give.\<close>

fun call_locked :: "pq_ref \<Rightarrow> 'm qop \<Rightarrow> 'm pq_shared \<Rightarrow> ('m pq_shared \<times> int \<times> 'm option) res" where
  "call_locked ref (Enq m) s = rbind (pq_enqueue_locked ref m s) (\<lambda>(s, c). Inr (s, c, None))"
| "call_locked ref Deq s = pq_dequeue_locked ref s"

lemma cs_runs_locked:
  "cs_iter ref 6 (Test x, s) = rbind (call_locked ref x s) (\<lambda>(s, c, r). Inr (Done c r, s))"
proof (cases x)
  case (Enq m)
  then show ?thesis
    by (cases "next_offset (write_offset s) (message_max_count s)")
       (simp_all add: numeral_eq_Suc pq_enqueue_locked_def pq_put_def Let_def)
next
  case Deq
  then show ?thesis
    by (cases "next_offset (read_offset s) (message_max_count s)")
       (simp_all add: numeral_eq_Suc pq_dequeue_locked_def pq_take_def Let_def)
qed

lemma cs_iter_done: "cs_iter ref n (Done c r, s) = Inr (Done c r, s)"
  by (induction n) simp_all

lemma cs_iter_add: "cs_iter ref (m + n) cs = rbind (cs_iter ref m cs) (cs_iter ref n)"
proof (induction m arbitrary: cs)
  case (Suc m)
  obtain c s where "cs = (c, s)" by (cases cs)
  then show ?case by (cases "cs_step ref c s") (simp_all add: Suc.IH)
qed simp

section \<open>Processes\<close>

datatype 'm proc = Outside | Inside "'m qop" "'m cs_pc"

record 'm system =
  sy_sem :: nat
  sy_file :: "'m pq_shared"
  sy_procs :: "nat \<Rightarrow> 'm proc"
  sy_log :: "('m qop \<times> int \<times> 'm option) list"

text \<open>
  Process \<open>i\<close> begins a call, which takes the semaphore; makes an access; or ends the call, which gives
  the semaphore back, and writes the call with its answer into the log. A start is a \<open>pq_init\<close> of
  the existing file by some process; it is only taken where \<open>starts\<close> says so. Calls of \<open>semop\<close> do not
  fail here.
\<close>

inductive system_step :: "bool \<Rightarrow> (nat \<Rightarrow> pq_ref) \<Rightarrow> 'm system \<Rightarrow> 'm system \<Rightarrow> bool"
  for starts :: bool and refs :: "nat \<Rightarrow> pq_ref" where
  call: "sy_procs y i = Outside \<Longrightarrow> sem_wait (sy_sem y) = Some v \<Longrightarrow>
    system_step starts refs y (y\<lparr>sy_sem := v, sy_procs := (sy_procs y)(i := Inside x (Test x))\<rparr>)"
| access: "sy_procs y i = Inside x c \<Longrightarrow> cs_step (refs i) c (sy_file y) = Inr (c', s) \<Longrightarrow>
    system_step starts refs y (y\<lparr>sy_file := s, sy_procs := (sy_procs y)(i := Inside x c')\<rparr>)"
| return: "sy_procs y i = Inside x (Done code r) \<Longrightarrow>
    system_step starts refs y (y\<lparr>sy_sem := sem_post (sy_sem y), sy_procs := (sy_procs y)(i := Outside),
      sy_log := sy_log y @ [(x, code, r)]\<rparr>)"
| start: "starts \<Longrightarrow> system_step starts refs y (y\<lparr>sy_sem := semaphore_init (sy_sem y)\<rparr>)"

inductive reachable :: "bool \<Rightarrow> (nat \<Rightarrow> pq_ref) \<Rightarrow> 'm system \<Rightarrow> 'm system \<Rightarrow> bool"
  for starts :: bool and refs :: "nat \<Rightarrow> pq_ref" and y0 :: "'m system" where
  init: "reachable starts refs y0 y0"
| step: "reachable starts refs y0 y \<Longrightarrow> system_step starts refs y y' \<Longrightarrow> reachable starts refs y0 y'"

inductive_cases system_stepE [consumes 1, case_names call access return start]: "system_step starts refs y y'"

definition idle_system :: "'m pq_shared \<Rightarrow> 'm system" where
  "idle_system s = \<lparr>sy_sem = 1, sy_file = s, sy_procs = (\<lambda>i. Outside), sy_log = []\<rparr>"

section \<open>One call after the other\<close>

text \<open>
  The invariant while nobody starts: the semaphore is free and nobody is inside, or one process
  is, some steps into its call; the file before that call holds what the calls in the log make of
  a bounded list, and the answers are those of the list.
\<close>

definition file_ready :: "(nat \<Rightarrow> pq_ref) \<Rightarrow> 'm pq_shared \<Rightarrow> bool" where
  "file_ready refs s \<longleftrightarrow> pq_inv s \<and> (\<forall>i. all_mapped (refs i) s)"

abbreviation fifo_calls :: "nat \<Rightarrow> 'm list \<Rightarrow> 'm qop list \<Rightarrow> 'm list \<times> (int \<times> 'm option) list" where
  "fifo_calls cap \<equiv> fifo_run cap PQ_MESSAGE_SIZE_REACHED_ERROR PQ_MESSAGE_QUEUE_EMPTY_ERROR"

definition log_explains :: "nat \<Rightarrow> 'm list \<Rightarrow> ('m qop \<times> int \<times> 'm option) list \<Rightarrow> 'm pq_shared \<Rightarrow> bool" where
  "log_explains cap q0 log s \<longleftrightarrow>
     nat (message_max_count s) = cap \<and> fifo_calls cap q0 (map fst log) = (pq_list s, map snd log)"

definition inside_one :: "(nat \<Rightarrow> pq_ref) \<Rightarrow> nat \<Rightarrow> 'm pq_shared \<Rightarrow> 'm system \<Rightarrow> bool" where
  "inside_one refs i s0 y \<longleftrightarrow> sy_sem y = 0 \<and> (\<forall>j. j \<noteq> i \<longrightarrow> sy_procs y j = Outside)
     \<and> (\<exists>x c k. sy_procs y i = Inside x c \<and> cs_iter (refs i) k (Test x, s0) = Inr (c, sy_file y))"

definition serialized :: "nat \<Rightarrow> (nat \<Rightarrow> pq_ref) \<Rightarrow> 'm list \<Rightarrow> 'm system \<Rightarrow> bool" where
  "serialized cap refs q0 y \<longleftrightarrow> (\<exists>s0. file_ready refs s0 \<and> log_explains cap q0 (sy_log y) s0
     \<and> (sy_sem y = 1 \<and> (\<forall>i. sy_procs y i = Outside) \<and> sy_file y = s0 \<or> (\<exists>i. inside_one refs i s0 y)))"

lemma call_locked_refines:
  assumes "pq_inv s" "all_mapped ref s"
  shows "\<exists>s' c r. call_locked ref x s = Inr (s', c, r) \<and> pq_inv s' \<and> message_max_count s' = message_max_count s
    \<and> fifo_step (nat (message_max_count s)) PQ_MESSAGE_SIZE_REACHED_ERROR PQ_MESSAGE_QUEUE_EMPTY_ERROR (pq_list s) x
        = (pq_list s', c, r)"
proof -
  have len: "length (pq_list s) = nat (message_count s)" by (rule pq_list_length [OF assms(1)])
  have count: "0 \<le> message_count s" "message_count s \<le> message_max_count s" using assms(1) by (simp_all add: pq_inv_def)
  show ?thesis
  proof (cases x)
    case (Enq m)
    show ?thesis
    proof (cases "message_count s < message_max_count s")
      case True
      then show ?thesis using pq_enqueue_refines [OF assms, of m] Enq len count by auto
    next
      case False
      then show ?thesis using pq_enqueue_full [of s ref m] assms(1) Enq len count by simp
    qed
  next
    case Deq
    show ?thesis
    proof (cases "pq_list s")
      case Nil
      then show ?thesis using pq_dequeue_empty [of s ref] assms(1) Deq len count by simp
    next
      case (Cons m q)
      then show ?thesis using pq_dequeue_refines [OF assms] Deq by auto
    qed
  qed
qed

lemma fifo_run_snoc:
  "fifo_run cap full emp q xs = (q', rs) \<Longrightarrow> fifo_step cap full emp q' x = (q'', r) \<Longrightarrow>
     fifo_run cap full emp q (xs @ [x]) = (q'', rs @ [r])"
  by (induction xs arbitrary: q q' rs) (auto split: prod.splits)

text \<open>A call under way never faults, and ends with the answer of the call as a whole.\<close>

lemma cs_under_way:
  assumes "pq_inv s0" "all_mapped ref s0" "cs_iter ref k (Test x, s0) = Inr (c, s)"
  shows "\<exists>c' s'. cs_step ref c s = Inr (c', s') \<and> cs_iter ref (Suc k) (Test x, s0) = Inr (c', s')"
    and "c = Done code r \<Longrightarrow> call_locked ref x s0 = Inr (s, code, r)"
proof -
  obtain s' code' r' where locked: "call_locked ref x s0 = Inr (s', code', r')"
    using call_locked_refines [OF assms(1,2)] by blast
  then have six: "cs_iter ref 6 (Test x, s0) = Inr (Done code' r', s')" by (simp add: cs_runs_locked)
  then have late: "cs_iter ref (6 + n) (Test x, s0) = Inr (Done code' r', s')" for n
    by (simp only: cs_iter_add rbind_Inr cs_iter_done)
  have rest: "cs_iter ref (k + n) (Test x, s0) = cs_iter ref n (c, s)" for n
    using assms(3) by (simp add: cs_iter_add)
  have "cs_iter ref (Suc 5) (c, s) = Inr (Done code' r', s')"
    using late [of k] rest [of 6] by (simp add: add.commute)
  then have "rbind (cs_step ref c s) (cs_iter ref 5) = Inr (Done code' r', s')" unfolding cs_iter.simps .
  then show "\<exists>c' s'. cs_step ref c s = Inr (c', s') \<and> cs_iter ref (Suc k) (Test x, s0) = Inr (c', s')"
    using rest [of 1] by (cases "cs_step ref c s") auto
  assume "c = Done code r"
  then have "cs_iter ref (k + 6) (Test x, s0) = Inr (Done code r, s)" using rest cs_iter_done by metis
  then show "call_locked ref x s0 = Inr (s, code, r)"
    using late [of k] locked by (simp add: add.commute)
qed

lemma serialized_step:
  assumes step: "system_step False refs y y'" and inv: "serialized cap refs q0 y"
  shows "serialized cap refs q0 y'"
proof -
  obtain s0 where s0: "file_ready refs s0" "log_explains cap q0 (sy_log y) s0"
    and one: "sy_sem y = 1 \<and> (\<forall>i. sy_procs y i = Outside) \<and> sy_file y = s0 \<or> (\<exists>i. inside_one refs i s0 y)"
    using inv unfolding serialized_def by blast
  have ready: "pq_inv s0" "all_mapped (refs i) s0" for i using s0(1) by (simp_all add: file_ready_def)
  have inside: "inside_one refs i s0 y" if "sy_procs y i = Inside x c" for i x c
    using one that unfolding inside_one_def by (metis proc.distinct(1))
  from step show ?thesis
  proof (cases rule: system_stepE)
    case (call i v x)
    then have "sy_sem y = 1" "\<forall>i. sy_procs y i = Outside" "sy_file y = s0"
      using one by (auto simp: inside_one_def sem_wait_def)
    then have "inside_one refs i s0 y'" unfolding inside_one_def call(1)
      using call(3) by (auto simp: sem_wait_def intro!: exI [of _ "0 :: nat"])
    then show ?thesis using s0 call(1) unfolding serialized_def by auto
  next
    case (access i x c c' s)
    obtain k where k: "cs_iter (refs i) k (Test x, s0) = Inr (c, sy_file y)"
      using inside [OF access(2)] access(2) by (auto simp: inside_one_def)
    have "cs_iter (refs i) (Suc k) (Test x, s0) = Inr (c', s)"
      using cs_under_way(1) [OF ready k] access(3) by auto
    then have "inside_one refs i s0 y'"
      using inside [OF access(2)] unfolding inside_one_def access(1) by (auto simp del: cs_iter.simps)
    then show ?thesis using s0 access(1) unfolding serialized_def by auto
  next
    case (return i x code r)
    have in_y: "inside_one refs i s0 y" using inside [OF return(2)] .
    obtain k where "cs_iter (refs i) k (Test x, s0) = Inr (Done code r, sy_file y)"
      using in_y return(2) by (auto simp: inside_one_def)
    then have locked: "call_locked (refs i) x s0 = Inr (sy_file y, code, r)"
      using cs_under_way(2) [OF ready] by blast
    then have s: "pq_inv (sy_file y)" "message_max_count (sy_file y) = message_max_count s0"
      "fifo_step cap PQ_MESSAGE_SIZE_REACHED_ERROR PQ_MESSAGE_QUEUE_EMPTY_ERROR (pq_list s0) x = (pq_list (sy_file y), code, r)"
      using call_locked_refines [OF ready(1), of "refs i" x] ready(2) s0(2) by (auto simp: log_explains_def)
    have "file_ready refs (sy_file y)" using s(1,2) s0(1) by (simp add: file_ready_def all_mapped_def)
    moreover have "log_explains cap q0 (sy_log y') (sy_file y)"
      using s0(2) s(2) fifo_run_snoc [OF _ s(3), of q0 "map fst (sy_log y)" "map snd (sy_log y)"]
      by (simp add: log_explains_def return(1))
    moreover have "sy_sem y' = 1" "\<forall>j. sy_procs y' j = Outside" "sy_file y' = sy_file y"
      using in_y by (auto simp: inside_one_def return(1) sem_post_def)
    ultimately show ?thesis unfolding serialized_def by blast
  next
    case start
    then show ?thesis by simp
  qed
qed

lemma serialized_init:
  "file_ready refs s \<Longrightarrow> serialized (nat (message_max_count s)) refs (pq_list s) (idle_system s)"
  unfolding serialized_def by (auto simp: idle_system_def log_explains_def)

lemma serialized_reachable:
  "reachable False refs y0 y \<Longrightarrow> serialized cap refs q0 y0 \<Longrightarrow> serialized cap refs q0 y"
  by (induction rule: reachable.induct) (blast intro: serialized_step)+

lemma reachable_serialized:
  assumes "reachable False refs (idle_system s) y" "pq_inv s" "\<forall>i. all_mapped (refs i) s"
  shows "serialized (nat (message_max_count s)) refs (pq_list s) y"
  using serialized_reachable [OF assms(1)] serialized_init [of refs s] assms(2,3) by (simp add: file_ready_def)

text \<open>
  C9. As long as nobody starts while others run, the semaphore does its work: however the accesses
  of any number of processes interleave, at most one of them is in a call, no access leaves the
  file or faults, and when all calls have ended the file holds, and the calls have answered, what
  the same calls one after the other make of a bounded list.
\<close>

theorem interleavings_serialize:
  assumes "reachable False refs (idle_system s) y" "pq_inv s" "\<forall>i. all_mapped (refs i) s"
  shows "(\<forall>i j. sy_procs y i \<noteq> Outside \<longrightarrow> sy_procs y j \<noteq> Outside \<longrightarrow> i = j)
    \<and> (\<forall>i x c. sy_procs y i = Inside x c \<longrightarrow> is_ok (cs_step (refs i) c (sy_file y)))
    \<and> ((\<forall>i. sy_procs y i = Outside) \<longrightarrow> sy_sem y = 1 \<and>
        fifo_calls (nat (message_max_count s)) (pq_list s) (map fst (sy_log y)) = (pq_list (sy_file y), map snd (sy_log y)))"
proof -
  obtain s0 where s0: "file_ready refs s0" "log_explains (nat (message_max_count s)) (pq_list s) (sy_log y) s0"
    "sy_sem y = 1 \<and> (\<forall>i. sy_procs y i = Outside) \<and> sy_file y = s0 \<or> (\<exists>i. inside_one refs i s0 y)"
    using reachable_serialized [OF assms] unfolding serialized_def by blast
  from s0(3) show ?thesis
  proof
    assume "sy_sem y = 1 \<and> (\<forall>i. sy_procs y i = Outside) \<and> sy_file y = s0"
    then show ?thesis using s0(2) by (simp add: log_explains_def)
  next
    assume "\<exists>i. inside_one refs i s0 y"
    then obtain i x c k where i: "\<forall>j. j \<noteq> i \<longrightarrow> sy_procs y j = Outside" "sy_procs y i = Inside x c"
      "cs_iter (refs i) k (Test x, s0) = Inr (c, sy_file y)" unfolding inside_one_def by blast
    have "is_ok (cs_step (refs i) c (sy_file y))"
      using cs_under_way(1) [OF _ _ i(3)] s0(1) by (fastforce simp: file_ready_def is_ok_iff)
    then show ?thesis using i(1,2) by (metis proc.distinct(1) proc.inject)
  qed
qed

section \<open>Every mail once\<close>

text \<open>The messages that the calls in a log put into the queue, and those they took out of it.\<close>

fun accepted :: "('m qop \<times> int \<times> 'm option) list \<Rightarrow> 'm list" where
  "accepted [] = []"
| "accepted ((Enq m, c, r) # log) = (if c = 0 then [m] else []) @ accepted log"
| "accepted ((Deq, c, r) # log) = accepted log"

fun delivered :: "('m qop \<times> int \<times> 'm option) list \<Rightarrow> 'm list" where
  "delivered [] = []"
| "delivered ((x, c, r) # log) = (case r of None \<Rightarrow> [] | Some m \<Rightarrow> [m]) @ delivered log"

lemma fifo_conserves:
  "fifo_run cap full emp q (map fst log) = (q', map snd log) \<Longrightarrow> full \<noteq> 0 \<Longrightarrow> q @ accepted log = delivered log @ q'"
proof (induction log arbitrary: q)
  case (Cons e log)
  obtain x c r where e: "e = (x, c, r)" by (cases e)
  then obtain q1 where q1: "fifo_step cap full emp q x = (q1, c, r)" "fifo_run cap full emp q1 (map fst log) = (q', map snd log)"
    using Cons.prems(1) by (auto split: prod.splits)
  note IH = Cons.IH [OF q1(2) Cons.prems(2)]
  show ?case
  proof (cases x)
    case (Enq m)
    then show ?thesis using IH q1(1) e Cons.prems(2) by (auto split: if_splits)
  next
    case Deq
    then show ?thesis using IH q1(1) e by (auto split: list.splits)
  qed
qed simp

text \<open>
  C10. Nothing is lost, invented, reordered or handled twice: however many processes enqueue and dequeue
  and however their accesses interleave, the messages taken out so far are the first of those
  that were in the file or were accepted since, in that order; the others are in the file
  once all calls have ended. (Again as long as no process starts.)
\<close>

theorem mails_delivered_once:
  assumes "reachable False refs (idle_system s) y" "pq_inv s" "\<forall>i. all_mapped (refs i) s"
  shows "\<exists>rest. pq_list s @ accepted (sy_log y) = delivered (sy_log y) @ rest
    \<and> length rest \<le> nat (message_max_count s) \<and> ((\<forall>i. sy_procs y i = Outside) \<longrightarrow> pq_list (sy_file y) = rest)"
proof -
  obtain s0 where s0: "file_ready refs s0" "log_explains (nat (message_max_count s)) (pq_list s) (sy_log y) s0"
    "sy_sem y = 1 \<and> (\<forall>i. sy_procs y i = Outside) \<and> sy_file y = s0 \<or> (\<exists>i. inside_one refs i s0 y)"
    using reachable_serialized [OF assms] unfolding serialized_def by blast
  have "pq_list s @ accepted (sy_log y) = delivered (sy_log y) @ pq_list s0"
    by (rule fifo_conserves [of "nat (message_max_count s)" PQ_MESSAGE_SIZE_REACHED_ERROR PQ_MESSAGE_QUEUE_EMPTY_ERROR])
       (use s0(2) in \<open>simp_all add: log_explains_def pq_errors\<close>)
  moreover have "length (pq_list s0) \<le> nat (message_max_count s)"
  proof -
    have "pq_inv s0" "nat (message_max_count s0) = nat (message_max_count s)"
      using s0(1,2) by (simp_all add: file_ready_def log_explains_def)
    then show ?thesis using pq_list_length [of s0] nat_mono [of "message_count s0" "message_max_count s0"]
      by (simp add: pq_inv_def)
  qed
  moreover have "sy_file y = s0" if "\<forall>i. sy_procs y i = Outside"
    using s0(3) that by (auto simp: inside_one_def)
  ultimately show ?thesis by blast
qed

section \<open>Schedules\<close>

datatype 'm action = Call nat "'m qop" | Access nat | Return nat | Start

fun act :: "(nat \<Rightarrow> pq_ref) \<Rightarrow> 'm action \<Rightarrow> 'm system \<Rightarrow> 'm system option" where
  "act refs (Call i x) y =
     (case (sy_procs y i, sem_wait (sy_sem y)) of
        (Outside, Some v) \<Rightarrow> Some (y\<lparr>sy_sem := v, sy_procs := (sy_procs y)(i := Inside x (Test x))\<rparr>)
      | _ \<Rightarrow> None)"
| "act refs (Access i) y =
     (case sy_procs y i of
        Outside \<Rightarrow> None
      | Inside x c \<Rightarrow> (case cs_step (refs i) c (sy_file y) of
            Inl e \<Rightarrow> None
          | Inr (c', s) \<Rightarrow> Some (y\<lparr>sy_file := s, sy_procs := (sy_procs y)(i := Inside x c')\<rparr>)))"
| "act refs (Return i) y =
     (case sy_procs y i of
        Inside x (Done code r) \<Rightarrow> Some (y\<lparr>sy_sem := sem_post (sy_sem y), sy_procs := (sy_procs y)(i := Outside),
          sy_log := sy_log y @ [(x, code, r)]\<rparr>)
      | _ \<Rightarrow> None)"
| "act refs Start y = Some (y\<lparr>sy_sem := semaphore_init (sy_sem y)\<rparr>)"

fun schedule :: "(nat \<Rightarrow> pq_ref) \<Rightarrow> 'm action list \<Rightarrow> 'm system \<Rightarrow> 'm system option" where
  "schedule refs [] y = Some y"
| "schedule refs (a # as) y = (case act refs a y of None \<Rightarrow> None | Some y \<Rightarrow> schedule refs as y)"

lemma act_step: "act refs a y = Some y' \<Longrightarrow> a = Start \<longrightarrow> starts \<Longrightarrow> system_step starts refs y y'"
  by (cases a) (auto intro: system_step.intros split: proc.splits option.splits sum.splits cs_pc.splits)

lemma schedule_reachable:
  "schedule refs as y1 = Some y \<Longrightarrow> Start \<in> set as \<longrightarrow> starts \<Longrightarrow> reachable starts refs y0 y1 \<Longrightarrow>
     reachable starts refs y0 y"
proof (induction as arbitrary: y1)
  case (Cons a as)
  then obtain y2 where y2: "act refs a y1 = Some y2" "schedule refs as y2 = Some y" by (auto split: option.splits)
  have "a = Start \<longrightarrow> starts" "Start \<in> set as \<longrightarrow> starts" using Cons.prems(2) by auto
  then show ?case
    using Cons.IH [OF y2(2)] reachable.step [OF Cons.prems(3) act_step [OF y2(1)]] by blast
qed simp

section \<open>Two runs\<close>

text \<open>A queue of two slots that holds one message, and processes that map all of it.\<close>

definition one_of_two :: "'m \<Rightarrow> 'm \<Rightarrow> 'm pq_shared" where
  "one_of_two m z = \<lparr>write_offset = 1, read_offset = 0, message_count = 1, message_max_count = 2, memory_size = 0,
     slots = [m, z], hdr_dirty = False, slot_dirty = [False, False]\<rparr>"

definition big_refs :: "nat \<Rightarrow> pq_ref" where
  "big_refs i = \<lparr>map_len = 100000\<rparr>"

lemma one_of_two_ready: "pq_inv (one_of_two m z)" "all_mapped (big_refs i) (one_of_two m z)" "pq_list (one_of_two m z) = [m]"
  by (simp_all add: one_of_two_def pq_inv_def all_mapped_def big_refs_def slot_addr_def page_up_def page_size_def
      sz_values pq_list_def slot_index_def)

lemma small_smod: "(1 :: int) smod 2 = 1"
  by (simp_all add: signed_modulo_int_def)

lemmas run_simps = idle_system_def one_of_two_def big_refs_def sem_wait_def sem_post_def
  semaphore_init_def slot_mapped_def slot_addr_def page_up_def page_size_def sz_values next_offset_def

lemma wrapped_two:
  assumes "read_offset s = 1" "message_count s = 2" "message_max_count s = 2" "slots s = [m1, m2]"
  shows "pq_list s = [m2, m1]"
proof -
  have "[0..<nat 2] = [0, 1]" by (simp add: numeral_2_eq_2)
  then have "pq_list s = map (\<lambda>i. [m1, m2] ! nat ((1 + int i) mod 2)) [0, 1]"
    unfolding pq_list_def slot_index_def assms by simp
  then show ?thesis by simp
qed

definition whole_call :: "nat \<Rightarrow> 'm qop \<Rightarrow> 'm action list" where
  "whole_call i x = [Call i x, Access i, Access i, Access i, Access i, Access i, Access i, Return i]"

definition torn_calls :: "'m \<Rightarrow> 'm action list" where
  "torn_calls m = [Call 0 (Enq m), Access 0, Access 0, Access 0, Access 0, Start]
     @ whole_call 1 Deq @ [Access 0, Access 0, Return 0]"

text \<open>
  C11. A process that starts while another one is in a call frees the semaphore under it. Here a
  handler takes the only mail between a worker's load and store of the counter: both calls
  answer that all went well, and then the queue holds the mail that was handled once more,
  behind the new one, and the semaphore lets two processes in at a time from then on.
\<close>

theorem start_breaks_exclusion:
  "\<exists>y. reachable True big_refs (idle_system (one_of_two m1 z)) y \<and> (\<forall>i. sy_procs y i = Outside)
    \<and> sy_log y = [(Deq, 0, Some m1), (Enq m2, 0, None)] \<and> sy_sem y = 2
    \<and> pq_list (sy_file y) = [m2, m1] \<and> pq_list (one_of_two m1 z) = [m1]"
proof -
  let ?y = "idle_system (one_of_two m1 z)"
  define y where "y = the (schedule big_refs (torn_calls m2) ?y)"
  have y: "schedule big_refs (torn_calls m2) ?y = Some y" "\<forall>i. sy_procs y i = Outside"
    "sy_log y = [(Deq, 0, Some m1), (Enq m2, 0, None)]" "sy_sem y = 2" "read_offset (sy_file y) = 1 smod 2"
    "message_count (sy_file y) = 2" "message_max_count (sy_file y) = 2" "slots (sy_file y) = [m1, m2]"
    by (simp_all add: y_def torn_calls_def whole_call_def run_simps)
  have "pq_list (sy_file y) = [m2, m1]"
    by (rule wrapped_two) (simp_all only: y(5-8) small_smod)
  moreover have "reachable True big_refs ?y y"
    by (rule schedule_reachable [OF y(1) _ reachable.init]) simp
  ultimately show ?thesis using y(2-4) one_of_two_ready(3) [of m1 z] by blast
qed

lemma enqueue_dequeue_run:
  "\<exists>y. schedule big_refs (whole_call 0 (Enq 2) @ whole_call 1 Deq) (idle_system (one_of_two (1 :: nat) 0)) = Some y
    \<and> reachable False big_refs (idle_system (one_of_two 1 0)) y \<and> sy_log y = [(Enq 2, 0, None), (Deq, 0, Some 1)]
    \<and> (\<forall>i. sy_procs y i = Outside)"
proof -
  obtain y where y: "schedule big_refs (whole_call 0 (Enq 2) @ whole_call 1 Deq) (idle_system (one_of_two (1 :: nat) 0)) = Some y"
    "sy_log y = [(Enq 2, 0, None), (Deq, 0, Some 1)]" "\<forall>i. sy_procs y i = Outside"
    by (simp add: whole_call_def run_simps)
  then show ?thesis using schedule_reachable [OF y(1) _ reachable.init] by (simp add: whole_call_def)
qed

theorem mails_delivered_once_witness:
  "\<exists>y. reachable False big_refs (idle_system (one_of_two (1 :: nat) 0)) y
    \<and> accepted (sy_log y) = [2] \<and> delivered (sy_log y) = [1] \<and> pq_list (sy_file y) = [2]"
proof -
  obtain y where y: "reachable False big_refs (idle_system (one_of_two (1 :: nat) 0)) y"
    "sy_log y = [(Enq 2, 0, None), (Deq, 0, Some 1)]" "\<forall>i. sy_procs y i = Outside"
    using enqueue_dequeue_run by blast
  have mapped: "\<forall>i. all_mapped (big_refs i) (one_of_two (1 :: nat) 0)" by (simp add: one_of_two_ready)
  have "accepted (sy_log y) = [2]" "delivered (sy_log y) = [1]" by (simp_all add: y(2))
  moreover obtain rest where "pq_list (one_of_two (1 :: nat) 0) @ accepted (sy_log y) = delivered (sy_log y) @ rest"
    "pq_list (sy_file y) = rest"
    using mails_delivered_once [OF y(1) one_of_two_ready(1) mapped] y(3) by blast
  ultimately show ?thesis using y(1) by (auto simp: one_of_two_ready(3))
qed

theorem interleavings_serialize_witness:
  "\<exists>y. reachable False big_refs (idle_system (one_of_two (1 :: nat) 0)) y \<and> map fst (sy_log y) = [Enq 2, Deq] \<and> sy_sem y = 1
    \<and> fifo_calls 2 [1] (map fst (sy_log y)) = (pq_list (sy_file y), map snd (sy_log y))"
proof -
  obtain y where run: "reachable False big_refs (idle_system (one_of_two (1 :: nat) 0)) y"
    and y: "map fst (sy_log y) = [Enq 2, Deq]" "\<forall>i. sy_procs y i = Outside"
    using enqueue_dequeue_run by auto
  have mapped: "\<forall>i. all_mapped (big_refs i) (one_of_two (1 :: nat) 0)"
    by (simp add: one_of_two_ready)
  have "sy_sem y = 1 \<and> fifo_calls (nat (message_max_count (one_of_two (1 :: nat) 0)))
      (pq_list (one_of_two (1 :: nat) 0)) (map fst (sy_log y)) = (pq_list (sy_file y), map snd (sy_log y))"
    using interleavings_serialize [OF run one_of_two_ready(1)] y(2) mapped by blast
  moreover have "nat (message_max_count (one_of_two (1 :: nat) 0)) = 2" by (simp add: one_of_two_def)
  ultimately show ?thesis using run y(1) one_of_two_ready(3) by metis
qed

end
