(* ===== verification/Sockets_Events.thy ===== *)
theory Sockets_Events
  imports Config_File
begin

text \<open>
  \<^verbatim>\<open>src/lock.c\<close>, \<^verbatim>\<open>src/safe.c\<close>, \<^verbatim>\<open>src/socket.c\<close> and \<^verbatim>\<open>src/events.c\<close> (as it is
  compiled with epoll): the layer between the server and the kernel.

  The kernel is a parameter of type \<open>kernel\<close>: what a call answers, given all calls so far. The
  functions return the calls they made, so that a property can say which calls happen. The
  structures whose memory the code reads as another type, \<open>sock\<close> and the array of events, are
  modelled word by word (four bytes each).
\<close>

unbundle bit_operations_syntax

section \<open>Locks and warnings\<close>

text \<open>A lock is the value of its semaphore; \<open>None\<close> where a wait blocks.\<close>

definition lock_init :: nat where
  "lock_init = 1"

definition lock_lock :: "nat \<Rightarrow> nat option" where
  "lock_lock l = (if l > 0 then Some (l - 1) else None)"

definition lock_unlock :: "nat \<Rightarrow> nat" where
  "lock_unlock l = l + 1"

definition lock_free :: "nat \<Rightarrow> nat option" where
  "lock_free l = None"

text \<open>A warning, whose text has no conversions in it, goes to the output.\<close>

definition safe_warn :: "string \<Rightarrow> nat \<times> string \<Rightarrow> (nat \<times> string) option" where
  "safe_warn format st =
     (case st of (lock_log, out) \<Rightarrow>
        (case lock_lock lock_log of
           None \<Rightarrow> None
         | Some lock_log \<Rightarrow>
             let out = out @ ''WARNING '';
                 out = out @ format;
                 out = out @ [LF]
             in Some (lock_unlock lock_log, out)))"

section \<open>The kernel\<close>

datatype sock_option = SO_REUSEADDR | SO_SNDBUF | SO_RCVBUF | TCP_NODELAY | TCP_QUICKACK

text \<open>The value of an option is \<open>None\<close> where it is read from memory that was never written.\<close>

datatype sys_call =
    Sys_Socket
  | Sys_Setsockopt int sock_option "int option"
  | Sys_Getfl int
  | Sys_Setfl int int
  | Sys_Bind int "int list"
  | Sys_Listen int int
  | Sys_Accept int
  | Sys_Close int
  | Sys_Epoll_Create int
  | Sys_Epoll_Add int int int
  | Sys_Epoll_Del int int

type_synonym kernel = "sys_call list \<Rightarrow> int"

definition sys :: "kernel \<Rightarrow> sys_call \<Rightarrow> sys_call list \<Rightarrow> int \<times> sys_call list" where
  "sys os c calls = (os (calls @ [c]), calls @ [c])"

section \<open>Sockets\<close>

definition AF_INET :: int where "AF_INET = 2"
definition INADDR_ANY :: int where "INADDR_ANY = 0"
definition O_NONBLOCK :: int where "O_NONBLOCK = 2048"

definition htons :: "int \<Rightarrow> int" where
  "htons p = (p mod 256) * 256 + (p div 256) mod 256"

text \<open>
  A \<open>sock\<close>: descriptor, port, length of an address, and two addresses of four words. The first
  word of an address holds the family and above it the port.
\<close>

record sock =
  so_fd :: "int option"
  so_listen_port :: int
  so_clilen :: int
  so_serv_addr :: "int list"
  so_cli_addr :: "int option list"

definition socket_init :: sock where
  "socket_init = \<lparr>so_fd = None, so_listen_port = 0, so_clilen = 16, so_serv_addr = [0, 0, 0, 0],
     so_cli_addr = [None, None, None, None]\<rparr>"

definition sock_words :: "sock \<Rightarrow> int option list" where
  "sock_words s = [so_fd s, Some (so_listen_port s), Some (so_clilen s)] @ map Some (so_serv_addr s) @ so_cli_addr s"

text \<open>
  The options of a connection, as they are read through a pointer to \<open>config\<close>: \<open>tcp_nodelay\<close>,
  \<open>write_buffer_size\<close> and \<open>read_buffer_size\<close> are its ninth, seventh and sixth \<open>int\<close>.
\<close>

record sock_settings =
  st_nodelay :: "int option"
  st_sndbuf :: "int option"
  st_rcvbuf :: "int option"

definition config_settings :: "config \<Rightarrow> sock_settings" where
  "config_settings cfg = \<lparr>st_nodelay = Some (tcp_nodelay cfg), st_sndbuf = Some (write_buffer_size cfg),
     st_rcvbuf = Some (read_buffer_size cfg)\<rparr>"

definition sock_as_config :: "sock \<Rightarrow> sock_settings" where
  "sock_as_config s = \<lparr>st_nodelay = sock_words s ! 8, st_sndbuf = sock_words s ! 6, st_rcvbuf = sock_words s ! 5\<rparr>"

definition socket_setup :: "kernel \<Rightarrow> sock_settings \<Rightarrow> int \<Rightarrow> sys_call list \<Rightarrow> int \<times> sys_call list" where
  "socket_setup os st fd calls =
     (case sys os (Sys_Setsockopt fd TCP_NODELAY (st_nodelay st)) calls of (r, calls) \<Rightarrow>
      if r = -1 then (-1, calls)
      else (case sys os (Sys_Setsockopt fd SO_SNDBUF (st_sndbuf st)) calls of (r, calls) \<Rightarrow>
      if r = -1 then (-1, calls)
      else (case sys os (Sys_Setsockopt fd SO_RCVBUF (st_rcvbuf st)) calls of (r, calls) \<Rightarrow>
      if r = -1 then (-1, calls) else (0, calls))))"

definition socket_setnonblocking :: "kernel \<Rightarrow> int \<Rightarrow> sys_call list \<Rightarrow> int \<times> sys_call list" where
  "socket_setnonblocking os fd calls =
     (case sys os (Sys_Getfl fd) calls of (r, calls) \<Rightarrow>
      let flags = (if r = -1 then 0 else r) in
      sys os (Sys_Setfl fd (flags OR O_NONBLOCK)) calls)"

definition socket_setquickack :: "kernel \<Rightarrow> int \<Rightarrow> sys_call list \<Rightarrow> int \<times> sys_call list" where
  "socket_setquickack os fd calls =
     (case sys os (Sys_Setsockopt fd TCP_QUICKACK (Some 0)) calls of (r, calls) \<Rightarrow>
      if r = -1 then (-1, calls) else (0, calls))"

definition socket_listen_setup :: "kernel \<Rightarrow> sock_settings \<Rightarrow> int \<Rightarrow> sys_call list \<Rightarrow> int \<times> sys_call list" where
  "socket_listen_setup os st fd calls =
     (case sys os (Sys_Setsockopt fd TCP_NODELAY (st_nodelay st)) calls of (r, calls) \<Rightarrow>
      if r = -1 then (-1, calls)
      else (case sys os (Sys_Setsockopt fd SO_SNDBUF (st_sndbuf st)) calls of (r, calls) \<Rightarrow>
      if r = -1 then (-1, calls)
      else (case sys os (Sys_Setsockopt fd SO_RCVBUF (st_rcvbuf st)) calls of (r, calls) \<Rightarrow>
      if r = -1 then (-1, calls)
      else (case socket_setnonblocking os fd calls of (r, calls) \<Rightarrow> (0, calls)))))"

text \<open>
  \<open>socket_listen\<close> hands its \<open>server\<close> to \<open>socket_listen_setup\<close>, which takes it for a
  \<open>master_server\<close>: where that keeps its configuration, a \<open>server\<close> keeps its socket.
\<close>

definition socket_listen :: "kernel \<Rightarrow> config \<Rightarrow> sock \<Rightarrow> sys_call list \<Rightarrow> int \<times> sock \<times> sys_call list" where
  "socket_listen os cfg s calls =
     (case sys os Sys_Socket calls of (fd, calls) \<Rightarrow>
      let s = s\<lparr>so_fd := Some fd\<rparr> in
      if fd = -1 then (-1, s, calls)
      else (case sys os (Sys_Setsockopt fd SO_REUSEADDR (Some 1)) calls of (r, calls) \<Rightarrow>
      if r = -1 then (-1, s, calls)
      else (case socket_listen_setup os (sock_as_config s) fd calls of (r, calls) \<Rightarrow>
      if r = -1 then (-1, s, calls)
      else
        let s = s\<lparr>so_listen_port := listen_port cfg,
                  so_serv_addr := [AF_INET + 65536 * htons (listen_port cfg), INADDR_ANY] @ drop 2 (so_serv_addr s)\<rparr> in
        (case sys os (Sys_Bind fd (so_serv_addr s)) calls of (r, calls) \<Rightarrow>
        if r = -1 then (-1, s, calls)
        else (case sys os (Sys_Listen fd (max_pending cfg)) calls of (r, calls) \<Rightarrow>
        if r < 0 then (-1, s, calls)
        else (case socket_setquickack os fd calls of (r, calls) \<Rightarrow> (0, s, calls)))))))"

text \<open>\<open>accept\<close> and \<open>read\<close> with what they answer; \<open>None\<close> where the descriptor was never set.\<close>

definition socket_accept :: "kernel \<Rightarrow> sock \<Rightarrow> sys_call list \<Rightarrow> (int \<times> sys_call list) res" where
  "socket_accept os s calls =
     (case so_fd s of None \<Rightarrow> Inl Uninit_Read | Some fd \<Rightarrow> Inr (sys os (Sys_Accept fd) calls))"

definition socket_close :: "kernel \<Rightarrow> sock \<Rightarrow> sys_call list \<Rightarrow> (int \<times> sys_call list) res" where
  "socket_close os s calls =
     (case so_fd s of None \<Rightarrow> Inl Uninit_Read
      | Some fd \<Rightarrow> Inr (case sys os (Sys_Close fd) calls of (r, calls) \<Rightarrow> (0, calls)))"

definition socket_free :: "sock \<Rightarrow> sock option" where
  "socket_free s = None"

section \<open>Events\<close>

definition EPOLLIN :: int where "EPOLLIN = 1"
definition EPOLLRDHUP :: int where "EPOLLRDHUP = 8192"
definition EPOLLET :: int where "EPOLLET = 2147483648"

text \<open>
  An event as the kernel writes it, twelve bytes: the flags, the descriptor and the rest of its
  data. The array of a handler was allocated for pointers of eight bytes: a word of it is
  half of the pointer to the \<open>k\<close>-th event that \<open>events_create\<close> allocated, or a number.
\<close>

record epoll_event =
  ev_events :: int
  ev_fd :: int
  ev_pad :: int

datatype ev_word = Half nat | Num int

record event_handler =
  eh_fd :: int
  eh_array :: "ev_word list"

text \<open>\<open>None\<close> where the process exits.\<close>

definition events_create :: "kernel \<Rightarrow> int \<Rightarrow> sys_call list \<Rightarrow> (event_handler \<times> sys_call list) option" where
  "events_create os n calls =
     (let events = concat (map (\<lambda>k. [Half k, Half k]) [0..<nat n]) in
      case sys os (Sys_Epoll_Create n) calls of (fd, calls) \<Rightarrow>
      if fd = -1 then None else Some (\<lparr>eh_fd = fd, eh_array = events\<rparr>, calls))"

definition events_add_event :: "kernel \<Rightarrow> event_handler \<Rightarrow> int \<Rightarrow> sys_call list \<Rightarrow> int \<times> sys_call list" where
  "events_add_event os evhand fd calls =
     (case sys os (Sys_Epoll_Add (eh_fd evhand) fd EPOLLIN) calls of (r, calls) \<Rightarrow>
      if r = -1 then (-1, calls) else (0, calls))"

definition events_add_event_2 :: "kernel \<Rightarrow> event_handler \<Rightarrow> int \<Rightarrow> sys_call list \<Rightarrow> int \<times> sys_call list" where
  "events_add_event_2 os evhand fd calls =
     (case sys os (Sys_Epoll_Add (eh_fd evhand) fd (EPOLLIN OR EPOLLET OR EPOLLRDHUP)) calls of (r, calls) \<Rightarrow>
      if r = -1 then (-1, calls) else (0, calls))"

definition events_del_event :: "kernel \<Rightarrow> event_handler \<Rightarrow> int \<Rightarrow> sys_call list \<Rightarrow> int \<times> sys_call list" where
  "events_del_event os evhand fd calls =
     (case sys os (Sys_Epoll_Del (eh_fd evhand) fd) calls of (r, calls) \<Rightarrow>
      if r = -1 then (-1, calls) else (0, calls))"

text \<open>
  \<open>epoll_wait\<close> answers with at most \<open>max_clients\<close> events, or with \<open>None\<close> where it fails, and
  writes them from the start of the array.
\<close>

definition event_words :: "epoll_event \<Rightarrow> ev_word list" where
  "event_words e = [Num (ev_events e), Num (ev_fd e), Num (ev_pad e)]"

definition events_wait :: "config \<Rightarrow> epoll_event list option \<Rightarrow> event_handler \<Rightarrow> (event_handler \<times> int) res" where
  "events_wait cfg ready evhand =
     (case ready of
        None \<Rightarrow> Inr (evhand, -1)
      | Some es \<Rightarrow>
          let es = take (nat (max_clients cfg)) es;
              words = concat (map event_words es) in
          if length words \<le> length (eh_array evhand)
          then Inr (evhand\<lparr>eh_array := words @ drop (length words) (eh_array evhand)\<rparr>, int (length es))
          else Inl Out_Of_Bounds)"

definition event_word :: "event_handler \<Rightarrow> nat \<Rightarrow> int res" where
  "event_word evhand k =
     (if k < length (eh_array evhand)
      then (case eh_array evhand ! k of Num n \<Rightarrow> Inr n | Half p \<Rightarrow> Inl Uninit_Read)
      else Inl Out_Of_Bounds)"

definition events_closed :: "event_handler \<Rightarrow> nat \<Rightarrow> bool res" where
  "events_closed evhand num = rbind (event_word evhand (3 * num)) (\<lambda>flags. Inr (flags AND EPOLLRDHUP \<noteq> 0))"

definition events_get_fd :: "event_handler \<Rightarrow> nat \<Rightarrow> int res" where
  "events_get_fd evhand num = event_word evhand (3 * num + 1)"

text \<open>Freeing takes the words of the array in pairs for the pointers that they were once.\<close>

fun free_pointers :: "ev_word list \<Rightarrow> nat \<Rightarrow> nat \<Rightarrow> unit res" where
  "free_pointers ws k 0 = Inr ()"
| "free_pointers ws k (Suc n) =
     (if take 2 (drop (2 * k) ws) = [Half k, Half k] then free_pointers ws (Suc k) n else Inl Bad_Free)"

definition events_free :: "event_handler \<Rightarrow> int \<Rightarrow> int res" where
  "events_free evhand n = rbind (free_pointers (eh_array evhand) 0 (nat n)) (\<lambda>u. Inr 0)"

section \<open>Correctness\<close>

lemma event_words_length [simp]: "length (concat (map event_words es)) = 3 * length es"
  by (induction es) (simp_all add: event_words_def)

lemma event_words_nth:
  "num < length es \<Longrightarrow> concat (map event_words es) ! (3 * num) = Num (ev_events (es ! num))"
  "num < length es \<Longrightarrow> concat (map event_words es) ! (3 * num + 1) = Num (ev_fd (es ! num))"
proof (induction es arbitrary: num)
  case (Cons e es)
  { case 1 then show ?case using Cons.IH(1) by (cases num) (simp_all add: event_words_def) }
  { case 2 then show ?case using Cons.IH(2) by (cases num) (simp_all add: event_words_def) }
qed simp_all

lemma halves_length [simp]: "length (concat (map (\<lambda>k. [Half k, Half k]) [m..<n])) = 2 * (n - m)"
  by (simp add: length_concat comp_def sum_list_triv)

lemma events_create_array:
  "events_create os n calls = Some (evhand, calls') \<Longrightarrow>
     eh_array evhand = concat (map (\<lambda>k. [Half k, Half k]) [0..<nat n])"
  by (auto simp: events_create_def Let_def split: prod.splits if_splits)

lemma events_wait_fits:
  assumes "length es \<le> nat (max_clients cfg)" "3 * length es \<le> length (eh_array evhand)"
  shows "\<exists>evhand'. events_wait cfg (Some es) evhand = Inr (evhand', int (length es))
    \<and> length (eh_array evhand') = length (eh_array evhand) \<and> eh_fd evhand' = eh_fd evhand
    \<and> (\<forall>num < length es. events_get_fd evhand' num = Inr (ev_fd (es ! num))
        \<and> events_closed evhand' num = Inr (ev_events (es ! num) AND EPOLLRDHUP \<noteq> 0))"
proof -
  let ?words = "concat (map event_words es)"
  let ?e = "evhand\<lparr>eh_array := ?words @ drop (3 * length es) (eh_array evhand)\<rparr>"
  have "events_wait cfg (Some es) evhand = Inr (?e, int (length es))"
    using assms by (simp add: events_wait_def Let_def)
  moreover have "event_word ?e (3 * num) = Inr (ev_events (es ! num))" "event_word ?e (3 * num + 1) = Inr (ev_fd (es ! num))"
    if "num < length es" for num
    using that event_words_nth [OF that] assms(2) by (simp_all add: event_word_def nth_append)
  ultimately show ?thesis using assms(2) by (simp add: events_get_fd_def events_closed_def)
qed

lemma events_free_fresh: "free_pointers (concat (map (\<lambda>k. [Half k, Half k]) [0..<k + n])) k n = Inr ()"
proof (induction n arbitrary: k)
  case (Suc n)
  have "[0..<k + Suc n] = [0..<k] @ [k..<k + Suc n]" "[k..<k + Suc n] = k # [Suc k..<k + Suc n]"
    by (rule upt_add_eq_append, simp) (rule upt_conv_Cons, simp)
  then have "take 2 (drop (2 * k) (concat (map (\<lambda>k. [Half k, Half k]) [0..<k + Suc n]))) = [Half k, Half k]"
    by (simp del: upt_Suc)
  then show ?case using Suc.IH [of "Suc k"] by (simp del: upt_Suc)
qed simp

text \<open>
  C39. The array of events is read right as long as it is large enough: after a wait the accessors
  give the descriptor and the hang-up of every event that was ready. It holds only two events
  for every three clients, and with more the kernel writes past its end; and the first event
  overwrites pointers that \<open>events_free\<close> would hand to \<open>free\<close>.
\<close>

theorem events_fit:
  assumes "events_create os (max_clients cfg) calls = Some (evhand, calls')" "length es \<le> nat (max_clients cfg)"
  shows "events_free evhand (max_clients cfg) = Inr 0
    \<and> (if 3 * length es \<le> 2 * nat (max_clients cfg)
       then \<exists>evhand'. events_wait cfg (Some es) evhand = Inr (evhand', int (length es))
         \<and> (\<forall>num < length es. events_get_fd evhand' num = Inr (ev_fd (es ! num))
              \<and> events_closed evhand' num = Inr (ev_events (es ! num) AND EPOLLRDHUP \<noteq> 0))
         \<and> (es \<noteq> [] \<longrightarrow> events_free evhand' (max_clients cfg) = Inl Bad_Free)
       else events_wait cfg (Some es) evhand = Inl Out_Of_Bounds)"
proof -
  let ?n = "nat (max_clients cfg)"
  note array = events_create_array [OF assms(1)]
  have free: "events_free evhand (max_clients cfg) = Inr 0"
    using events_free_fresh [of 0 ?n] by (simp add: events_free_def array)
  show ?thesis
  proof (cases "3 * length es \<le> 2 * ?n")
    case True
    then have "3 * length es \<le> length (eh_array evhand)" by (simp add: array)
    from events_wait_fits [OF assms(2) this] obtain e where
      e: "events_wait cfg (Some es) evhand = Inr (e, int (length es))"
      "\<forall>num < length es. events_get_fd e num = Inr (ev_fd (es ! num))
        \<and> events_closed e num = Inr (ev_events (es ! num) AND EPOLLRDHUP \<noteq> 0)" by blast
    have "events_free e (max_clients cfg) = Inl Bad_Free" if ne: "es \<noteq> []"
    proof -
      obtain x xs where "es = x # xs" using ne by (cases es) auto
      then have "take 2 (drop (2 * 0) (eh_array e)) \<noteq> [Half 0, Half 0]" "0 < ?n"
        using e(1) assms(2) by (auto simp: events_wait_def Let_def event_words_def split: if_splits)
      then show ?thesis by (cases ?n) (simp_all add: events_free_def)
    qed
    then show ?thesis using free True e by auto
  next
    case False
    then show ?thesis using free assms(2) by (simp add: events_wait_def Let_def array)
  qed
qed

theorem events_fit_witness:
  "\<exists>e. events_wait (config_init\<lparr>max_clients := 2\<rparr>) (Some [\<lparr>ev_events = 8193, ev_fd = 7, ev_pad = 0\<rparr>])
      \<lparr>eh_fd = 5, eh_array = [Half 0, Half 0, Half 1, Half 1]\<rparr> = Inr (e, 1)
    \<and> events_get_fd e 0 = Inr 7 \<and> events_free e 2 = Inl Bad_Free"
proof -
  have "events_create (\<lambda>calls. 5) (max_clients (config_init\<lparr>max_clients := 2\<rparr>)) [] =
      Some (\<lparr>eh_fd = 5, eh_array = [Half 0, Half 0, Half 1, Half 1]\<rparr>, [Sys_Epoll_Create 2])"
    by (simp add: events_create_def sys_def numeral_2_eq_2)
  from events_fit [OF this, of "[\<lparr>ev_events = 8193, ev_fd = 7, ev_pad = 0\<rparr>]"] show ?thesis by auto
qed

text \<open>
  Every call answered well, the listening socket is bound to the configured port with the configured
  backlog; but its buffers are set to 0, whatever the configuration says, and its \<open>TCP_NODELAY\<close> to
  what unwritten memory holds, because \<open>socket_listen_setup\<close> reads the socket for a configuration.
\<close>

lemma socket_listen_calls:
  assumes "\<And>calls. 0 \<le> os calls"
  shows "\<exists>fd flags. snd (socket_listen os cfg socket_init []) =
      (socket_init\<lparr>so_fd := Some fd, so_listen_port := listen_port cfg,
         so_serv_addr := [AF_INET + 65536 * htons (listen_port cfg), INADDR_ANY, 0, 0]\<rparr>,
       [Sys_Socket, Sys_Setsockopt fd SO_REUSEADDR (Some 1), Sys_Setsockopt fd TCP_NODELAY None,
        Sys_Setsockopt fd SO_SNDBUF (Some 0), Sys_Setsockopt fd SO_RCVBUF (Some 0), Sys_Getfl fd, Sys_Setfl fd flags,
        Sys_Bind fd [AF_INET + 65536 * htons (listen_port cfg), INADDR_ANY, 0, 0], Sys_Listen fd (max_pending cfg),
        Sys_Setsockopt fd TCP_QUICKACK (Some 0)])
    \<and> fst (socket_listen os cfg socket_init []) = 0"
proof -
  have ok: "os calls \<noteq> -1" "\<not> os calls < 0" for calls using assms [of calls] by simp_all
  show ?thesis
    by (simp add: socket_listen_def socket_listen_setup_def socket_setnonblocking_def socket_setquickack_def sys_def
        sock_as_config_def sock_words_def socket_init_def Let_def ok numeral_2_eq_2)
qed

end
