(* ===== verification/Worker.thy ===== *)
theory Worker
  imports Connection Sockets_Events
begin

text \<open>
  \<^verbatim>\<open>src/worker.c\<close>, \<^verbatim>\<open>src/server.c\<close> and the pool of connections of \<^verbatim>\<open>src/connection.c\<close>
  (\<open>connection_init\<close>, \<open>connection_setup\<close>): the processes that serve the clients, one event
  after the other.

  A connection of the pool is \<open>Raw\<close> until it is started: its status is set, its pointers were
  never written. Each client has with its connection what was sent to it and how often its
  descriptor was closed, so that \<open>connection_handle\<close> works on a client and the queue.
\<close>

section \<open>The server struct\<close>

record server =
  sv_running :: "int option"
  sv_config :: "config option"
  sv_socket :: "sock option"

text \<open>\<open>malloc(sizeof(server))\<close>: nothing is written yet.\<close>

definition new_server :: server where
  "new_server = \<lparr>sv_running = None, sv_config = None, sv_socket = None\<rparr>"

definition server_init :: "server \<Rightarrow> server" where
  "server_init srv = srv\<lparr>sv_socket := Some socket_init\<rparr>"

text \<open>Frees the socket, then the server; a socket that was never set is no pointer to free.\<close>

definition server_free :: "server \<Rightarrow> server option res" where
  "server_free srv = (case sv_socket srv of None \<Rightarrow> Inl Uninit_Read | Some s \<Rightarrow> Inr None)"

section \<open>The pool of connections\<close>

datatype pool_conn = Unset | Raw conn_status | Used connection

record client =
  cl_conn :: pool_conn
  cl_sent :: "(char option list \<times> int) list"
  cl_closed :: nat

definition connection_init :: pool_conn where
  "connection_init = Unset"

definition connection_setup :: "config \<Rightarrow> pool_conn list" where
  "connection_setup cfg = map (\<lambda>i. case connection_init of c \<Rightarrow> Raw CONN_INACTIVE) [0..<nat (max_clients cfg * 2)]"

text \<open>\<open>connection_start\<close> writes every pointer, so that it does not matter what they were.\<close>

definition blank_connection :: connection where
  "blank_connection = \<lparr>cn_request = None, cn_response = None, cn_status = CONN_INACTIVE,
     cn_read_buffer = None, cn_buffer_len = 0\<rparr>"

definition pool_start :: "pool_conn \<Rightarrow> connection" where
  "pool_start c = connection_start (case c of Used conn \<Rightarrow> conn | _ \<Rightarrow> blank_connection)"

text \<open>
  The handler on a connection of the pool. On a \<open>Raw\<close> one it reads a pointer that was never
  written: at the latest where it resets the connection and frees what the pointers point to.
\<close>

definition pool_handle ::
  "config \<Rightarrow> pq_ref option \<Rightarrow> string option \<Rightarrow> (nat \<Rightarrow> int) \<Rightarrow> client \<Rightarrow> mail pq_state \<Rightarrow> (client \<times> mail pq_state) act" where
  "pool_handle cfg ref rd snd_ans cl q =
     (case cl_conn cl of
        Used conn \<Rightarrow>
          abind (connection_handle cfg ref rd snd_ans
                   \<lparr>lk_conn = conn, lk_queue = q, lk_sent = cl_sent cl, lk_closed = cl_closed cl\<rparr>) (\<lambda>lk.
            Some (Inr (\<lparr>cl_conn = Used (lk_conn lk), cl_sent = lk_sent lk, cl_closed = lk_closed lk\<rparr>, lk_queue lk)))
      | _ \<Rightarrow> Some (Inl Uninit_Read))"

section \<open>One event\<close>

definition close_conn :: "pool_conn \<Rightarrow> pool_conn" where
  "close_conn c = (case c of Used conn \<Rightarrow> Used (conn\<lparr>cn_status := CONN_CLOSED\<rparr>) | _ \<Rightarrow> Raw CONN_CLOSED)"

definition conn_inactive :: "pool_conn \<Rightarrow> bool res" where
  "conn_inactive c = (case c of Unset \<Rightarrow> Inl Uninit_Read | Raw s \<Rightarrow> Inr (s = CONN_INACTIVE)
     | Used conn \<Rightarrow> Inr (cn_status conn = CONN_INACTIVE))"

definition serve_client ::
  "config \<Rightarrow> pq_ref option \<Rightarrow> bool \<Rightarrow> string option \<Rightarrow> (nat \<Rightarrow> int) \<Rightarrow> client \<Rightarrow> mail pq_state
   \<Rightarrow> (client \<times> mail pq_state) act" where
  "serve_client cfg ref closed rd snd_ans cl q =
     abind (if closed then Some (Inr (cl\<lparr>cl_conn := close_conn (cl_conn cl)\<rparr>))
            else abind (Some (conn_inactive (cl_conn cl))) (\<lambda>inactive.
              if inactive
              then Some (Inr (cl\<lparr>cl_conn := Used ((pool_start (cl_conn cl))\<lparr>cn_status := CONN_READING\<rparr>)\<rparr>))
              else Some (Inr cl))) (\<lambda>cl.
     pool_handle cfg ref rd snd_ans cl q)"

record worker_state =
  ws_clients :: "client list"
  ws_queue :: "mail pq_state"

text \<open>\<open>conns[fd]\<close> is outside the pool where the descriptor is not below twice \<open>max_clients\<close>.\<close>

definition worker_event ::
  "config \<Rightarrow> pq_ref option \<Rightarrow> int \<Rightarrow> bool \<Rightarrow> string option \<Rightarrow> (nat \<Rightarrow> int) \<Rightarrow> worker_state \<Rightarrow> worker_state act" where
  "worker_event cfg ref fd closed rd snd_ans ws =
     (if fd < 0 \<or> int (length (ws_clients ws)) \<le> fd then Some (Inl Out_Of_Bounds)
      else abind (serve_client cfg ref closed rd snd_ans (ws_clients ws ! nat fd) (ws_queue ws)) (\<lambda>(cl, q).
        Some (Inr (ws\<lparr>ws_clients := (ws_clients ws)[nat fd := cl], ws_queue := q\<rparr>))))"

section \<open>The main loop\<close>

text \<open>
  A wait, then its events from the \<open>i\<close>-th on; \<open>io i\<close> is what \<open>read\<close> and \<open>send\<close> answer while
  the \<open>i\<close>-th is handled. After a failed wait no event is handled.
\<close>

type_synonym io = "nat \<Rightarrow> string option \<times> (nat \<Rightarrow> int)"

fun worker_batch ::
  "config \<Rightarrow> pq_ref option \<Rightarrow> event_handler \<Rightarrow> io \<Rightarrow> nat \<Rightarrow> nat \<Rightarrow> worker_state \<Rightarrow> worker_state act" where
  "worker_batch cfg ref evhand io i 0 ws = Some (Inr ws)"
| "worker_batch cfg ref evhand io i (Suc n) ws =
     abind (Some (events_get_fd evhand i)) (\<lambda>fd.
     abind (Some (events_closed evhand i)) (\<lambda>closed.
     abind (worker_event cfg ref fd closed (fst (io i)) (snd (io i)) ws)
       (worker_batch cfg ref evhand io (Suc i) n)))"

definition worker_turn ::
  "config \<Rightarrow> pq_ref option \<Rightarrow> epoll_event list option \<times> io \<Rightarrow> event_handler \<times> worker_state
   \<Rightarrow> (event_handler \<times> worker_state) act" where
  "worker_turn cfg ref input st =
     (case (input, st) of ((ready, io), (evhand, ws)) \<Rightarrow>
        abind (Some (events_wait cfg ready evhand)) (\<lambda>(evhand, nfds).
        abind (worker_batch cfg ref evhand io 0 (nat nfds) ws) (\<lambda>ws. Some (Inr (evhand, ws)))))"

text \<open>
  The worker process: it attaches the shared struct, or exits; its loop runs on the copy of
  \<open>running\<close> that it was given, which nobody resets, here for the given inputs.
\<close>

definition worker_start ::
  "kernel \<Rightarrow> bool \<Rightarrow> bool \<Rightarrow> config \<Rightarrow> mail pq_state \<Rightarrow> (event_handler \<times> worker_state) option" where
  "worker_start os shmget_ok shmat_ok cfg queue =
     (if \<not> shmget_ok then None
      else if \<not> shmat_ok then None
      else case events_create os (max_clients cfg) [] of
          None \<Rightarrow> None
        | Some (evhand, calls) \<Rightarrow>
            Some (evhand, \<lparr>ws_clients = map (\<lambda>c. \<lparr>cl_conn = c, cl_sent = [], cl_closed = 0\<rparr>) (connection_setup cfg),
                           ws_queue = queue\<rparr>))"

fun worker_loop ::
  "config \<Rightarrow> pq_ref option \<Rightarrow> (epoll_event list option \<times> io) list \<Rightarrow> event_handler \<times> worker_state
   \<Rightarrow> (event_handler \<times> worker_state) act" where
  "worker_loop cfg ref [] st = Some (Inr st)"
| "worker_loop cfg ref (x # xs) st = abind (worker_turn cfg ref x st) (worker_loop cfg ref xs)"

section \<open>What connections look like between events\<close>

text \<open>
  Between two events a started connection waits for input with its request, its response and an
  empty buffer, or is inactive with nothing left.
\<close>

definition conn_typed :: "connection \<Rightarrow> bool" where
  "conn_typed conn \<longleftrightarrow>
     (cn_status conn = CONN_READING \<and> cn_request conn \<noteq> None \<and> cn_response conn \<noteq> None
      \<or> cn_status conn = CONN_INACTIVE \<and> cn_request conn = None \<and> cn_response conn = None \<and> cn_read_buffer conn = None)
     \<and> cn_buffer_len conn = 0"

definition client_typed :: "client \<Rightarrow> bool" where
  "client_typed cl \<longleftrightarrow> (case cl_conn cl of Unset \<Rightarrow> False | Raw s \<Rightarrow> s = CONN_INACTIVE | Used conn \<Rightarrow> conn_typed conn)"

text \<open>A connection in the middle of an event, with what the statuses promise.\<close>

definition conn_busy :: "connection \<Rightarrow> bool" where
  "conn_busy conn \<longleftrightarrow> cn_request conn \<noteq> None \<and> cn_response conn \<noteq> None \<and> cn_status conn \<noteq> CONN_STARTED
     \<and> cn_status conn \<noteq> CONN_INACTIVE \<and> (cn_status conn = CONN_READING \<longrightarrow> cn_buffer_len conn = 0)"

lemma process_message_keeps:
  "process_message ref conn q = Some (Inr (conn', q')) \<Longrightarrow> cn_request conn' \<noteq> None \<and> cn_response conn' = cn_response conn"
  by (auto simp: process_message_def abind_eq_value_iff Let_def split: option.splits if_splits)

lemma parse_commands_keeps:
  "request_parse_commands cfg conn = Inr (conn', r) \<Longrightarrow> cn_request conn' \<noteq> None \<and> cn_response conn' \<noteq> None"
  by (auto simp: request_parse_commands_def rbind_eq_Inr_iff split: option.splits)

lemma read_socket_keeps:
  "read_socket cfg rd conn = Inr conn' \<Longrightarrow> cn_status conn = CONN_READING \<Longrightarrow>
     cn_request conn' = cn_request conn \<and> cn_response conn' = cn_response conn \<and> cn_status conn' \<in> {CONN_READING, CONN_ERROR}"
  by (auto simp: read_socket_def Let_def rbind_eq_Inr_iff split: if_splits option.splits)

lemma read_stage_busy:
  assumes "read_stage cfg ref rd lk = Some (Inr lk')" "conn_busy (lk_conn lk)"
  shows "conn_busy (lk_conn lk')"
proof (cases "cn_status (lk_conn lk) = CONN_READING")
  case False
  then show ?thesis using assms by (simp add: read_stage_def)
next
  case True
  then obtain conn where conn: "read_socket cfg rd (lk_conn lk) = Inr conn"
    using assms(1) by (auto simp: read_stage_def abind_eq_value_iff)
  note kept = read_socket_keeps [OF conn True]
  show ?thesis
  proof (cases "cn_buffer_len conn > 0 \<and> cn_status conn \<noteq> CONN_ERROR")
    case False
    then show ?thesis using assms True conn kept by (auto simp: read_stage_def conn_busy_def)
  next
    case go: True
    then show ?thesis using assms(1) True conn kept
      by (auto simp: read_stage_def abind_eq_value_iff conn_busy_def
          dest!: parse_commands_keeps process_message_keeps split: if_splits)
  qed
qed

lemma write_stage_busy:
  assumes "write_stage cfg ans lk = Some (Inr lk')" "conn_busy (lk_conn lk)"
  shows "conn_busy (lk_conn lk') \<and> cn_status (lk_conn lk') \<noteq> CONN_WRITING"
  using assms by (auto simp: write_stage_def abind_eq_value_iff conn_busy_def Let_def split: if_splits option.splits)

lemma close_stage_typed:
  assumes "conn_busy (lk_conn lk)" "cn_status (lk_conn lk) \<noteq> CONN_WRITING"
  shows "conn_typed (lk_conn (close_stage lk))"
  using assms by (cases "cn_status (lk_conn lk)")
    (auto simp: conn_busy_def conn_typed_def close_stage_def Let_def connection_reset_def request_free_def response_free_def)

lemma start_stage_busy:
  "start_stage cfg conn = Inr conn' \<Longrightarrow> cn_request conn \<noteq> None \<Longrightarrow> cn_status conn = CONN_STARTED \<Longrightarrow>
     conn_busy conn' \<and> cn_status conn' = CONN_WRITING"
  by (auto simp: start_stage_def conn_busy_def rbind_eq_Inr_iff split: option.splits)

lemma handle_typed:
  assumes handle: "connection_handle cfg ref rd ans lk = Some (Inr lk')"
    and conn: "conn_busy (lk_conn lk) \<or> cn_status (lk_conn lk) = CONN_STARTED \<and> cn_request (lk_conn lk) \<noteq> None
      \<or> cn_status (lk_conn lk) = CONN_CLOSED"
  shows "conn_typed (lk_conn lk')"
proof -
  obtain conn lk1 lk2 where s: "start_stage cfg (lk_conn lk) = Inr conn"
    "read_stage cfg ref rd (lk\<lparr>lk_conn := conn\<rparr>) = Some (Inr lk1)"
    "write_stage cfg ans lk1 = Some (Inr lk2)" "lk' = close_stage lk2"
    using handle by (auto simp: connection_handle_def abind_eq_value_iff)
  show ?thesis
  proof (cases "cn_status (lk_conn lk) = CONN_CLOSED")
    case True
    then have "conn = lk_conn lk" using s(1) by (simp add: start_stage_def)
    then have "lk1 = lk" using True s(2) by (simp add: read_stage_def)
    then have "lk2 = lk" using True s(3) by (simp add: write_stage_def)
    then show ?thesis using True s(4)
      by (auto simp: conn_typed_def close_stage_def Let_def connection_reset_def request_free_def response_free_def
          split: option.splits)
  next
    case False
    have "conn_busy conn"
      using conn False start_stage_busy [OF s(1)] s(1) by (auto simp: start_stage_def conn_busy_def)
    then have "conn_busy (lk_conn lk1)" using read_stage_busy [OF s(2)] by simp
    then show ?thesis using write_stage_busy [OF s(3)] close_stage_typed s(4) by blast
  qed
qed

lemma serve_client_typed:
  assumes "serve_client cfg ref closed rd ans cl q = Some (Inr (cl', q'))" "client_typed cl"
  shows "client_typed cl'"
proof -
  have busy: "conn_busy conn \<or> conn_typed conn \<and> cn_status conn = CONN_INACTIVE" if "conn_typed conn" for conn
    using that by (auto simp: conn_typed_def conn_busy_def)
  have started: "conn_busy ((pool_start c)\<lparr>cn_status := CONN_READING\<rparr>)" for c
    by (simp add: conn_busy_def pool_start_def connection_start_def split: pool_conn.split)
  obtain conn lk' where "connection_handle cfg ref rd ans
        \<lparr>lk_conn = conn, lk_queue = q, lk_sent = cl_sent cl, lk_closed = cl_closed cl\<rparr> = Some (Inr lk')"
      "conn_busy conn \<or> cn_status conn = CONN_CLOSED" "cl_conn cl' = Used (lk_conn lk')"
  proof (cases "cl_conn cl")
    case Unset
    then show thesis using assms(2) by (simp add: client_typed_def)
  next
    case (Raw s)
    then show thesis using assms that started
      by (auto simp: serve_client_def pool_handle_def close_conn_def conn_inactive_def client_typed_def
          abind_eq_value_iff split: if_splits)
  next
    case (Used c)
    then have "conn_typed c" using assms(2) by (simp add: client_typed_def)
    then show thesis using Used assms(1) that started busy [of c]
      by (auto simp: serve_client_def pool_handle_def close_conn_def conn_inactive_def
          abind_eq_value_iff split: if_splits)
  qed
  then show ?thesis using handle_typed by (fastforce simp: client_typed_def)
qed

lemma worker_event_typed:
  assumes "worker_event cfg ref fd closed rd ans ws = Some (Inr ws')" "list_all client_typed (ws_clients ws)"
  shows "list_all client_typed (ws_clients ws') \<and> length (ws_clients ws') = length (ws_clients ws)"
proof -
  obtain cl q where cl: "serve_client cfg ref closed rd ans (ws_clients ws ! nat fd) (ws_queue ws) = Some (Inr (cl, q))"
    "\<not> (fd < 0 \<or> int (length (ws_clients ws)) \<le> fd)" "ws' = ws\<lparr>ws_clients := (ws_clients ws)[nat fd := cl], ws_queue := q\<rparr>"
    using assms(1) by (auto simp: worker_event_def abind_eq_value_iff split: if_splits)
  have "client_typed (ws_clients ws ! nat fd)" using assms(2) cl(2) by (simp add: list_all_length nat_less_iff)
  from serve_client_typed [OF cl(1) this] show ?thesis
    using assms(2) cl(3) by (auto simp: list_all_iff dest!: set_update_subset_insert [THEN subsetD])
qed

lemma worker_batch_typed:
  "worker_batch cfg ref evhand io i n ws = Some (Inr ws') \<Longrightarrow> list_all client_typed (ws_clients ws) \<Longrightarrow>
     list_all client_typed (ws_clients ws') \<and> length (ws_clients ws') = length (ws_clients ws)"
proof (induction n arbitrary: i ws)
  case (Suc n)
  then obtain fd closed ws1 where e: "worker_event cfg ref fd closed (fst (io i)) (snd (io i)) ws = Some (Inr ws1)"
    "worker_batch cfg ref evhand io (Suc i) n ws1 = Some (Inr ws')"
    by (auto simp: abind_eq_value_iff)
  then show ?case using Suc.IH [OF e(2)] worker_event_typed [OF e(1) Suc.prems(2)] by simp
qed simp

lemma worker_turn_typed:
  "worker_turn cfg ref x (evhand, ws) = Some (Inr (evhand', ws')) \<Longrightarrow> list_all client_typed (ws_clients ws) \<Longrightarrow>
     list_all client_typed (ws_clients ws') \<and> length (ws_clients ws') = length (ws_clients ws)"
  using worker_batch_typed by (fastforce simp: worker_turn_def abind_eq_value_iff split: prod.splits)

text \<open>
  C35. As long as the worker runs without a fault, whatever the kernel answers: its pool keeps its
  size, and between two turns of its loop every connection is untouched, or inactive with its
  request, its response and its buffer freed, or waits for input with a request and a response
  and an empty buffer.
\<close>

theorem worker_pool_typed:
  assumes "worker_start os shmget_ok shmat_ok cfg queue = Some st"
    and "worker_loop cfg ref xs st = Some (Inr (evhand', ws'))"
  shows "length (ws_clients ws') = nat (max_clients cfg * 2) \<and> list_all client_typed (ws_clients ws')"
proof -
  have "list_all client_typed (ws_clients ws') \<and> length (ws_clients ws') = length (ws_clients (snd st))"
    if "worker_loop cfg ref xs st = Some (Inr (evhand', ws'))" "list_all client_typed (ws_clients (snd st))"
    for xs :: "(epoll_event list option \<times> io) list" and st
    using that
  proof (induction xs arbitrary: st)
    case (Cons x xs)
    obtain e ws where st: "st = (e, ws)" by (cases st)
    then obtain e1 ws1 where "worker_turn cfg ref x (e, ws) = Some (Inr (e1, ws1))"
      "worker_loop cfg ref xs (e1, ws1) = Some (Inr (evhand', ws'))"
      using Cons.prems(1) by (auto simp: abind_eq_value_iff)
    then show ?case using Cons.IH [of "(e1, ws1)"] worker_turn_typed Cons.prems(2) st by simp
  qed simp
  moreover have "list_all client_typed (ws_clients (snd st))" "length (ws_clients (snd st)) = nat (max_clients cfg * 2)"
    using assms(1) by (auto simp: worker_start_def connection_setup_def connection_init_def client_typed_def
        list_all_iff split: if_splits option.splits)
  ultimately show ?thesis using assms(2) by metis
qed

section \<open>Clients do not depend on each other\<close>

text \<open>What the kernel says for one event: its descriptor, whether the other end hung up, the bytes.\<close>

record client_event =
  ce_fd :: int
  ce_closed :: bool
  ce_read :: "string option"
  ce_send :: "nat \<Rightarrow> int"

fun worker_events :: "config \<Rightarrow> pq_ref option \<Rightarrow> client_event list \<Rightarrow> worker_state \<Rightarrow> worker_state act" where
  "worker_events cfg ref [] ws = Some (Inr ws)"
| "worker_events cfg ref (e # es) ws =
     abind (worker_event cfg ref (ce_fd e) (ce_closed e) (ce_read e) (ce_send e) ws) (worker_events cfg ref es)"

definition client_event :: "epoll_event list \<Rightarrow> io \<Rightarrow> nat \<Rightarrow> client_event" where
  "client_event es io i = \<lparr>ce_fd = ev_fd (es ! i), ce_closed = ev_events (es ! i) AND EPOLLRDHUP \<noteq> 0,
     ce_read = fst (io i), ce_send = snd (io i)\<rparr>"

lemma client_event_fields:
  "ce_fd (client_event es io i) = ev_fd (es ! i)"
  "ce_closed (client_event es io i) \<longleftrightarrow> ev_events (es ! i) AND EPOLLRDHUP \<noteq> 0"
  "ce_read (client_event es io i) = fst (io i)" "ce_send (client_event es io i) = snd (io i)"
  by (simp_all add: client_event_def)

fun input_events :: "epoll_event list option \<times> io \<Rightarrow> client_event list" where
  "input_events (None, io) = []"
| "input_events (Some es, io) = map (client_event es io) [0..<length es]"

definition inputs_fit :: "config \<Rightarrow> event_handler \<Rightarrow> (epoll_event list option \<times> io) list \<Rightarrow> bool" where
  "inputs_fit cfg evhand xs \<longleftrightarrow> list_all (\<lambda>x. case fst x of None \<Rightarrow> True
     | Some es \<Rightarrow> length es \<le> nat (max_clients cfg) \<and> 3 * length es \<le> length (eh_array evhand)) xs"

lemma worker_batch_events:
  assumes "\<forall>num < length es. events_get_fd evhand num = Inr (ev_fd (es ! num))
      \<and> events_closed evhand num = Inr (ev_events (es ! num) AND EPOLLRDHUP \<noteq> 0)"
  shows "i + n = length es \<Longrightarrow> worker_batch cfg ref evhand io i n ws
    = worker_events cfg ref (map (client_event es io) [i..<length es]) ws"
proof (induction n arbitrary: i ws)
  case (Suc n)
  then have i: "i < length es" "[i..<length es] = i # [Suc i..<length es]" by (simp_all add: upt_conv_Cons)
  have "worker_batch cfg ref evhand io (Suc i) n = worker_events cfg ref (map (client_event es io) [Suc i..<length es])"
    using Suc by (intro ext) simp
  then show ?case using assms i by (simp add: client_event_fields)
qed simp

lemma worker_turn_events:
  assumes "inputs_fit cfg evhand [x]"
  shows "\<exists>e. worker_turn cfg ref x (evhand, ws)
      = abind (worker_events cfg ref (input_events x) ws) (\<lambda>ws. Some (Inr (e, ws)))
    \<and> length (eh_array e) = length (eh_array evhand)"
proof -
  obtain ready io where x: "x = (ready, io)" by (cases x)
  show ?thesis
  proof (cases ready)
    case None
    then show ?thesis using x by (auto simp: worker_turn_def events_wait_def)
  next
    case (Some es)
    then obtain e where e: "events_wait cfg (Some es) evhand = Inr (e, int (length es))"
      "length (eh_array e) = length (eh_array evhand)"
      "\<forall>num < length es. events_get_fd e num = Inr (ev_fd (es ! num))
        \<and> events_closed e num = Inr (ev_events (es ! num) AND EPOLLRDHUP \<noteq> 0)"
      using events_wait_fits [of es cfg evhand] assms x by (auto simp: inputs_fit_def)
    then show ?thesis using worker_batch_events [OF e(3), of 0 "length es" cfg ref io ws] x Some
      by (auto simp: worker_turn_def)
  qed
qed

lemma worker_events_append:
  "worker_events cfg ref (es @ fs) ws = abind (worker_events cfg ref es ws) (worker_events cfg ref fs)"
proof (induction es arbitrary: ws)
  case (Cons e es)
  then show ?case
    by (cases "worker_event cfg ref (ce_fd e) (ce_closed e) (ce_read e) (ce_send e) ws")
       (auto simp: abind_def split: sum.splits)
qed simp

lemma worker_loop_events:
  "inputs_fit cfg evhand xs \<Longrightarrow> worker_loop cfg ref xs (evhand, ws) = Some (Inr (evhand', ws')) \<Longrightarrow>
     worker_events cfg ref (concat (map input_events xs)) ws = Some (Inr ws')"
proof (induction xs arbitrary: evhand ws)
  case (Cons x xs)
  have "inputs_fit cfg evhand [x]" using Cons.prems(1) by (simp add: inputs_fit_def)
  from worker_turn_events [OF this, of ref ws] obtain e where
    e: "worker_turn cfg ref x (evhand, ws) = abind (worker_events cfg ref (input_events x) ws) (\<lambda>ws. Some (Inr (e, ws)))"
    "length (eh_array e) = length (eh_array evhand)" by blast
  then obtain ws1 where ws1: "worker_events cfg ref (input_events x) ws = Some (Inr ws1)"
    "worker_loop cfg ref xs (e, ws1) = Some (Inr (evhand', ws'))"
    using Cons.prems(2) by (auto simp: abind_eq_value_iff)
  have "inputs_fit cfg e xs" using Cons.prems(1) unfolding inputs_fit_def e(2) by simp
  then show ?case using Cons.IH [OF _ ws1(2)] ws1(1) by (simp add: worker_events_append)
qed simp

text \<open>The queue has no influence on the connection, nor on what is sent.\<close>

lemma process_message_indep:
  "process_message ref conn q = Some (Inr (c1, q1)) \<Longrightarrow> process_message ref conn q' = Some (Inr (c2, q2)) \<Longrightarrow> c1 = c2"
  by (auto simp: process_message_def abind_eq_value_iff Let_def split: option.splits if_splits)

definition same_client :: "link \<Rightarrow> link \<Rightarrow> bool" where
  "same_client lk1 lk2 \<longleftrightarrow> lk_conn lk1 = lk_conn lk2 \<and> lk_sent lk1 = lk_sent lk2 \<and> lk_closed lk1 = lk_closed lk2"

lemma read_stage_indep:
  assumes "read_stage cfg ref rd a = Some (Inr a')" "read_stage cfg ref rd b = Some (Inr b')" "same_client a b"
  shows "same_client a' b'"
proof (cases "cn_status (lk_conn a) = CONN_READING")
  case False
  then show ?thesis using assms by (simp add: read_stage_def same_client_def)
next
  case True
  then obtain conn where conn: "read_socket cfg rd (lk_conn a) = Inr conn"
    using assms(1) by (auto simp: read_stage_def abind_eq_value_iff)
  show ?thesis
  proof (cases "cn_buffer_len conn > 0 \<and> cn_status conn \<noteq> CONN_ERROR")
    case False
    then show ?thesis using assms True conn by (auto simp: read_stage_def same_client_def)
  next
    case go: True
    then obtain c r where c: "request_parse_commands cfg conn = Inr (c, r)"
      using assms(1) True conn by (auto simp: read_stage_def abind_eq_value_iff)
    then show ?thesis using assms True conn go
      by (cases "r = 0") (auto simp: read_stage_def abind_eq_value_iff same_client_def dest: process_message_indep)
  qed
qed

lemma write_stage_indep:
  assumes "write_stage cfg ans a = Some (Inr a')" "write_stage cfg ans b = Some (Inr b')" "same_client a b"
  shows "same_client a' b'"
proof (cases "cn_status (lk_conn a) = CONN_WRITING")
  case False
  then show ?thesis using assms by (simp add: write_stage_def same_client_def)
next
  case True
  then obtain resp sent ok where r: "cn_response (lk_conn a) = Some resp" "send_response cfg ans resp = Some (Inr (sent, ok))"
    using assms(1) by (auto simp: write_stage_def abind_eq_value_iff split: option.splits)
  then show ?thesis using assms True
    by (cases ok) (auto simp: write_stage_def same_client_def Let_def split: option.splits)
qed

lemma close_stage_indep: "same_client a b \<Longrightarrow> same_client (close_stage a) (close_stage b)"
  by (auto simp: close_stage_def same_client_def Let_def)

lemma handle_indep:
  assumes "connection_handle cfg ref rd ans a = Some (Inr a')" "connection_handle cfg ref rd ans b = Some (Inr b')"
    "same_client a b"
  shows "same_client a' b'"
proof -
  obtain conn a1 a2 where a: "start_stage cfg (lk_conn a) = Inr conn"
    "read_stage cfg ref rd (a\<lparr>lk_conn := conn\<rparr>) = Some (Inr a1)" "write_stage cfg ans a1 = Some (Inr a2)" "a' = close_stage a2"
    using assms(1) by (auto simp: connection_handle_def abind_eq_value_iff)
  obtain b1 b2 where b: "read_stage cfg ref rd (b\<lparr>lk_conn := conn\<rparr>) = Some (Inr b1)" "write_stage cfg ans b1 = Some (Inr b2)"
    "b' = close_stage b2"
    using assms(2,3) a(1) by (auto simp: connection_handle_def abind_eq_value_iff same_client_def)
  have "same_client (a\<lparr>lk_conn := conn\<rparr>) (b\<lparr>lk_conn := conn\<rparr>)" using assms(3) by (simp add: same_client_def)
  then show ?thesis
    using read_stage_indep [OF a(2) b(1)] write_stage_indep [OF a(3) b(2)] close_stage_indep a(4) b(3) by blast
qed

lemma pool_handle_indep:
  assumes "pool_handle cfg ref rd ans cl q = Some (Inr (cl1, q1))" "pool_handle cfg ref rd ans cl q' = Some (Inr (cl2, q2))"
  shows "cl1 = cl2"
proof -
  let ?lk = "\<lambda>conn q. \<lparr>lk_conn = conn, lk_queue = q, lk_sent = cl_sent cl, lk_closed = cl_closed cl\<rparr>"
  obtain conn a b where "cl_conn cl = Used conn"
    "connection_handle cfg ref rd ans (?lk conn q) = Some (Inr a)" "connection_handle cfg ref rd ans (?lk conn q') = Some (Inr b)"
    "cl1 = \<lparr>cl_conn = Used (lk_conn a), cl_sent = lk_sent a, cl_closed = lk_closed a\<rparr>"
    "cl2 = \<lparr>cl_conn = Used (lk_conn b), cl_sent = lk_sent b, cl_closed = lk_closed b\<rparr>"
    using assms by (auto simp: pool_handle_def abind_eq_value_iff split: pool_conn.splits)
  then show ?thesis using handle_indep [of cfg ref rd ans "?lk conn q" a "?lk conn q'" b] by (simp add: same_client_def)
qed

lemma serve_client_indep:
  assumes "serve_client cfg ref closed rd ans cl q = Some (Inr (cl1, q1))"
    "serve_client cfg ref closed rd ans cl q' = Some (Inr (cl2, q2))"
  shows "cl1 = cl2"
  using assms by (auto simp: serve_client_def abind_eq_value_iff split: if_splits dest: pool_handle_indep)

lemma worker_event_clients:
  assumes "worker_event cfg ref fd closed rd ans ws = Some (Inr ws')"
  shows "length (ws_clients ws') = length (ws_clients ws) \<and> 0 \<le> fd
    \<and> (\<forall>i. int i \<noteq> fd \<longrightarrow> ws_clients ws' ! i = ws_clients ws ! i)
    \<and> (\<exists>q. serve_client cfg ref closed rd ans (ws_clients ws ! nat fd) (ws_queue ws)
          = Some (Inr (ws_clients ws' ! nat fd, q)))"
  using assms by (auto simp: worker_event_def abind_eq_value_iff split: if_splits)

lemma worker_events_alone:
  assumes "worker_events cfg ref es ws = Some (Inr ws')"
    and "worker_events cfg ref (filter (\<lambda>e. ce_fd e = int i) es) v = Some (Inr v')"
    and "ws_clients ws ! i = ws_clients v ! i"
  shows "ws_clients ws' ! i = ws_clients v' ! i"
  using assms
proof (induction es arbitrary: ws v)
  case (Cons e es)
  obtain ws1 where ws1: "worker_event cfg ref (ce_fd e) (ce_closed e) (ce_read e) (ce_send e) ws = Some (Inr ws1)"
    "worker_events cfg ref es ws1 = Some (Inr ws')"
    using Cons.prems(1) by (auto simp: abind_eq_value_iff)
  note w = worker_event_clients [OF ws1(1)]
  show ?case
  proof (cases "ce_fd e = int i")
    case False
    then have "ws_clients ws1 ! i = ws_clients v ! i" using w Cons.prems(3) by metis
    then show ?thesis using Cons.IH [OF ws1(2)] Cons.prems(2) False by simp
  next
    case True
    then obtain v1 where v1: "worker_event cfg ref (ce_fd e) (ce_closed e) (ce_read e) (ce_send e) v = Some (Inr v1)"
      "worker_events cfg ref (filter (\<lambda>e. ce_fd e = int i) es) v1 = Some (Inr v')"
      using Cons.prems(2) by (auto simp: abind_eq_value_iff)
    have "ws_clients ws1 ! i = ws_clients v1 ! i"
      using w worker_event_clients [OF v1(1)] True Cons.prems(3) serve_client_indep by (metis nat_int)
    then show ?thesis using Cons.IH [OF ws1(2) v1(2)] by simp
  qed
qed simp

text \<open>
  C34. What one client sends, is sent and is left with does not depend on the others: after any
  run of the worker in which the events fit into their array, the connection of a descriptor is
  what it would be if its own events had been the only ones.
\<close>

theorem clients_independent:
  assumes "inputs_fit cfg evhand xs" "worker_loop cfg ref xs (evhand, ws) = Some (Inr (evhand', ws'))"
    and "worker_events cfg ref (filter (\<lambda>e. ce_fd e = int i) (concat (map input_events xs))) ws = Some (Inr alone)"
  shows "ws_clients ws' ! i = ws_clients alone ! i"
  using worker_events_alone [OF worker_loop_events [OF assms(1,2)] assms(3)] by simp

text \<open>A hang-up of a client that never sent anything makes the worker free unwritten pointers.\<close>

lemma raw_hangup_faults:
  assumes "cl_conn (ws_clients ws ! nat fd) = Raw CONN_INACTIVE" "0 \<le> fd" "fd < int (length (ws_clients ws))"
  shows "worker_event cfg ref fd True rd ans ws = Some (Inl Uninit_Read)"
  using assms by (simp add: worker_event_def serve_client_def close_conn_def pool_handle_def)

section \<open>A concrete run\<close>

text \<open>Two clients: reading from the first fails, and the second sends nothing yet.\<close>

definition four_clients :: config where
  "four_clients = config_init\<lparr>max_clients := 4\<rparr>"

definition two_ready :: "epoll_event list option \<times> io" where
  "two_ready = (Some [\<lparr>ev_events = EPOLLIN, ev_fd = 1, ev_pad = 0\<rparr>, \<lparr>ev_events = EPOLLIN, ev_fd = 2, ev_pad = 0\<rparr>],
     \<lambda>i. (if i = 0 then None else Some [], \<lambda>k. 20))"

definition some_worker :: "event_handler \<times> worker_state" where
  "some_worker = the (worker_start (\<lambda>calls. 3) True True four_clients (1, fresh_shared new_mail 1))"

lemma ready_values: "EPOLLIN AND EPOLLRDHUP = 0"
  by (simp add: EPOLLIN_def EPOLLRDHUP_def)

lemmas run_defs = two_ready_def some_worker_def worker_start_def events_create_def sys_def four_clients_def
  config_load_default_def config_init_def connection_setup_def connection_init_def

lemmas serve_defs = worker_event_def serve_client_def conn_inactive_def pool_handle_def pool_start_def connection_start_def
  connection_handle_def start_stage_def read_stage_def read_socket_def write_stage_def close_stage_def Let_def blk_copy_def
  four_clients_def config_load_default_def config_init_def

lemma failing_client:
  "cl_conn cl = Raw CONN_INACTIVE \<Longrightarrow> \<exists>cl'. serve_client four_clients None False None ans cl q = Some (Inr (cl', q))"
  by (simp add: serve_defs)

lemma silent_client:
  "cl_conn cl = Raw CONN_INACTIVE \<Longrightarrow> \<exists>cl'. serve_client four_clients None False (Some []) ans cl q = Some (Inr (cl', q))"
  by (simp add: serve_defs)

lemma some_worker_clients:
  "some_worker = (\<lparr>eh_fd = 3, eh_array = concat (map (\<lambda>k. [Half k, Half k]) [0..<4])\<rparr>,
     \<lparr>ws_clients = replicate 8 \<lparr>cl_conn = Raw CONN_INACTIVE, cl_sent = [], cl_closed = 0\<rparr>,
      ws_queue = (1, fresh_shared new_mail 1)\<rparr>)"
  by (simp add: run_defs map_replicate_const comp_def)

lemma two_ready_events:
  "input_events two_ready = [\<lparr>ce_fd = 1, ce_closed = False, ce_read = None, ce_send = \<lambda>k. 20\<rparr>,
     \<lparr>ce_fd = 2, ce_closed = False, ce_read = Some [], ce_send = \<lambda>k. 20\<rparr>]"
  by (simp add: two_ready_def client_event_def ready_values numeral_2_eq_2)

lemma some_worker_runs:
  "\<exists>e ws. worker_loop four_clients None [two_ready] some_worker = Some (Inr (e, ws))"
  "\<exists>ws. worker_events four_clients None (filter (\<lambda>e. ce_fd e = int 1) (concat (map input_events [two_ready])))
     (snd some_worker) = Some (Inr ws)"
  "worker_start (\<lambda>calls. 3) True True four_clients (1, fresh_shared new_mail 1) = Some some_worker"
  "inputs_fit four_clients (fst some_worker) [two_ready]"
proof -
  let ?cl = "\<lparr>cl_conn = Raw CONN_INACTIVE, cl_sent = [], cl_closed = 0\<rparr>" and ?q = "(1, fresh_shared new_mail 1)"
  obtain c1 where c1: "serve_client four_clients None False None (\<lambda>k. 20) ?cl ?q = Some (Inr (c1, ?q))"
    using failing_client [of ?cl "\<lambda>k. 20" ?q] by auto
  obtain c2 where c2: "serve_client four_clients None False (Some []) (\<lambda>k. 20) ?cl ?q = Some (Inr (c2, ?q))"
    using silent_client [of ?cl "\<lambda>k. 20" ?q] by auto
  show fit: "inputs_fit four_clients (fst some_worker) [two_ready]"
    by (simp add: inputs_fit_def some_worker_clients two_ready_def four_clients_def)
  have ran: "\<exists>ws. worker_events four_clients None (input_events two_ready) (snd some_worker) = Some (Inr ws)"
    using c1 c2 by (simp add: two_ready_events some_worker_clients worker_event_def)
  obtain e where "worker_turn four_clients None two_ready some_worker
      = abind (worker_events four_clients None (input_events two_ready) (snd some_worker)) (\<lambda>ws. Some (Inr (e, ws)))"
    using worker_turn_events [OF fit, of None "snd some_worker"] by auto
  then show "\<exists>e ws. worker_loop four_clients None [two_ready] some_worker = Some (Inr (e, ws))" using ran by auto
  show "\<exists>ws. worker_events four_clients None (filter (\<lambda>e. ce_fd e = int 1) (concat (map input_events [two_ready])))
     (snd some_worker) = Some (Inr ws)"
    using c1 by (simp add: two_ready_events some_worker_clients worker_event_def)
  show "worker_start (\<lambda>calls. 3) True True four_clients (1, fresh_shared new_mail 1) = Some some_worker"
    by (simp add: some_worker_def worker_start_def events_create_def sys_def)
qed

theorem worker_pool_typed_witness:
  "\<exists>e ws. worker_loop four_clients None [two_ready] some_worker = Some (Inr (e, ws))
     \<and> length (ws_clients ws) = nat (max_clients four_clients * 2) \<and> list_all client_typed (ws_clients ws)"
proof -
  obtain e ws where "worker_loop four_clients None [two_ready] some_worker = Some (Inr (e, ws))"
    using some_worker_runs(1) by blast
  with worker_pool_typed [OF some_worker_runs(3) this] show ?thesis by blast
qed

theorem clients_independent_witness:
  "\<exists>e ws alone. worker_loop four_clients None [two_ready] some_worker = Some (Inr (e, ws))
     \<and> worker_events four_clients None (filter (\<lambda>e. ce_fd e = int 1) (concat (map input_events [two_ready])))
         (snd some_worker) = Some (Inr alone)
     \<and> ws_clients ws ! 1 = ws_clients alone ! 1"
proof -
  obtain e ws alone where run: "worker_loop four_clients None [two_ready] (fst some_worker, snd some_worker) = Some (Inr (e, ws))"
    and alone: "worker_events four_clients None (filter (\<lambda>e. ce_fd e = int 1) (concat (map input_events [two_ready])))
     (snd some_worker) = Some (Inr alone)"
    using some_worker_runs(1,2) by auto
  from clients_independent [OF some_worker_runs(4) run alone] show ?thesis using run alone by simp
qed

end
