(* ===== verification/Dkim_Canon.thy ===== *)
theory Dkim_Canon
  imports C_Library
begin

text \<open>
  \<^verbatim>\<open>src/firm-dkim-extended/firm-dkim.c\<close>: the canonicalization of header fields and bodies
  ("relaxed", RFC 4871), the trimming functions and the word wrap.

  The loops that rewrite a string in place work on an array, the list of all its characters
  with the terminator; \<open>arr_get\<close> and \<open>arr_set\<close> fault outside it. Each is shown to compute a
  recursive function on strings: \<open>unfold_ref\<close> for the removal of line breaks, \<open>squeeze\<close> for
  the reduction of white space, \<open>strip_end\<close> for trimming.
\<close>

section \<open>Arrays of characters\<close>

definition arr_get :: "string \<Rightarrow> nat \<Rightarrow> char res" where
  "arr_get xs i = (if i < length xs then Inr (xs ! i) else Inl Out_Of_Bounds)"

definition arr_set :: "string \<Rightarrow> nat \<Rightarrow> char \<Rightarrow> string res" where
  "arr_set xs i c = (if i < length xs then Inr (xs[i := c]) else Inl Out_Of_Bounds)"

lemma arr_simps [simp]:
  "i < length xs \<Longrightarrow> arr_get xs i = Inr (xs ! i)"
  "i < length xs \<Longrightarrow> arr_set xs i c = Inr (xs[i := c])"
  by (simp_all add: arr_get_def arr_set_def)

fun map_res :: "('a \<Rightarrow> 'b res) \<Rightarrow> 'a list \<Rightarrow> 'b list res" where
  "map_res f [] = Inr []"
| "map_res f (x # xs) = rbind (f x) (\<lambda>y. rbind (map_res f xs) (\<lambda>ys. Inr (y # ys)))"

lemma map_res_Inr: "(\<And>x. x \<in> set xs \<Longrightarrow> f x = Inr (g x)) \<Longrightarrow> map_res f xs = Inr (map g xs)"
  by (induction xs) simp_all

definition wsp :: "char \<Rightarrow> bool" where
  "wsp c \<longleftrightarrow> c = CHR '' '' \<or> c = TAB"

section \<open>Trimming\<close>

text \<open>\<open>rtrim\<close> and \<open>rtrim_lines\<close> write a terminator over the last character, again and again.\<close>

function rtrim :: "string \<Rightarrow> string" where
  "rtrim s = (if s \<noteq> [] \<and> wsp (last s) then rtrim (butlast s) else s)"
  by pat_completeness auto
termination by (relation "measure length") auto

function rtrim_lines :: "string \<Rightarrow> string" where
  "rtrim_lines s =
     (if s \<noteq> [] \<and> (last s = CR \<or> last s = LF) then rtrim_lines (butlast s) else s)"
  by pat_completeness auto
termination by (relation "measure length") auto

declare rtrim.simps [simp del] rtrim_lines.simps [simp del]

text \<open>\<open>ltrim\<close> moves the start and copies the rest.\<close>

fun ltrim :: "string \<Rightarrow> string" where
  "ltrim [] = []"
| "ltrim (c # s) = (if wsp c then ltrim s else c # s)"

definition strip_end :: "(char \<Rightarrow> bool) \<Rightarrow> string \<Rightarrow> string" where
  "strip_end P s = rev (dropWhile P (rev s))"

lemma strip_end_simps [simp]:
  "strip_end P [] = []" "strip_end P (s @ [c]) = (if P c then strip_end P s else s @ [c])"
  by (simp_all add: strip_end_def)

lemma rtrim_strip: "rtrim s = strip_end wsp s"
  by (induction s rule: rev_induct) (subst rtrim.simps, simp)+

lemma rtrim_lines_strip: "rtrim_lines s = strip_end (\<lambda>c. c = CR \<or> c = LF) s"
  by (induction s rule: rev_induct) (subst rtrim_lines.simps, simp)+

lemma ltrim_drop: "ltrim s = dropWhile wsp s"
  by (induction s) simp_all

section \<open>Reducing white space, in place\<close>

text \<open>
  The loop of \<open>relaxed_header_canon\<close> and of \<open>relaxed_body_canon_line\<close>: \<open>e\<close> reads, \<open>k\<close> writes.
\<close>

function squeeze_loop :: "string \<Rightarrow> nat \<Rightarrow> nat \<Rightarrow> nat \<Rightarrow> (string \<times> nat) res" where
  "squeeze_loop xs n e k =
     (if e < n then
        rbind (arr_get xs e) (\<lambda>c.
        rbind (if c = TAB then arr_set xs e (CHR '' '') else Inr xs) (\<lambda>xs.
        rbind (arr_get xs e) (\<lambda>c.
        if e > 0 then
          rbind (arr_get xs (e - 1)) (\<lambda>p.
          if \<not> (p = CHR '' '' \<and> c = CHR '' '')
          then rbind (arr_set xs k c) (\<lambda>xs. squeeze_loop xs n (Suc e) (Suc k))
          else squeeze_loop xs n (Suc e) k)
        else rbind (arr_set xs k c) (\<lambda>xs. squeeze_loop xs n (Suc e) (Suc k)))))
      else Inr (xs, k))"
  by pat_completeness auto
termination by (relation "measure (\<lambda>(xs, n, e, k). n - e)") auto

declare squeeze_loop.simps [simp del]

definition squeeze_str :: "string \<Rightarrow> string res" where
  "squeeze_str s =
     rbind (squeeze_loop (s @ [NUL]) (length s) 0 0) (\<lambda>(xs, k).
     rbind (arr_set xs k NUL) (\<lambda>xs. Inr (cstr xs)))"

text \<open>\<open>p\<close>: the character before is white space.\<close>

fun squeeze :: "bool \<Rightarrow> string \<Rightarrow> string" where
  "squeeze p [] = []"
| "squeeze p (c # s) =
     (if wsp c then (if p then squeeze True s else CHR '' '' # squeeze True s)
      else c # squeeze False s)"

lemma squeeze_loop_correct:
  assumes "e \<le> n" "k \<le> e" "n < length xs"
    and "p = (e > 0 \<and> xs ! (e - 1) = CHR '' '')"
  shows "\<exists>xs'. squeeze_loop xs n e k
       = Inr (xs', k + length (squeeze p (drop e (take n xs))))
     \<and> length xs' = length xs
     \<and> take (k + length (squeeze p (drop e (take n xs)))) xs'
         = take k xs @ squeeze p (drop e (take n xs))"
  using assms
proof (induction "n - e" arbitrary: xs e k p)
  case 0
  then show ?case by (simp add: squeeze_loop.simps)
next
  case (Suc d)
  define c where "c = (if xs ! e = TAB then CHR '' '' else xs ! e)"
  have e: "e < n" "e < length xs" "k < length xs" using Suc.hyps(2) Suc.prems by auto
  define ys where "ys = xs[e := c]"
  have ys: "(if xs ! e = TAB then arr_set xs e (CHR '' '') else Inr xs) = Inr ys"
    using e by (auto simp: ys_def c_def)
  have d: "d = n - Suc e" using Suc.hyps(2) by arith
  have bnd: "Suc e \<le> n" "k \<le> Suc e" "Suc k \<le> Suc e" "n < length ys" "n < length (ys[k := c])"
    using e Suc.prems by (simp_all add: ys_def)
  have prev: "0 < e \<Longrightarrow> ys ! (e - 1) = xs ! (e - 1)" by (simp add: ys_def)
  have rest: "drop e (take n xs) = xs ! e # drop (Suc e) (take n xs)"
    using e by (simp add: Cons_nth_drop_Suc [symmetric])
  have tails: "drop (Suc e) (take n (ys[k := c])) = drop (Suc e) (take n xs)"
      "drop (Suc e) (take n ys) = drop (Suc e) (take n xs)"
    using Suc.prems(2) by (simp_all add: ys_def take_update_swap)
  show ?case
  proof (cases "p \<and> c = CHR '' ''")
    case True
    then have w: "wsp (xs ! e)" by (auto simp: wsp_def c_def split: if_splits)
    have step: "squeeze_loop xs n e k = squeeze_loop ys n (Suc e) k"
      using e ys True Suc.prems(4) prev
      by (subst squeeze_loop.simps) (auto simp: ys_def)
    have "True = (Suc e > 0 \<and> ys ! (Suc e - 1) = CHR '' '')" using e True by (simp add: ys_def)
    from Suc.hyps(1) [OF d bnd(1,2,4) this]
    obtain zs where "squeeze_loop ys n (Suc e) k = Inr (zs, k + length (squeeze True (drop (Suc e) (take n ys))))"
      "length zs = length ys" "take (k + length (squeeze True (drop (Suc e) (take n ys)))) zs
         = take k ys @ squeeze True (drop (Suc e) (take n ys))"
      by blast
    then show ?thesis using step True w Suc.prems(2) e
      by (simp add: tails rest) (simp add: ys_def)
  next
    case False
    have step: "squeeze_loop xs n e k = squeeze_loop (ys[k := c]) n (Suc e) (Suc k)"
      using e ys False Suc.prems(4) prev
      by (subst squeeze_loop.simps) (auto simp: ys_def)
    let ?p = "c = CHR '' ''" and ?ys = "ys[k := c]"
    have "?p = (Suc e > 0 \<and> ?ys ! (Suc e - 1) = CHR '' '')"
      using e by (simp add: ys_def nth_list_update)
    from Suc.hyps(1) [OF d bnd(1,3,5) this]
    obtain zs where zs: "squeeze_loop ?ys n (Suc e) (Suc k)
        = Inr (zs, Suc k + length (squeeze ?p (drop (Suc e) (take n ?ys))))"
      "length zs = length ?ys" "take (Suc k + length (squeeze ?p (drop (Suc e) (take n ?ys)))) zs
         = take (Suc k) ?ys @ squeeze ?p (drop (Suc e) (take n ?ys))"
      by blast
    have sq: "squeeze p (xs ! e # drop (Suc e) (take n xs)) = c # squeeze ?p (drop (Suc e) (take n xs))"
      using False by (auto simp: c_def wsp_def)
    have "take (Suc k) ?ys = take k xs @ [c]"
      using e Suc.prems(2) by (simp add: take_Suc_conv_app_nth ys_def take_update_cancel)
    then show ?thesis using step zs
      by (simp add: tails rest sq del: squeeze.simps) (simp add: ys_def)
  qed
qed


lemma squeeze_chars: "c \<in> set (squeeze p s) \<Longrightarrow> c = CHR '' '' \<or> c \<in> set s"
  by (induction s arbitrary: p) (auto split: if_splits)

lemma squeeze_no_nul: "no_nul s \<Longrightarrow> no_nul (squeeze p s)"
  using squeeze_chars [of NUL p s] by (auto simp: no_nul_iff)

lemma squeeze_length: "length (squeeze p s) \<le> length s"
  by (induction s arbitrary: p) (auto intro: le_SucI)

text \<open>Ending an array of characters behind its first \<open>k\<close>.\<close>

lemma cut_array: "k < length xs \<Longrightarrow> no_nul (take k xs) \<Longrightarrow> cstr (xs[k := NUL]) = take k xs"
  using cstr_append_nul [of "take k xs" "drop (Suc k) xs"] by (simp add: upd_conv_take_nth_drop)

lemma squeeze_str_correct: "no_nul s \<Longrightarrow> squeeze_str s = Inr (squeeze False s)"
proof -
  assume s: "no_nul s"
  obtain xs where xs: "squeeze_loop (s @ [NUL]) (length s) 0 0 = Inr (xs, length (squeeze False s))"
    "length xs = length s + 1" "take (length (squeeze False s)) xs = squeeze False s"
    using squeeze_loop_correct [of 0 "length s" 0 "s @ [NUL]" False] by auto
  then show ?thesis using cut_array [of "length (squeeze False s)" xs] squeeze_no_nul [OF s]
      squeeze_length [of False s]
    by (simp add: squeeze_str_def)
qed

section \<open>Removing line breaks, in place\<close>

function unfold_loop :: "string \<Rightarrow> nat \<Rightarrow> nat \<Rightarrow> nat \<Rightarrow> (string \<times> nat) res" where
  "unfold_loop xs n e k =
     (if e < n then
        if e < n + 1 then
          rbind (arr_get xs e) (\<lambda>c.
          rbind (if c = CR then rbind (arr_get xs (e + 1)) (\<lambda>d. Inr (d = LF)) else Inr False) (\<lambda>brk.
          if \<not> brk
          then rbind (arr_set xs k c) (\<lambda>xs. unfold_loop xs n (Suc e) (Suc k))
          else unfold_loop xs n (Suc (Suc e)) k))
        else rbind (arr_get xs e) (\<lambda>c.
             rbind (arr_set xs k c) (\<lambda>xs. unfold_loop xs n (Suc e) (Suc k)))
      else Inr (xs, k))"
  by pat_completeness auto
termination by (relation "measure (\<lambda>(xs, n, e, k). n - e)") auto

declare unfold_loop.simps [simp del]

definition unfold_str :: "string \<Rightarrow> string res" where
  "unfold_str s =
     rbind (unfold_loop (s @ [NUL]) (length s) 0 0) (\<lambda>(xs, k).
     rbind (arr_set xs k NUL) (\<lambda>xs. Inr (cstr xs)))"

fun unfold_ref :: "string \<Rightarrow> string" where
  "unfold_ref [] = []"
| "unfold_ref [c] = [c]"
| "unfold_ref (c # d # s) = (if c = CR \<and> d = LF then unfold_ref s else c # unfold_ref (d # s))"

lemma unfold_ref_length: "length (unfold_ref s) \<le> length s"
  by (induction s rule: unfold_ref.induct) (auto intro: le_SucI)

lemma unfold_ref_chars: "c \<in> set (unfold_ref s) \<Longrightarrow> c \<in> set s"
  by (induction s rule: unfold_ref.induct) (auto split: if_splits)

lemma unfold_ref_no_nul: "no_nul s \<Longrightarrow> no_nul (unfold_ref s)"
  using unfold_ref_chars [of NUL s] by (auto simp: no_nul_iff)

lemma unfold_loop_end: "\<not> e < n \<Longrightarrow> unfold_loop xs n e k = Inr (xs, k)"
  by (simp add: unfold_loop.simps)

lemma unfold_loop_correct:
  assumes "k \<le> e" "length xs = e + length s + 1" "drop e xs = s @ [NUL]" "n = e + length s"
  shows "\<exists>xs'. unfold_loop xs n e k = Inr (xs', k + length (unfold_ref s))
     \<and> length xs' = length xs \<and> take (k + length (unfold_ref s)) xs' = take k xs @ unfold_ref s"
  using assms
proof (induction s arbitrary: xs e k rule: unfold_ref.induct)
  case 1
  then show ?case by (simp add: unfold_loop.simps)
next
  case (2 c)
  have at: "xs ! e = c" "xs ! Suc e = NUL"
    using nth_drop [of e xs 0] nth_drop [of e xs 1] "2.prems" by simp_all
  have "unfold_loop xs n e k = Inr (xs[k := c], Suc k)"
    using "2.prems" at by (simp add: unfold_loop.simps [of xs] unfold_loop_end)
  then show ?case using "2.prems" by (simp add: take_Suc_conv_app_nth take_update_cancel)
next
  case (3 c d s)
  have at: "xs ! e = c" "xs ! Suc e = d"
    using nth_drop [of e xs 0] nth_drop [of e xs 1] "3.prems" by simp_all
  have rest: "drop (Suc e) xs = (d # s) @ [NUL]" "drop (Suc (Suc e)) xs = s @ [NUL]"
    using "3.prems"(3) by (simp_all only: drop_Suc drop_tl) simp_all
  show ?case
  proof (cases "c = CR \<and> d = LF")
    case True
    then have "unfold_loop xs n e k = unfold_loop xs n (Suc (Suc e)) k"
      using "3.prems"(2,4) at by (subst unfold_loop.simps) simp
    then show ?thesis using "3.IH"(1) [OF True, of k "Suc (Suc e)" xs] "3.prems" rest True by simp
  next
    case False
    then have step: "unfold_loop xs n e k = unfold_loop (xs[k := c]) n (Suc e) (Suc k)"
      using "3.prems"(1,2,4) at by (subst unfold_loop.simps) auto
    have "drop (Suc e) (xs[k := c]) = (d # s) @ [NUL]" using rest "3.prems"(1) by simp
    then obtain xs' where "unfold_loop (xs[k := c]) n (Suc e) (Suc k) = Inr (xs', Suc k + length (unfold_ref (d # s)))"
      "length xs' = length xs"
      "take (Suc k + length (unfold_ref (d # s))) xs' = take (Suc k) (xs[k := c]) @ unfold_ref (d # s)"
      using "3.IH"(2) [OF False, of "Suc k" "Suc e" "xs[k := c]"] "3.prems" by auto
    moreover have "take (Suc k) (xs[k := c]) = take k xs @ [c]"
      using "3.prems" by (simp add: take_Suc_conv_app_nth take_update_cancel)
    ultimately show ?thesis using step False by auto
  qed
qed

lemma unfold_str_correct: "no_nul s \<Longrightarrow> unfold_str s = Inr (unfold_ref s)"
proof -
  assume s: "no_nul s"
  obtain xs where xs: "unfold_loop (s @ [NUL]) (length s) 0 0 = Inr (xs, length (unfold_ref s))"
    "length xs = length s + 1" "take (length (unfold_ref s)) xs = unfold_ref s"
    using unfold_loop_correct [of 0 0 "s @ [NUL]" s "length s"] by auto
  moreover have "no_nul (unfold_ref s)" using s by (rule unfold_ref_no_nul)
  ultimately show ?thesis using cut_array [of "length (unfold_ref s)" xs] unfold_ref_length [of s]
    by (simp add: unfold_str_def)
qed

section \<open>Header fields\<close>

record stringpair =
  sp_key :: string
  sp_value :: string

definition str_to_lower :: "string \<Rightarrow> string" where
  "str_to_lower s = map tolower s"

text \<open>The passes over copies of all fields, one after another.\<close>

definition relaxed_header_canon :: "stringpair list \<Rightarrow> stringpair list res" where
  "relaxed_header_canon headers =
     (let hs = map (\<lambda>h. h\<lparr>sp_key := map tolower (sp_key h)\<rparr>) headers in
      rbind (map_res (\<lambda>h. rbind (unfold_str (sp_value h)) (\<lambda>v. Inr (h\<lparr>sp_value := v\<rparr>))) hs) (\<lambda>hs.
      rbind (map_res (\<lambda>h. rbind (squeeze_str (sp_value h)) (\<lambda>v. Inr (h\<lparr>sp_value := v\<rparr>))) hs) (\<lambda>hs.
      Inr (map (\<lambda>h. h\<lparr>sp_value := ltrim (rtrim (sp_value h))\<rparr>) hs))))"

definition canon_value :: "string \<Rightarrow> string" where
  "canon_value v = dropWhile wsp (strip_end wsp (squeeze False (unfold_ref v)))"

definition canon_field :: "stringpair \<Rightarrow> stringpair" where
  "canon_field h = h\<lparr>sp_key := map tolower (sp_key h), sp_value := canon_value (sp_value h)\<rparr>"

lemma relaxed_header_canon_eq:
  assumes "\<forall>h \<in> set hs. no_nul (sp_value h)"
  shows "relaxed_header_canon hs = Inr (map canon_field hs)"
proof -
  let ?l = "map (\<lambda>h. h\<lparr>sp_key := map tolower (sp_key h)\<rparr>) hs"
  have "map_res (\<lambda>h. rbind (unfold_str (sp_value h)) (\<lambda>v. Inr (h\<lparr>sp_value := v\<rparr>))) ?l
      = Inr (map (\<lambda>h. h\<lparr>sp_value := unfold_ref (sp_value h)\<rparr>) ?l)" (is "_ = Inr ?u")
    by (rule map_res_Inr) (use assms in \<open>auto simp: unfold_str_correct\<close>)
  moreover have "map_res (\<lambda>h. rbind (squeeze_str (sp_value h)) (\<lambda>v. Inr (h\<lparr>sp_value := v\<rparr>))) ?u
      = Inr (map (\<lambda>h. h\<lparr>sp_value := squeeze False (sp_value h)\<rparr>) ?u)"
    by (rule map_res_Inr) (use assms in \<open>auto simp: squeeze_str_correct unfold_ref_no_nul\<close>)
  ultimately show ?thesis
    by (simp add: relaxed_header_canon_def Let_def canon_field_def canon_value_def rtrim_strip
        ltrim_drop)
qed

section \<open>Bodies\<close>

definition relaxed_body_canon_line :: "string \<Rightarrow> string res" where
  "relaxed_body_canon_line line = squeeze_str (rtrim line)"

text \<open>
  A line of the body, canonicalized and put behind the \<open>len\<close> bytes of the new body. \<open>i\<close> is
  the end of the line, its CR taken back.
\<close>

definition put_line :: "string \<Rightarrow> nat \<Rightarrow> nat \<Rightarrow> block \<Rightarrow> nat \<Rightarrow> (block \<times> nat) res" where
  "put_line body i offset new_body len =
     (if i < offset then Inl Out_Of_Bounds
      else rbind (relaxed_body_canon_line (take (i - offset) (drop offset body))) (\<lambda>line.
           rbind (blk_copy new_body len (map Some line)) (\<lambda>b.
           rbind (blk_copy b (len + length line) (map Some CRLF)) (\<lambda>b.
             Inr (b, len + length line + 2)))))"

function body_loop :: "string \<Rightarrow> nat \<Rightarrow> nat \<Rightarrow> block \<Rightarrow> nat \<Rightarrow> (nat \<times> block \<times> nat) res" where
  "body_loop body i offset new_body len =
     (if i < length body then
        (if body ! i = LF then
           rbind (put_line body (if i > 0 \<and> body ! (i - 1) = CR then i - 1 else i) offset new_body len)
             (\<lambda>(b, n). body_loop body (Suc i) (Suc i) b n)
         else body_loop body (Suc i) offset new_body len)
      else Inr (offset, new_body, len))"
  by pat_completeness auto
termination by (relation "measure (\<lambda>(body, i, offset, b, len). length body - i)") auto

declare body_loop.simps [simp del]

definition relaxed_body_canon :: "string \<Rightarrow> string res" where
  "relaxed_body_canon body =
     rbind (body_loop body 0 0 (malloc (length body * 2 + 3)) 0) (\<lambda>(offset, b, len).
     rbind (if offset < length body then put_line body (length body) offset b len else Inr (b, len))
       (\<lambda>(b, len).
     rbind (blk_set b len NUL) (\<lambda>b.
     rbind (blk_cstr b) (\<lambda>s.
     let s = rtrim_lines s in
     rbind (blk_copy b (length s) (map Some (CRLF @ [NUL]))) (\<lambda>b. blk_cstr b)))))"

text \<open>The lines of a body, without the LF that ends them, and the rest.\<close>

fun cut_lines :: "string \<Rightarrow> string \<Rightarrow> string list \<times> string" where
  "cut_lines cur [] = ([], cur)"
| "cut_lines cur (c # s) =
     (if c = LF then (case cut_lines [] s of (ls, r) \<Rightarrow> (cur # ls, r)) else cut_lines (cur @ [c]) s)"

definition chop_cr :: "string \<Rightarrow> string" where
  "chop_cr l = (if l \<noteq> [] \<and> last l = CR then butlast l else l)"

definition canon_line :: "string \<Rightarrow> string" where
  "canon_line l = squeeze False (strip_end wsp l)"

definition with_crlf :: "string list \<Rightarrow> string" where
  "with_crlf ls = concat (map (\<lambda>l. l @ CRLF) ls)"

definition body_canon_lines :: "string \<Rightarrow> string list" where
  "body_canon_lines body = (case cut_lines [] body of (ls, r) \<Rightarrow>
     map (\<lambda>l. canon_line (chop_cr l)) ls @ (if r = [] then [] else [canon_line r]))"

definition canon_body :: "string \<Rightarrow> string" where
  "canon_body body = strip_end (\<lambda>c. c = CR \<or> c = LF) (with_crlf (body_canon_lines body)) @ CRLF"

lemma strip_end_prefix: "\<exists>t. s = strip_end P s @ t"
proof -
  have "rev s = takeWhile P (rev s) @ dropWhile P (rev s)" by simp
  then have "s = strip_end P s @ rev (takeWhile P (rev s))"
    unfolding strip_end_def by (metis rev_append rev_rev_ident)
  then show ?thesis by blast
qed

lemma strip_end_length: "length (strip_end P s) \<le> length s"
  using strip_end_prefix [of s P] by (metis le_add1 length_append)

lemma strip_end_no_nul: "no_nul s \<Longrightarrow> no_nul (strip_end P s)"
  using strip_end_prefix [of s P] by (metis no_nul_simps(3))

lemma canon_line_length: "length (canon_line l) \<le> length l"
  using squeeze_length [of False "strip_end wsp l"] strip_end_length [of wsp l]
  by (simp add: canon_line_def)

lemma canon_line_no_nul: "no_nul l \<Longrightarrow> no_nul (canon_line l)"
  by (simp add: canon_line_def squeeze_no_nul strip_end_no_nul)

lemma put_line_correct:
  assumes b: "blk_holds b s" and body: "body = pre @ line @ post" "no_nul line"
    and size: "length s + length (canon_line line) + 2 \<le> bsize b"
  shows "\<exists>b'. put_line body (length (pre @ line)) (length pre) b (length s)
      = Inr (b', length (s @ canon_line line @ CRLF))
    \<and> blk_holds b' (s @ canon_line line @ CRLF) \<and> bsize b' = bsize b"
proof -
  have "relaxed_body_canon_line line = Inr (canon_line line)"
    using body(2) by (simp add: relaxed_body_canon_line_def rtrim_strip squeeze_str_correct
        strip_end_no_nul canon_line_def)
  moreover obtain b1 where "blk_copy b (length s) (map Some (canon_line line)) = Inr b1"
    "blk_holds b1 (s @ canon_line line)" "bsize b1 = bsize b"
    using blk_holds_append [OF b, of "canon_line line"] size by auto
  moreover obtain b2 where "blk_copy b1 (length (s @ canon_line line)) (map Some CRLF) = Inr b2"
    "blk_holds b2 ((s @ canon_line line) @ CRLF)" "bsize b2 = bsize b1"
    using blk_holds_append [OF \<open>blk_holds b1 _\<close>, of CRLF] size \<open>bsize b1 = _\<close> by auto
  ultimately show ?thesis by (simp add: put_line_def body(1))
qed

lemma chop_cr_length: "length (chop_cr l) \<le> length l"
  by (simp add: chop_cr_def)

lemma chop_cr_prefix: "\<exists>t. l = chop_cr l @ t"
  by (cases l rule: rev_cases) (auto simp: chop_cr_def)

text \<open>The end of a line, its CR taken back.\<close>

lemma line_end:
  assumes "pre = [] \<or> last pre = LF"
  shows "(if length (pre @ cur) > 0 \<and> (pre @ cur @ LF # rest) ! (length (pre @ cur) - 1) = CR
          then length (pre @ cur) - 1 else length (pre @ cur)) = length (pre @ chop_cr cur)"
proof (cases cur rule: rev_cases)
  case Nil
  then show ?thesis using assms by (cases pre rule: rev_cases) (auto simp: chop_cr_def nth_append)
next
  case (snoc ys y)
  then show ?thesis by (simp add: chop_cr_def nth_append)
qed

lemma with_crlf_simps [simp]:
  "with_crlf [] = []" "with_crlf (l # ls) = l @ CRLF @ with_crlf ls"
  "with_crlf (ls @ ls') = with_crlf ls @ with_crlf ls'"
  by (simp_all add: with_crlf_def)

lemma body_loop_correct:
  assumes "body = pre @ cur @ rest" "LF \<notin> set cur" "pre = [] \<or> last pre = LF" "no_nul body"
    and "blk_holds b s" "length s \<le> 2 * length pre" "bsize b = 2 * length body + 3"
    and "cut_lines cur rest = (ls, r)"
  shows "\<exists>b' pre'. body_loop body (length (pre @ cur)) (length pre) b (length s)
       = Inr (length pre', b', length (s @ with_crlf (map (\<lambda>l. canon_line (chop_cr l)) ls)))
     \<and> blk_holds b' (s @ with_crlf (map (\<lambda>l. canon_line (chop_cr l)) ls)) \<and> bsize b' = bsize b
     \<and> body = pre' @ r \<and> LF \<notin> set r
     \<and> length (s @ with_crlf (map (\<lambda>l. canon_line (chop_cr l)) ls)) \<le> 2 * length pre'"
  using assms
proof (induction rest arbitrary: pre cur b s ls)
  case Nil
  then show ?case by (subst body_loop.simps) (auto intro!: exI [of _ pre])
next
  case (Cons c rest)
  show ?case
  proof (cases "c = LF")
    case False
    then have step: "body_loop body (length (pre @ cur)) (length pre) b (length s)
        = body_loop body (length (pre @ (cur @ [c]))) (length pre) b (length s)"
      using Cons.prems(1) by (subst body_loop.simps) (simp add: nth_append)
    show ?thesis unfolding step
      by (rule Cons.IH) (use Cons.prems False in auto)
  next
    case True
    obtain ls' where ls: "ls = cur # ls'" "cut_lines [] rest = (ls', r)"
      using Cons.prems(8) True by (auto split: prod.splits)
    let ?l = "chop_cr cur" and ?pre = "pre @ cur @ [LF]"
    let ?s = "s @ canon_line ?l @ CRLF"
    obtain t where t: "cur = ?l @ t" using chop_cr_prefix [of cur] by blast
    have body: "body = pre @ ?l @ (t @ LF # rest)"
      using Cons.prems(1) t True by (metis append.assoc)
    have size: "length s + length (canon_line ?l) + 2 \<le> 2 * length pre + 2 * length cur + 2"
      using Cons.prems(6) canon_line_length [of ?l] chop_cr_length [of cur] by arith
    have "no_nul ?l" using Cons.prems(4) body by (metis no_nul_simps(3))
    moreover have "length s + length (canon_line ?l) + 2 \<le> bsize b"
      using size Cons.prems(1,7) by simp
    ultimately obtain b1 where b1: "put_line body (length (pre @ ?l)) (length pre) b (length s)
        = Inr (b1, length ?s)" "blk_holds b1 ?s" "bsize b1 = bsize b"
      using put_line_correct [OF Cons.prems(5) body] by blast
    have step: "body_loop body (length (pre @ cur)) (length pre) b (length s)
        = body_loop body (length (?pre @ [])) (length ?pre) b1 (length ?s)"
      using Cons.prems(1) True b1(1) line_end [OF Cons.prems(3), of cur rest]
      by (subst body_loop.simps) (simp add: nth_append)
    have "\<exists>b' pre'. body_loop body (length (?pre @ [])) (length ?pre) b1 (length ?s)
       = Inr (length pre', b', length (?s @ with_crlf (map (\<lambda>l. canon_line (chop_cr l)) ls')))
     \<and> blk_holds b' (?s @ with_crlf (map (\<lambda>l. canon_line (chop_cr l)) ls')) \<and> bsize b' = bsize b1
     \<and> body = pre' @ r \<and> LF \<notin> set r
     \<and> length (?s @ with_crlf (map (\<lambda>l. canon_line (chop_cr l)) ls')) \<le> 2 * length pre'"
      by (rule Cons.IH) (use Cons.prems True b1 ls size in auto)
    then show ?thesis unfolding step using ls(1) b1(3) by simp
  qed
qed

text \<open>The buffer of \<open>body_len * 2 + 3\<close> bytes is large enough for the whole run.\<close>

lemma canon_body_lines:
  "cut_lines [] body = (ls, r) \<Longrightarrow>
     with_crlf (body_canon_lines body)
     = with_crlf (map (\<lambda>l. canon_line (chop_cr l)) ls) @ (if r = [] then [] else canon_line r @ CRLF)"
  by (simp add: body_canon_lines_def)

lemma no_nul_lines: "no_nul body \<Longrightarrow> no_nul cur \<Longrightarrow> cut_lines cur body = (ls, r) \<Longrightarrow>
   (\<forall>l \<in> set ls. no_nul l) \<and> no_nul r"
proof (induction cur body arbitrary: ls r rule: cut_lines.induct)
  case (1 cur)
  then show ?case by simp
next
  case (2 cur c s)
  show ?case
  proof (cases "c = LF")
    case True
    obtain ls' r' where "cut_lines [] s = (ls', r')" by (cases "cut_lines [] s")
    then show ?thesis using 2 True by auto
  next
    case False
    then show ?thesis using "2.IH"(2) [of ls r] "2.prems" by simp
  qed
qed

lemma no_nul_with_crlf: "(\<forall>l \<in> set ls. no_nul l) \<Longrightarrow> no_nul (with_crlf ls)"
  by (induction ls) simp_all

lemma chop_cr_no_nul: "no_nul l \<Longrightarrow> no_nul (chop_cr l)"
  using chop_cr_prefix [of l] by (metis no_nul_simps(3))

lemma body_canon_lines_no_nul: "no_nul body \<Longrightarrow> no_nul (with_crlf (body_canon_lines body))"
proof (rule no_nul_with_crlf)
  assume body: "no_nul body"
  obtain ls r where lr: "cut_lines [] body = (ls, r)" by (cases "cut_lines [] body")
  then show "\<forall>l \<in> set (body_canon_lines body). no_nul l"
    using no_nul_lines [OF body _ lr] canon_line_no_nul chop_cr_no_nul
    by (auto simp: body_canon_lines_def)
qed

lemma strip_end_crlf:
  "strip_end (\<lambda>c. c = CR \<or> c = LF) (s @ [CR, LF]) = strip_end (\<lambda>c. c = CR \<or> c = LF) s"
  by (simp add: strip_end_def)

lemma strip_crlf_length:
  "ls \<noteq> [] \<Longrightarrow> length (strip_end (\<lambda>c. c = CR \<or> c = LF) (with_crlf ls)) + 2 \<le> length (with_crlf ls)"
proof -
  let ?P = "\<lambda>c. c = CR \<or> c = LF"
  assume "ls \<noteq> []"
  then obtain ls' l where ls: "ls = ls' @ [l]" by (cases ls rule: rev_cases) simp_all
  have "strip_end ?P (with_crlf ls) = strip_end ?P (with_crlf ls' @ l)"
    using strip_end_crlf [of "with_crlf ls' @ l"] by (simp add: ls)
  then show ?thesis using strip_end_length [of ?P "with_crlf ls' @ l"] by (simp add: ls)
qed

lemma relaxed_body_canon_eq:
  assumes body: "no_nul body"
  shows "relaxed_body_canon body = Inr (canon_body body)"
proof -
  let ?P = "\<lambda>c. c = CR \<or> c = LF" and ?n = "length body * 2 + 3"
  obtain ls r where lr: "cut_lines [] body = (ls, r)" by (cases "cut_lines [] body")
  let ?s = "with_crlf (map (\<lambda>l. canon_line (chop_cr l)) ls)"
  let ?t = "with_crlf (body_canon_lines body)"
  note t = canon_body_lines [OF lr]
  obtain b pre where b: "body_loop body 0 0 (malloc ?n) 0 = Inr (length pre, b, length ?s)"
    "blk_holds b ?s" "bsize b = ?n" "body = pre @ r" "LF \<notin> set r" "length ?s \<le> 2 * length pre"
    using body_loop_correct [of body "[]" "[]" body "malloc ?n" "[]" ls r] body lr by auto
  have "\<exists>b2. (if length pre < length body then put_line body (length body) (length pre) b (length ?s)
      else Inr (b, length ?s)) = Inr (b2, length ?t) \<and> blk_holds b2 ?t \<and> bsize b2 = ?n
      \<and> length ?t \<le> 2 * length body + 2"
  proof (cases "r = []")
    case True
    then show ?thesis using b t by simp
  next
    case False
    have "length ?s + length (canon_line r) + 2 \<le> bsize b"
      using b(3,4,6) canon_line_length [of r] by simp
    then obtain b2 where "put_line body (length (pre @ r)) (length pre) b (length ?s)
        = Inr (b2, length (?s @ canon_line r @ CRLF))" "blk_holds b2 (?s @ canon_line r @ CRLF)"
        "bsize b2 = bsize b"
      using put_line_correct [OF b(2), of body pre r "[]"] b(4) body by auto
    then show ?thesis using False b t canon_line_length [of r] by simp
  qed
  then obtain b2 where b2: "(if length pre < length body
      then put_line body (length body) (length pre) b (length ?s)
      else Inr (b, length ?s)) = Inr (b2, length ?t)" "blk_holds b2 ?t" "bsize b2 = ?n"
      "length ?t \<le> 2 * length body + 2" by blast
  obtain b3 where b3: "blk_set b2 (length ?t) NUL = Inr b3" "blk_holds b3 (?t @ [NUL])" "bsize b3 = ?n"
    using blk_holds_append [OF b2(2), of "[NUL]"] b2(3,4) by auto
  have nul: "no_nul ?t" using body by (rule body_canon_lines_no_nul)
  have str: "blk_cstr b3 = Inr ?t" using blk_cstr_holds [OF b3(2) nul] .
  let ?u = "strip_end ?P ?t"
  obtain v where v: "?t = ?u @ v" using strip_end_prefix by blast
  have "blk_holds b3 ?u" using b3(2) v blk_holds_prefix by (metis append.assoc)
  moreover have "length ?u + 3 \<le> ?n"
    using strip_crlf_length [of "body_canon_lines body"] b2(4)
    by (cases "body_canon_lines body = []") auto
  ultimately obtain b4 where b4: "blk_copy b3 (length ?u) (map Some (CRLF @ [NUL])) = Inr b4"
    "blk_holds b4 (?u @ CRLF @ [NUL])"
    using blk_holds_append [of b3 ?u "CRLF @ [NUL]"] b3(3) by auto
  have "blk_cstr b4 = Inr (?u @ CRLF)"
    by (rule blk_cstr_holds) (use b4(2) nul in \<open>simp_all add: strip_end_no_nul\<close>)
  then show ?thesis using b(1) b2(1) b3(1) b4(1) str
    by (simp add: relaxed_body_canon_def rtrim_lines_strip canon_body_def Let_def)
qed

section \<open>Canonical forms\<close>

text \<open>A CR occurs only directly before a LF.\<close>

fun no_bare_cr :: "string \<Rightarrow> bool" where
  "no_bare_cr [] \<longleftrightarrow> True"
| "no_bare_cr [c] \<longleftrightarrow> c \<noteq> CR"
| "no_bare_cr (c # d # s) \<longleftrightarrow> (if c = CR then d = LF \<and> no_bare_cr s else no_bare_cr (d # s))"

definition tidy :: "string \<Rightarrow> bool" where
  "tidy l \<longleftrightarrow> (l = [] \<or> \<not> wsp (last l)) \<and> TAB \<notin> set l
     \<and> successively (\<lambda>a b. \<not> (a = CHR '' '' \<and> b = CHR '' '')) l"

lemma wsp_simps [simp]: "wsp (CHR '' '')" "wsp TAB" "\<not> wsp CR" "\<not> wsp LF"
  by (simp_all add: wsp_def)

lemma squeeze_Nil_iff: "squeeze False s = [] \<longleftrightarrow> s = []"
  by (cases s) simp_all

lemma squeeze_hd: "squeeze True s \<noteq> [] \<Longrightarrow> hd (squeeze True s) \<noteq> CHR '' ''"
  by (induction s) auto

lemma squeeze_successively: "successively (\<lambda>a b. \<not> (a = CHR '' '' \<and> b = CHR '' '')) (squeeze p s)"
  by (induction s arbitrary: p) (auto simp: successively_Cons squeeze_hd)

lemma squeeze_no_tab: "TAB \<notin> set (squeeze p s)"
  by (induction s arbitrary: p) (auto simp: wsp_def)

lemma squeeze_last: "s \<noteq> [] \<Longrightarrow> \<not> wsp (last s) \<Longrightarrow> squeeze p s \<noteq> [] \<and> \<not> wsp (last (squeeze p s))"
proof (induction s arbitrary: p)
  case Nil
  then show ?case by simp
next
  case (Cons c s)
  then show ?case by (cases "s = []") auto
qed

lemma strip_end_last: "strip_end P s \<noteq> [] \<Longrightarrow> \<not> P (last (strip_end P s))"
  by (induction s rule: rev_induct) auto

lemma canon_line_tidy: "tidy (canon_line l)"
proof (cases "strip_end wsp l = []")
  case True
  then show ?thesis by (simp add: tidy_def canon_line_def)
next
  case False
  then show ?thesis using squeeze_last [OF False strip_end_last [OF False], of False]
      squeeze_successively [of False "strip_end wsp l"]
    by (simp add: tidy_def canon_line_def squeeze_no_tab)
qed

lemma squeeze_id:
  assumes "TAB \<notin> set l" "successively (\<lambda>a b. \<not> (a = CHR '' '' \<and> b = CHR '' '')) l"
    and "p \<Longrightarrow> l \<noteq> [] \<Longrightarrow> hd l \<noteq> CHR '' ''"
  shows "squeeze p l = l"
  using assms
proof (induction l arbitrary: p)
  case Nil
  then show ?case by simp
next
  case (Cons c l)
  have "squeeze (wsp c) l = l"
    by (rule Cons.IH) (use Cons.prems in \<open>auto simp: successively_Cons wsp_def\<close>)
  then show ?case using Cons.prems by (cases "wsp c") (auto simp: wsp_def)
qed

lemma strip_end_id: "l = [] \<or> \<not> P (last l) \<Longrightarrow> strip_end P l = l"
  by (cases l rule: rev_cases) simp_all

lemma canon_line_id: "tidy l \<Longrightarrow> canon_line l = l"
  by (simp add: canon_line_def tidy_def strip_end_id squeeze_id)

lemma canon_line_chars: "c \<in> set (canon_line l) \<Longrightarrow> c = CHR '' '' \<or> c \<in> set l"
proof -
  assume "c \<in> set (canon_line l)"
  then have "c = CHR '' '' \<or> c \<in> set (strip_end wsp l)" unfolding canon_line_def by (rule squeeze_chars)
  moreover obtain t where "l = strip_end wsp l @ t" using strip_end_prefix by blast
  then have "set (strip_end wsp l) \<subseteq> set l" by (metis set_append sup_ge1)
  ultimately show ?thesis by blast
qed

text \<open>A line of the canonical body: tidy, without CR and LF.\<close>

definition tidy_line :: "string \<Rightarrow> bool" where
  "tidy_line l \<longleftrightarrow> tidy l \<and> CR \<notin> set l \<and> LF \<notin> set l"

lemma tidy_line_last: "tidy_line l \<Longrightarrow> l \<noteq> [] \<Longrightarrow> last l \<noteq> CR \<and> last l \<noteq> LF"
  unfolding tidy_line_def by (metis last_in_set)

text \<open>Lines are separated by CRLF, and no empty line ends the body.\<close>

definition canonical_lines :: "string list \<Rightarrow> bool" where
  "canonical_lines ls \<longleftrightarrow> ls \<noteq> [] \<and> list_all tidy_line ls \<and> (last ls \<noteq> [] \<or> ls = [[]])"

lemma cut_lines_with_crlf:
  "LF \<notin> set l \<Longrightarrow> cut_lines cur (l @ CR # LF # s)
     = (case cut_lines [] s of (ls, r) \<Rightarrow> ((cur @ l @ [CR]) # ls, r))"
  by (induction l arbitrary: cur) auto

lemma cut_canonical: "list_all tidy_line ls \<Longrightarrow> cut_lines [] (with_crlf ls) = (map (\<lambda>l. l @ [CR]) ls, [])"
  by (induction ls) (simp_all add: cut_lines_with_crlf tidy_line_def)

lemma body_canon_lines_canonical: "list_all tidy_line ls \<Longrightarrow> body_canon_lines (with_crlf ls) = ls"
  by (simp add: body_canon_lines_def cut_canonical)
     (rule map_idI, simp add: list_all_iff chop_cr_def canon_line_id tidy_line_def)

lemma canon_body_canonical: "canonical_lines ls \<Longrightarrow> canon_body (with_crlf ls) = with_crlf ls"
proof -
  let ?P = "\<lambda>c. c = CR \<or> c = LF"
  assume ls: "canonical_lines ls"
  then obtain ks l where kl: "ls = ks @ [l]" by (cases ls rule: rev_cases) (auto simp: canonical_lines_def)
  have "strip_end ?P (with_crlf ls) = strip_end ?P (with_crlf ks @ l)"
    using strip_end_crlf [of "with_crlf ks @ l"] kl by simp
  also have "\<dots> = with_crlf ks @ l"
  proof (cases "l = []")
    case True
    then show ?thesis using ls kl by (auto simp: canonical_lines_def)
  next
    case False
    then show ?thesis using ls kl tidy_line_last [of l]
      by (intro strip_end_id) (simp add: canonical_lines_def)
  qed
  finally show ?thesis using ls kl body_canon_lines_canonical [of ls]
    by (simp add: canon_body_def canonical_lines_def)
qed

text \<open>Fields.\<close>

lemma unfold_no_cr: "no_bare_cr s \<Longrightarrow> CR \<notin> set (unfold_ref s)"
proof (induction s rule: no_bare_cr.induct)
  case (3 c d s)
  then show ?case by (cases "c = CR") auto
qed auto

lemma unfold_id: "CR \<notin> set s \<Longrightarrow> unfold_ref s = s"
  by (induction s rule: unfold_ref.induct) auto

lemma dropWhile_hd: "dropWhile P s \<noteq> [] \<Longrightarrow> \<not> P (hd (dropWhile P s))"
  by (induction s) auto

lemma dropWhile_tail: "dropWhile P s \<noteq> [] \<Longrightarrow> last (dropWhile P s) = last s"
  by (induction s) (auto split: if_splits)

lemma dropWhile_suffix: "\<exists>t. s = t @ dropWhile P s"
  by (metis takeWhile_dropWhile_id)

definition tidy_value :: "string \<Rightarrow> bool" where
  "tidy_value v \<longleftrightarrow> tidy v \<and> CR \<notin> set v \<and> (v = [] \<or> \<not> wsp (hd v))"

lemma tidy_suffix: "tidy (t @ u) \<Longrightarrow> tidy u"
  by (cases "u = []") (auto simp: tidy_def successively_append_iff)

lemma tidy_strip: "tidy (strip_end wsp (squeeze p s))"
proof -
  let ?u = "strip_end wsp (squeeze p s)"
  obtain t where t: "squeeze p s = ?u @ t" using strip_end_prefix by blast
  have "successively (\<lambda>a b. \<not> (a = CHR '' '' \<and> b = CHR '' '')) (?u @ t)"
    using squeeze_successively [of p s] by (simp only: t [symmetric])
  then have "successively (\<lambda>a b. \<not> (a = CHR '' '' \<and> b = CHR '' '')) ?u"
    by (simp only: successively_append_iff)
  moreover have "set ?u \<subseteq> set (squeeze p s)" using t by (metis set_append sup_ge1)
  then have "TAB \<notin> set ?u" using squeeze_no_tab [of p s] by blast
  ultimately show ?thesis using strip_end_last [of wsp "squeeze p s"] by (auto simp: tidy_def)
qed

lemma canon_value_tidy: "no_bare_cr v \<Longrightarrow> tidy_value (canon_value v)"
proof -
  assume v: "no_bare_cr v"
  let ?u = "strip_end wsp (squeeze False (unfold_ref v))"
  obtain t t' where t: "?u = t @ canon_value v" "squeeze False (unfold_ref v) = ?u @ t'"
    using dropWhile_suffix strip_end_prefix unfolding canon_value_def by metis
  have "set (canon_value v) \<subseteq> set (squeeze False (unfold_ref v))"
    using t by (metis set_append sup_ge1 sup_ge2 subset_trans)
  then have "CR \<notin> set (canon_value v)"
    using unfold_no_cr [OF v] squeeze_chars [of CR False "unfold_ref v"] by auto
  moreover have "tidy (canon_value v)" using tidy_strip [of False "unfold_ref v"] t(1) tidy_suffix by metis
  ultimately show ?thesis
    using dropWhile_hd [of wsp ?u] by (auto simp: tidy_value_def canon_value_def)
qed

lemma canon_value_id: "tidy_value v \<Longrightarrow> canon_value v = v"
proof -
  assume v: "tidy_value v"
  then have "squeeze False v = v" by (intro squeeze_id) (simp_all add: tidy_value_def tidy_def)
  moreover have "strip_end wsp v = v" using v by (intro strip_end_id) (auto simp: tidy_value_def tidy_def)
  moreover have "dropWhile wsp v = v" using v by (cases v) (simp_all add: tidy_value_def)
  ultimately show ?thesis using v by (simp add: canon_value_def unfold_id tidy_value_def)
qed

lemma canon_value_no_nul: "no_nul v \<Longrightarrow> no_nul (canon_value v)"
proof -
  assume "no_nul v"
  then have "no_nul (strip_end wsp (squeeze False (unfold_ref v)))"
    by (simp add: strip_end_no_nul squeeze_no_nul unfold_ref_no_nul)
  then show ?thesis unfolding canon_value_def
    by (metis dropWhile_suffix no_nul_simps(3))
qed

text \<open>A line break before white space, and which white space it is, does not matter.\<close>

lemma unfold_append: "a = [] \<or> last a \<noteq> CR \<Longrightarrow> unfold_ref (a @ b) = unfold_ref a @ unfold_ref b"
proof (induction a rule: unfold_ref.induct)
  case 1
  then show ?case by simp
next
  case (2 c)
  then show ?case by (cases b) auto
next
  case (3 c d s)
  then show ?case by (cases "c = CR \<and> d = LF") (auto split: if_splits)
qed

lemma squeeze_append: "squeeze p (a @ b) = squeeze p a @ squeeze (if a = [] then p else wsp (last a)) b"
  by (induction a arbitrary: p) auto

definition white_run :: "string \<Rightarrow> bool" where
  "white_run w \<longleftrightarrow> w \<noteq> [] \<and> list_all wsp w"

lemma squeeze_white: "list_all wsp w \<Longrightarrow> squeeze True (w @ s) = squeeze True s"
  by (induction w) auto

lemma squeeze_run: "white_run w \<Longrightarrow> squeeze p (w @ s) = squeeze p (CHR '' '' # s)"
  by (cases w) (auto simp: white_run_def squeeze_white)

lemma unfold_white: "list_all wsp w \<Longrightarrow> unfold_ref (w @ s) = w @ unfold_ref s"
proof (induction w)
  case (Cons c w)
  moreover have "c \<noteq> CR" using Cons.prems by auto
  ultimately show ?case by (cases "w @ s") auto
qed simp

lemma canon_value_fold:
  assumes "a = [] \<or> last a \<noteq> CR" "white_run w" "white_run w'"
  shows "canon_value (a @ CRLF @ w @ b) = canon_value (a @ w' @ b)"
proof -
  have "unfold_ref (CRLF @ w @ b) = w @ unfold_ref b" "unfold_ref (w' @ b) = w' @ unfold_ref b"
    using assms(2,3) by (simp_all add: unfold_white white_run_def)
  then show ?thesis
    using squeeze_run [OF assms(2)] squeeze_run [OF assms(3)]
    by (simp add: canon_value_def unfold_append [OF assms(1)] squeeze_append)
qed

section \<open>Against the specification by lines and white space\<close>

text \<open>
  What the canonicalization is to do, said without reference to how the code does it: a run of white
  space becomes one space and vanishes at the end; a body is lines, each ended by CRLF or LF, and
  perhaps a line without an end; empty lines at its end are dropped.
\<close>

function reduce_white :: "string \<Rightarrow> string" where
  "reduce_white [] = []"
| "reduce_white (c # s) =
     (if wsp c then (if dropWhile wsp s = [] then [] else CHR '' '' # reduce_white (dropWhile wsp s))
      else c # reduce_white s)"
  by pat_completeness auto
termination by (relation "measure length") (auto simp: less_Suc_eq_le length_dropWhile_le)

definition plain_line :: "string \<Rightarrow> bool" where
  "plain_line l \<longleftrightarrow> NUL \<notin> set l \<and> CR \<notin> set l \<and> LF \<notin> set l"

fun body_text :: "(string \<times> bool) list \<Rightarrow> string \<Rightarrow> string" where
  "body_text [] r = r"
| "body_text ((l, crlf) # ls) r = l @ (if crlf then CRLF else [LF]) @ body_text ls r"

definition kept_lines :: "string list \<Rightarrow> string list" where
  "kept_lines ls = (let ks = rev (dropWhile (\<lambda>l. l = []) (rev ls)) in if ks = [] then [[]] else ks)"

lemma strip_end_all: "strip_end P s = [] \<longleftrightarrow> (\<forall>c \<in> set s. P c)"
  by (simp add: strip_end_def)

lemma strip_end_append: "strip_end P t \<noteq> [] \<Longrightarrow> strip_end P (w @ t) = w @ strip_end P t"
  by (auto simp: strip_end_def dropWhile_append)

lemma squeeze_start: "s = [] \<or> \<not> wsp (hd s) \<Longrightarrow> squeeze True s = squeeze False s"
  by (cases s) auto

lemma strip_end_hd: "strip_end P s \<noteq> [] \<Longrightarrow> hd (strip_end P s) = hd s"
proof -
  assume ne: "strip_end P s \<noteq> []"
  obtain t where "s = strip_end P s @ t" using strip_end_prefix by blast
  then have "hd s = hd (strip_end P s @ t)" by simp
  then show ?thesis using ne by simp
qed

lemma canon_line_reduces: "canon_line l = reduce_white l"
proof (induction l rule: reduce_white.induct)
  case 1
  then show ?case by (simp add: canon_line_def)
next
  case (2 c s)
  show ?case
  proof (cases "wsp c")
    case True
    let ?w = "takeWhile wsp s" and ?t = "dropWhile wsp s"
    show ?thesis
    proof (cases "?t = []")
      case all: True
      then have "strip_end wsp (c # s) = []" using True by (auto simp: strip_end_all dropWhile_eq_Nil_conv)
      then show ?thesis using True all by (simp add: canon_line_def)
    next
      case False
      then have hd: "\<not> wsp (hd ?t)" by (rule hd_dropWhile)
      then have ne: "strip_end wsp ?t \<noteq> []" using False hd_in_set [OF False] unfolding strip_end_all by blast
      have "strip_end wsp (c # s) = (c # ?w) @ strip_end wsp ?t"
        using strip_end_append [OF ne, of "c # ?w"] by simp
      moreover have "squeeze True (?w @ strip_end wsp ?t) = squeeze True (strip_end wsp ?t)"
        by (rule squeeze_white) (auto simp: list_all_iff dest: set_takeWhileD)
      moreover have "squeeze True (strip_end wsp ?t) = squeeze False (strip_end wsp ?t)"
        using hd strip_end_hd [OF ne] by (intro squeeze_start) simp
      ultimately show ?thesis using "2.IH"(1) [OF True False] True False by (simp add: canon_line_def)
    qed
  next
    case False
    then have "strip_end wsp (c # s) = c # strip_end wsp s"
      using strip_end_append [of wsp s "[c]"] strip_end_id [of "[c]" wsp]
      by (cases "strip_end wsp s = []") (auto simp: strip_end_def dropWhile_append)
    then show ?thesis using "2.IH"(2) [OF False] False by (simp add: canon_line_def)
  qed
qed

lemma reduced_tidy_line: "plain_line l \<Longrightarrow> tidy_line (reduce_white l)"
  using canon_line_tidy [of l] canon_line_chars [of _ l]
  by (auto simp: tidy_line_def plain_line_def canon_line_reduces [symmetric])

lemma kept_snoc: "kept_lines (ls @ [l]) = (if l = [] then kept_lines ls else ls @ [l])"
  by (simp add: kept_lines_def)

lemma strip_kept:
  "list_all tidy_line ls \<Longrightarrow> strip_end (\<lambda>c. c = CR \<or> c = LF) (with_crlf ls) @ CRLF = with_crlf (kept_lines ls)"
proof (induction ls rule: rev_induct)
  case Nil
  show ?case by (simp add: kept_lines_def)
next
  case (snoc l ls)
  let ?P = "\<lambda>c. c = CR \<or> c = LF"
  have strip: "strip_end ?P (with_crlf (ls @ [l])) = strip_end ?P (with_crlf ls @ l)"
    using strip_end_crlf [of "with_crlf ls @ l"] by simp
  show ?case
  proof (cases "l = []")
    case True
    then show ?thesis using snoc strip by (simp add: kept_snoc)
  next
    case False
    then have "strip_end ?P (with_crlf ls @ l) = with_crlf ls @ l"
      using snoc.prems tidy_line_last [of l] by (intro strip_end_id) simp
    then show ?thesis using False strip by (simp add: kept_snoc)
  qed
qed

lemma kept_canonical: "list_all tidy_line ls \<Longrightarrow> canonical_lines (kept_lines ls)"
proof (induction ls rule: rev_induct)
  case Nil
  show ?case by (simp add: kept_lines_def canonical_lines_def tidy_line_def tidy_def)
next
  case (snoc l ls)
  then show ?case by (cases "l = []") (simp_all add: kept_snoc canonical_lines_def)
qed

lemma cut_line: "LF \<notin> set l \<Longrightarrow> cut_lines cur (l @ LF # s) = (case cut_lines [] s of (ls, r) \<Rightarrow> ((cur @ l) # ls, r))"
  by (induction l arbitrary: cur) auto

lemma cut_rest: "LF \<notin> set r \<Longrightarrow> cut_lines cur r = ([], cur @ r)"
  by (induction r arbitrary: cur) auto

lemma cut_body_text:
  "list_all (plain_line \<circ> fst) ls \<Longrightarrow> plain_line r \<Longrightarrow>
     cut_lines [] (body_text ls r) = (map (\<lambda>(l, crlf). if crlf then l @ [CR] else l) ls, r)"
  by (induction ls r rule: body_text.induct) (auto simp: cut_rest cut_line cut_lines_with_crlf plain_line_def)

lemma body_text_no_nul: "list_all (plain_line \<circ> fst) ls \<Longrightarrow> plain_line r \<Longrightarrow> no_nul (body_text ls r)"
  by (induction ls r rule: body_text.induct) (auto simp: plain_line_def no_nul_iff)

lemma canon_body_text:
  assumes "list_all (plain_line \<circ> fst) ls" "plain_line r"
  shows "canon_body (body_text ls r) = with_crlf (kept_lines (map reduce_white (map fst ls @ [r])))"
proof -
  have chop: "canon_line (chop_cr (l @ [CR])) = reduce_white l" "canon_line (chop_cr l) = reduce_white l" if "plain_line l" for l
  proof -
    have "chop_cr l = l" using that by (cases l rule: rev_cases) (auto simp: chop_cr_def plain_line_def)
    then show "canon_line (chop_cr (l @ [CR])) = reduce_white l" "canon_line (chop_cr l) = reduce_white l"
      by (simp_all add: canon_line_reduces) (simp add: chop_cr_def canon_line_reduces)
  qed
  have "map (\<lambda>x. canon_line (chop_cr (case x of (l, crlf) \<Rightarrow> if crlf then l @ [CR] else l))) ls = map (reduce_white \<circ> fst) ls"
    using assms(1) chop by (intro map_cong) (auto simp: list_all_iff split: prod.splits)
  then have lines: "body_canon_lines (body_text ls r) = map reduce_white (map fst ls) @ (if r = [] then [] else [reduce_white r])"
    by (simp add: body_canon_lines_def cut_body_text [OF assms] canon_line_reduces [of r] comp_def del: split_paired_All)
  have tidy: "list_all tidy_line (body_canon_lines (body_text ls r))"
    using assms by (auto simp: lines list_all_iff reduced_tidy_line)
  have "kept_lines (body_canon_lines (body_text ls r)) = kept_lines (map reduce_white (map fst ls @ [r]))"
    by (simp add: lines kept_snoc)
  then show ?thesis using strip_kept [OF tidy] by (simp add: canon_body_def)
qed

text \<open>
  C19. The canonicalization of a body that is written as lines ended by CRLF or LF, the last one
  perhaps without an end (so that no CR stands alone): each line has its white space reduced, the
  empty lines at the end are dropped, all lines are ended by CRLF, and where no line is left there
  is one empty line. Canonicalizing the result again changes nothing. On every body, also one with a
  CR alone, the code stays within its buffer.
\<close>

theorem body_canon_correct:
  assumes "list_all (plain_line \<circ> fst) ls" "plain_line r"
  shows "relaxed_body_canon (body_text ls r) = Inr (with_crlf (kept_lines (map reduce_white (map fst ls @ [r]))))
    \<and> relaxed_body_canon (with_crlf (kept_lines (map reduce_white (map fst ls @ [r]))))
        = Inr (with_crlf (kept_lines (map reduce_white (map fst ls @ [r]))))
    \<and> (\<forall>body. no_nul body \<longrightarrow> (\<exists>out. relaxed_body_canon body = Inr out))"
proof -
  let ?out = "with_crlf (kept_lines (map reduce_white (map fst ls @ [r])))"
  have out: "canon_body (body_text ls r) = ?out" by (rule canon_body_text [OF assms])
  have "no_nul (canon_body (body_text ls r))"
    using body_canon_lines_no_nul [OF body_text_no_nul [OF assms]] by (simp add: canon_body_def strip_end_no_nul)
  then have nul: "no_nul ?out" unfolding out .
  have "list_all tidy_line (map reduce_white (map fst ls @ [r]))"
    using assms by (auto simp: list_all_iff reduced_tidy_line)
  then have "canon_body ?out = ?out" by (intro canon_body_canonical kept_canonical)
  then show ?thesis using out relaxed_body_canon_eq nul body_text_no_nul [OF assms] by simp
qed

theorem body_canon_correct_witness:
  "relaxed_body_canon (''a '' @ [TAB] @ '' b  '' @ CRLF @ CRLF @ ''c'' @ [LF] @ CRLF @ '' '') = Inr (''a b'' @ CRLF @ CRLF @ ''c'' @ CRLF)"
proof -
  let ?ls = "[(''a '' @ [TAB] @ '' b  '', True), ([], True), (''c'', False), ([], True)]"
  have "list_all (plain_line \<circ> fst) ?ls" "plain_line '' ''" by (simp_all add: plain_line_def)
  from body_canon_correct [OF this] show ?thesis by (simp add: kept_lines_def with_crlf_def wsp_def)
qed

text \<open>A value folded at CRLFs: its pieces one behind another, the white space that begins a line with them.\<close>

fun folded :: "string list \<Rightarrow> string" where
  "folded [] = []"
| "folded [p] = p"
| "folded (p # q # ps) = p @ CRLF @ folded (q # ps)"

definition pieces_plain :: "string list \<Rightarrow> bool" where
  "pieces_plain ps \<longleftrightarrow> list_all (\<lambda>p. NUL \<notin> set p \<and> CR \<notin> set p) ps"

definition folded_field :: "string \<times> string list \<Rightarrow> stringpair" where
  "folded_field f = \<lparr>sp_key = fst f, sp_value = folded (snd f)\<rparr>"

definition relaxed_field :: "string \<times> string list \<Rightarrow> stringpair" where
  "relaxed_field f = \<lparr>sp_key = map tolower (fst f), sp_value = reduce_white (dropWhile wsp (concat (snd f)))\<rparr>"

lemma unfold_folded: "pieces_plain ps \<Longrightarrow> unfold_ref (folded ps) = concat ps"
proof (induction ps rule: folded.induct)
  case (3 p q ps)
  have p: "CR \<notin> set p" "p = [] \<or> last p \<noteq> CR" using 3 by (cases p rule: rev_cases; auto simp: pieces_plain_def)+
  have "unfold_ref (p @ CRLF @ folded (q # ps)) = p @ unfold_ref (folded (q # ps))"
    using p by (simp add: unfold_append unfold_id)
  then show ?case using 3 by (simp add: pieces_plain_def)
qed (auto simp: pieces_plain_def unfold_id)

lemma strip_squeeze: "strip_end wsp (squeeze p u) = squeeze p (strip_end wsp u)"
  by (induction u rule: rev_induct) (auto simp: squeeze_append)

lemma drop_squeeze: "dropWhile wsp (squeeze p s) = squeeze False (dropWhile wsp s)"
  by (induction s arbitrary: p) auto

lemma drop_strip: "dropWhile P (strip_end P u) = strip_end P (dropWhile P u)"
proof (induction u)
  case (Cons c u)
  show ?case
  proof (cases "P c \<and> strip_end P u = []")
    case True
    then have "strip_end P (c # u) = []" "dropWhile P u = []" by (auto simp: strip_end_all)
    then show ?thesis using True by (simp del: dropWhile_eq_Nil_conv)
  next
    case False
    then have "strip_end P (c # u) = c # strip_end P u"
      using strip_end_append [of P u "[c]"] by (cases "strip_end P u = []") (auto simp: strip_end_def dropWhile_append)
    then show ?thesis using Cons False by simp
  qed
qed simp

lemma canon_value_reduces: "canon_value v = reduce_white (dropWhile wsp (unfold_ref v))"
  by (simp add: canon_value_def strip_squeeze drop_squeeze drop_strip flip: canon_line_reduces) (simp add: canon_line_def)

lemma no_bare_cr_folded: "pieces_plain ps \<Longrightarrow> no_bare_cr (folded ps)"
proof (induction ps rule: folded.induct)
  case (3 p q ps)
  have "no_bare_cr (p @ CR # LF # t)" if "CR \<notin> set p" "no_bare_cr t" for p t
    using that by (induction p rule: no_bare_cr.induct) auto
  then show ?case using 3 by (simp add: pieces_plain_def)
next
  case (2 p)
  have "no_bare_cr p" if "CR \<notin> set p" for p using that by (induction p rule: no_bare_cr.induct) auto
  then show ?case using 2 by (simp add: pieces_plain_def)
qed simp

lemma folded_no_nul: "pieces_plain ps \<Longrightarrow> no_nul (folded ps)"
  by (induction ps rule: folded.induct) (auto simp: pieces_plain_def no_nul_iff)

lemma canon_folded_field: "pieces_plain (snd f) \<Longrightarrow> canon_field (folded_field f) = relaxed_field f"
  by (simp add: canon_field_def folded_field_def relaxed_field_def canon_value_reduces unfold_folded)

text \<open>
  C23. The canonicalization of header fields, each with its value folded into lines anywhere (and no
  CR but in the folds; a LF that stands alone is kept): names in lower case, the folds taken out, white
  space reduced and taken away at both ends of the value. Canonicalizing the fields again changes nothing.
\<close>

theorem header_canon_correct:
  assumes "list_all (pieces_plain \<circ> snd) fs"
  shows "relaxed_header_canon (map folded_field fs) = Inr (map relaxed_field fs)
    \<and> relaxed_header_canon (map relaxed_field fs) = Inr (map relaxed_field fs)"
proof -
  have canon: "map canon_field (map folded_field fs) = map relaxed_field fs"
    using assms by (simp add: list_all_iff canon_folded_field)
  have tidy: "tidy_value (canon_value (folded (snd f)))" "no_nul (canon_value (folded (snd f)))" if "f \<in> set fs" for f
    using assms that by (auto simp: list_all_iff canon_value_tidy no_bare_cr_folded canon_value_no_nul folded_no_nul)
  have again: "canon_field (relaxed_field f) = relaxed_field f" "no_nul (sp_value (relaxed_field f))" if "f \<in> set fs" for f
  proof -
    have f: "relaxed_field f = canon_field (folded_field f)" using assms that by (simp add: list_all_iff canon_folded_field)
    show "canon_field (relaxed_field f) = relaxed_field f" "no_nul (sp_value (relaxed_field f))"
      using tidy [OF that] unfolding f by (simp_all add: canon_field_def folded_field_def canon_value_id)
  qed
  have "relaxed_header_canon (map folded_field fs) = Inr (map canon_field (map folded_field fs))"
    using assms by (intro relaxed_header_canon_eq) (auto simp: list_all_iff folded_field_def folded_no_nul)
  moreover have "relaxed_header_canon (map relaxed_field fs) = Inr (map canon_field (map relaxed_field fs))"
    using again(2) by (intro relaxed_header_canon_eq) simp
  moreover have "map canon_field (map relaxed_field fs) = map relaxed_field fs"
    using again(1) by simp
  ultimately show ?thesis using canon by simp
qed

theorem header_canon_correct_witness:
  "relaxed_header_canon [\<lparr>sp_key = ''X-b'', sp_value = '' a'' @ CRLF @ [TAB] @ '' b '' @ CRLF @ '' ''\<rparr>]
    = Inr [\<lparr>sp_key = ''x-b'', sp_value = ''a b''\<rparr>]"
proof -
  have "list_all (pieces_plain \<circ> snd) [(''X-b'', ['' a'', TAB # '' b '', '' ''])]" by (simp add: pieces_plain_def)
  from header_canon_correct [OF this] show ?thesis
    by (simp add: folded_field_def relaxed_field_def wsp_def) (simp add: tolower_def char_of_def bit_0)
qed

text \<open>
  C24. A mail server on the way may fold a header field and change the case of its name: the
  canonical field stays the same.
\<close>

theorem header_folding_ignored:
  assumes "a = [] \<or> last a \<noteq> CR" "white_run w" "white_run w'" "map tolower k = map tolower k'"
    and "no_nul (a @ w @ w' @ b)"
  shows "relaxed_header_canon [\<lparr>sp_key = k, sp_value = a @ CRLF @ w @ b\<rparr>]
    = relaxed_header_canon [\<lparr>sp_key = k', sp_value = a @ w' @ b\<rparr>]"
  using assms canon_value_fold [OF assms(1-3), of b]
  by (simp add: relaxed_header_canon_eq canon_field_def)

theorem header_folding_ignored_witness:
  "relaxed_header_canon [\<lparr>sp_key = ''From'', sp_value = ''a'' @ CRLF @ [TAB] @ ''b''\<rparr>]
    = relaxed_header_canon [\<lparr>sp_key = ''FROM'', sp_value = ''a'' @ '' '' @ ''b''\<rparr>]"
  by (rule header_folding_ignored)
     (simp_all add: white_run_def no_nul_def tolower_def char_of_def bit_0)

section \<open>Wrapping long headers\<close>

fun wrap_loop :: "string \<Rightarrow> nat \<Rightarrow> block \<Rightarrow> nat \<Rightarrow> (block \<times> nat) res" where
  "wrap_loop [] lcount tmp n = Inr (tmp, n)"
| "wrap_loop (c # s) lcount tmp n =
     (if c = CHR '' '' \<or> lcount = 75 then
        rbind (blk_set tmp n c) (\<lambda>tmp.
        rbind (blk_set tmp (n + 1) CR) (\<lambda>tmp.
        rbind (blk_set tmp (n + 2) LF) (\<lambda>tmp.
        rbind (blk_set tmp (n + 3) TAB) (\<lambda>tmp.
        wrap_loop s 0 tmp (n + 4)))))
      else rbind (blk_set tmp n c) (\<lambda>tmp. wrap_loop s (lcount + 1) tmp (n + 1)))"

definition wrap :: "string \<Rightarrow> string res" where
  "wrap s =
     rbind (wrap_loop s 0 (malloc (length s * 3 + 1)) 0) (\<lambda>(tmp, n).
     rbind (blk_set tmp n NUL) blk_cstr)"

fun wrap_ref :: "nat \<Rightarrow> string \<Rightarrow> string" where
  "wrap_ref l [] = []"
| "wrap_ref l (c # s) =
     (if c = CHR '' '' \<or> l = 75 then [c, CR, LF, TAB] @ wrap_ref 0 s else c # wrap_ref (l + 1) s)"

lemma blk_put:
  "blk_exact b s \<Longrightarrow> n = length s \<Longrightarrow>
     (if length s < bsize b
      then \<exists>b'. blk_set b n c = Inr b' \<and> blk_exact b' (s @ [c]) \<and> bsize b' = bsize b
      else blk_set b n c = Inl Out_Of_Bounds)"
  using blk_exact_append [of b s "[c]"] by (auto simp: block_simps)

lemma blk_put4:
  assumes "blk_exact b s"
  shows "if length s + 4 \<le> bsize b
     then \<exists>b'. rbind (blk_set b (length s) c) (\<lambda>b. rbind (blk_set b (length s + 1) d) (\<lambda>b.
             rbind (blk_set b (length s + 2) e) (\<lambda>b. rbind (blk_set b (length s + 3) f) k))) = k b'
          \<and> blk_exact b' (s @ [c, d, e, f]) \<and> bsize b' = bsize b
     else rbind (blk_set b (length s) c) (\<lambda>b. rbind (blk_set b (length s + 1) d) (\<lambda>b.
             rbind (blk_set b (length s + 2) e) (\<lambda>b. rbind (blk_set b (length s + 3) f) k)))
          = Inl Out_Of_Bounds"
  using blk_put [OF assms refl, of c] blk_put [of _ "s @ [c]" "length s + 1" d]
    blk_put [of _ "s @ [c, d]" "length s + 2" e] blk_put [of _ "s @ [c, d, e]" "length s + 3" f]
  by (fastforce split: if_splits)

lemma wrap_loop_correct:
  assumes "blk_exact b t" "length t \<le> bsize b"
  shows "if length (t @ wrap_ref l s) \<le> bsize b
     then \<exists>b'. wrap_loop s l b (length t) = Inr (b', length (t @ wrap_ref l s))
          \<and> blk_exact b' (t @ wrap_ref l s) \<and> bsize b' = bsize b
     else wrap_loop s l b (length t) = Inl Out_Of_Bounds"
  using assms
proof (induction s arbitrary: l b t)
  case Nil
  then show ?case by simp
next
  case (Cons c s)
  show ?case
  proof (cases "c = CHR '' '' \<or> l = 75")
    case True
    let ?k = "\<lambda>b. wrap_loop s 0 b (length t + 4)"
    have loop: "wrap_loop (c # s) l b (length t) = rbind (blk_set b (length t) c) (\<lambda>b.
        rbind (blk_set b (length t + 1) CR) (\<lambda>b. rbind (blk_set b (length t + 2) LF) (\<lambda>b.
        rbind (blk_set b (length t + 3) TAB) ?k)))"
      using True by simp
    have out: "t @ wrap_ref l (c # s) = (t @ [c, CR, LF, TAB]) @ wrap_ref 0 s" using True by simp
    show ?thesis
    proof (cases "length t + 4 \<le> bsize b")
      case fits: True
      then obtain b' where b': "wrap_loop (c # s) l b (length t) = ?k b'"
        "blk_exact b' (t @ [c, CR, LF, TAB])" "bsize b' = bsize b"
        using blk_put4 [OF Cons.prems(1), of c CR LF TAB ?k] by (auto simp only: loop if_True)
      have len: "length (t @ [c, CR, LF, TAB]) = length t + 4" by simp
      have "length (t @ [c, CR, LF, TAB]) \<le> bsize b'" using fits b'(3) by simp
      from Cons.IH [OF b'(2) this, of 0] show ?thesis unfolding out b'(1) b'(3) len .
    next
      case False
      then show ?thesis using blk_put4 [OF Cons.prems(1), of c CR LF TAB ?k]
        unfolding out loop by simp
    qed
  next
    case False
    then have loop: "wrap_loop (c # s) l b (length t)
        = rbind (blk_set b (length t) c) (\<lambda>b. wrap_loop s (l + 1) b (length t + 1))" by simp
    have out: "t @ wrap_ref l (c # s) = (t @ [c]) @ wrap_ref (l + 1) s" using False by simp
    show ?thesis
    proof (cases "length t < bsize b")
      case fits: True
      then obtain b' where b': "blk_set b (length t) c = Inr b'" "blk_exact b' (t @ [c])"
        "bsize b' = bsize b"
        using blk_put [OF Cons.prems(1) refl, of c] by auto
      have len: "length (t @ [c]) = length t + 1" by simp
      have "length (t @ [c]) \<le> bsize b'" using fits b'(3) by simp
      from Cons.IH [OF b'(2) this, of "l + 1"] show ?thesis
        unfolding out loop b'(1) rbind_Inr b'(3) len .
    next
      case no: False
      then show ?thesis using blk_put [OF Cons.prems(1) refl, of c] unfolding out loop by simp
    qed
  qed
qed

lemma wrap_ref_no_nul: "no_nul s \<Longrightarrow> no_nul (wrap_ref l s)"
  by (induction s arbitrary: l) auto

lemma wrap_ref_unwrap:
  "CR \<notin> set s \<Longrightarrow> LF \<notin> set s \<Longrightarrow> TAB \<notin> set s \<Longrightarrow>
     filter (\<lambda>c. c \<noteq> CR \<and> c \<noteq> LF \<and> c \<noteq> TAB) (wrap_ref l s) = s"
  by (induction s arbitrary: l) (simp_all, metis)

text \<open>The number of line breaks, and when the buffer is large enough for them.\<close>

fun wraps :: "nat \<Rightarrow> string \<Rightarrow> nat" where
  "wraps l [] = 0"
| "wraps l (c # s) = (if c = CHR '' '' \<or> l = 75 then Suc (wraps 0 s) else wraps (l + 1) s)"

lemma wrap_ref_length: "length (wrap_ref l s) = length s + 3 * wraps l s"
  by (induction s arbitrary: l) auto

lemma wrap_eq:
  assumes "no_nul s"
  shows "wrap s = (if 3 * wraps 0 s \<le> 2 * length s then Inr (wrap_ref 0 s) else Inl Out_Of_Bounds)"
proof -
  let ?n = "length s * 3 + 1" and ?r = "wrap_ref 0 s"
  note loop = wrap_loop_correct [OF blk_exact_malloc, of ?n 0 s, simplified]
  show ?thesis
  proof (cases "length ?r \<le> ?n")
    case True
    then obtain b where b: "wrap_loop s 0 (malloc ?n) 0 = Inr (b, length ?r)" "blk_exact b ?r" "bsize b = ?n"
      using loop by auto
    show ?thesis
    proof (cases "length ?r < ?n")
      case fits: True
      then obtain b' where "blk_set b (length ?r) NUL = Inr b'" "blk_exact b' (?r @ [NUL])"
        using blk_put [OF b(2) refl, of NUL] b(3) by auto
      moreover have "blk_cstr b' = Inr ?r"
        by (rule blk_cstr_holds [OF blk_exact_holds [OF calculation(2)] wrap_ref_no_nul [OF assms]])
      ultimately show ?thesis using b(1) fits by (simp add: wrap_def wrap_ref_length)
    next
      case False
      then show ?thesis using b blk_put [OF b(2) refl, of NUL] by (simp add: wrap_def wrap_ref_length)
    qed
  next
    case False
    then show ?thesis using loop by (simp add: wrap_def wrap_ref_length)
  qed
qed

text \<open>
  C25. Wrapping a header breaks the line after every space and after 75 characters without one,
  and loses nothing; but the buffer of three times the length has no room for four bytes per
  space, so a text with more than two spaces in three characters is written past its end.
\<close>

theorem wrap_correct:
  assumes "no_nul s" "CR \<notin> set s" "LF \<notin> set s" "TAB \<notin> set s"
  shows "if 3 * wraps 0 s \<le> 2 * length s
    then \<exists>w. wrap s = Inr w \<and> filter (\<lambda>c. c \<noteq> CR \<and> c \<noteq> LF \<and> c \<noteq> TAB) w = s
         \<and> length w = length s + 3 * wraps 0 s
    else wrap s = Inl Out_Of_Bounds"
  using assms by (simp add: wrap_eq wrap_ref_unwrap wrap_ref_length)

theorem wrap_correct_witness:
  "(\<exists>w. wrap ''v=1; a=rsa'' = Inr w \<and> filter (\<lambda>c. c \<noteq> CR \<and> c \<noteq> LF \<and> c \<noteq> TAB) w = ''v=1; a=rsa''
     \<and> length w = length ''v=1; a=rsa'' + 3 * wraps 0 ''v=1; a=rsa'')
   \<and> wrap ''   '' = Inl Out_Of_Bounds"
  using wrap_correct [of "''v=1; a=rsa''"] wrap_correct [of "''   ''"] by (simp add: no_nul_def)

end
