(* ===== verification/Report_Json.thy ===== *)
theory Report_Json
  imports String_Buffer Dkim_Canon
begin

text \<open>
  \<^verbatim>\<open>src/mailhandler/mailhandler.c\<close>: turning the XML of an aggregate report into JSON
  (\<open>json_escape\<close>, \<open>to_json\<close>, \<open>records_to_json\<close>, \<open>parse_xml\<close>). An \<open>xmlNode\<close> list is a list of
  elements, each with its name and its children, and of other nodes. What libxml2 computes is a
  parameter: \<open>read_memory\<close>, the children of the root of the tree of a document, and \<open>content\<close>,
  the text \<open>xmlNodeGetContent\<close> gives for a node.

  \<open>render\<close> is JSON as it should be written; the properties say for which reports the code writes
  it, and what it writes otherwise.
\<close>

section \<open>Escaping\<close>

abbreviation BACKSLASH :: char where "BACKSLASH \<equiv> CHR 0x5C"
abbreviation QUOTE :: char where "QUOTE \<equiv> CHR 0x22"

definition put2 :: "block \<Rightarrow> nat \<Rightarrow> char \<Rightarrow> char \<Rightarrow> block res" where
  "put2 b c x y = rbind (blk_set b c x) (\<lambda>b. blk_set b (c + 1) y)"

fun json_escape_loop :: "string \<Rightarrow> block \<Rightarrow> nat \<Rightarrow> (block \<times> nat) res" where
  "json_escape_loop [] new c = Inr (new, c)"
| "json_escape_loop (x # s) new c =
     (if x = TAB then rbind (put2 new c BACKSLASH (CHR ''t'')) (\<lambda>new. json_escape_loop s new (c + 2))
      else if x = LF then rbind (put2 new c BACKSLASH (CHR ''n'')) (\<lambda>new. json_escape_loop s new (c + 2))
      else if x = BACKSLASH then rbind (put2 new c BACKSLASH BACKSLASH) (\<lambda>new. json_escape_loop s new (c + 2))
      else if x = CR then rbind (put2 new c BACKSLASH (CHR ''r'')) (\<lambda>new. json_escape_loop s new (c + 2))
      else rbind (blk_set new c x) (\<lambda>new. json_escape_loop s new (c + 1)))"

definition json_escape :: "string \<Rightarrow> string res" where
  "json_escape s =
     rbind (json_escape_loop s (malloc (length s * 2 + 1)) 0) (\<lambda>(new, c).
     rbind (blk_set new c NUL) blk_cstr)"

fun escaped :: "string \<Rightarrow> string" where
  "escaped [] = []"
| "escaped (x # s) =
     (if x = TAB then BACKSLASH # CHR ''t'' # escaped s
      else if x = LF then BACKSLASH # CHR ''n'' # escaped s
      else if x = BACKSLASH then BACKSLASH # BACKSLASH # escaped s
      else if x = CR then BACKSLASH # CHR ''r'' # escaped s
      else x # escaped s)"

lemma put2_append:
  "blk_holds b s \<Longrightarrow> length s + 2 \<le> bsize b \<Longrightarrow>
     \<exists>b'. put2 b (length s) x y = Inr b' \<and> blk_holds b' (s @ [x, y]) \<and> bsize b' = bsize b"
  using blk_holds_append [of b s "[x]"] blk_holds_append [of _ "s @ [x]" "[y]"]
  by (fastforce simp: put2_def)

lemma json_escape_loop_correct:
  "blk_holds b t \<Longrightarrow> length t + 2 * length s \<le> bsize b \<Longrightarrow>
     \<exists>b'. json_escape_loop s b (length t) = Inr (b', length (t @ escaped s))
       \<and> blk_holds b' (t @ escaped s) \<and> bsize b' = bsize b"
proof (induction s arbitrary: b t)
  case Nil
  then show ?case by simp
next
  case (Cons x s)
  define out where "out = escaped [x]"
  have esc: "escaped (x # s) = out @ escaped s" by (simp add: out_def)
  have len: "length out \<le> 2" by (simp add: out_def)
  have "\<exists>b1. json_escape_loop (x # s) b (length t) = json_escape_loop s b1 (length (t @ out))
      \<and> blk_holds b1 (t @ out) \<and> bsize b1 = bsize b"
  proof (cases "x \<in> {TAB, LF, BACKSLASH, CR}")
    case True
    then obtain y where y: "out = [BACKSLASH, y]"
      "json_escape_loop (x # s) b (length t)
         = rbind (put2 b (length t) BACKSLASH y) (\<lambda>new. json_escape_loop s new (length t + 2))"
      by (auto simp: out_def)
    have "length t + 2 \<le> bsize b" using Cons.prems(2) by simp
    then show ?thesis using put2_append [OF Cons.prems(1), of BACKSLASH y] y(1) unfolding y(2) by auto
  next
    case False
    then have y: "out = [x]" "json_escape_loop (x # s) b (length t)
         = rbind (blk_set b (length t) x) (\<lambda>new. json_escape_loop s new (length t + 1))"
      by (simp_all add: out_def)
    have "length t + length [x] \<le> bsize b" using Cons.prems(2) by simp
    then show ?thesis using blk_holds_append [OF Cons.prems(1), of "[x]"] y(1) unfolding y(2) by auto
  qed
  then obtain b1 where b1: "json_escape_loop (x # s) b (length t) = json_escape_loop s b1 (length (t @ out))"
    "blk_holds b1 (t @ out)" "bsize b1 = bsize b" by blast
  have "length (t @ out) + 2 * length s \<le> bsize b1" using Cons.prems(2) len b1(3) by simp
  from Cons.IH [OF b1(2) this] show ?case unfolding b1(1) b1(3) esc by simp
qed

lemma escaped_length: "length (escaped s) \<le> 2 * length s"
  by (induction s) auto

lemma escaped_no_nul: "no_nul s \<Longrightarrow> no_nul (escaped s)"
  by (induction s) auto

lemma json_escape_eq: "no_nul s \<Longrightarrow> json_escape s = Inr (escaped s)"
proof -
  assume s: "no_nul s"
  let ?n = "length s * 2 + 1"
  obtain b where b: "json_escape_loop s (malloc ?n) 0 = Inr (b, length (escaped s))"
    "blk_holds b (escaped s)" "bsize b = ?n"
    using json_escape_loop_correct [of "malloc ?n" "[]" s] by auto
  then obtain b' where "blk_set b (length (escaped s)) NUL = Inr b'" "blk_holds b' (escaped s @ [NUL])"
    using blk_holds_append [OF b(2), of "[NUL]"] escaped_length [of s] by auto
  then show ?thesis using b(1) blk_cstr_holds escaped_no_nul [OF s] by (simp add: json_escape_def)
qed

section \<open>From XML to JSON\<close>

datatype xml = Element string "xml list" | Other string

definition json_open :: "string option \<Rightarrow> string_buffer \<Rightarrow> string_buffer res" where
  "json_open name sb =
     (case name of
        Some n \<Rightarrow> app_list string_buffer_append sb [''\"'', n, ''\": {'']
      | None \<Rightarrow> string_buffer_append sb ''{'')"

function to_json ::
    "(xml \<Rightarrow> string) \<Rightarrow> string option \<Rightarrow> xml list \<Rightarrow> string_buffer \<Rightarrow> string_buffer res"
  and json_nodes :: "(xml \<Rightarrow> string) \<Rightarrow> bool \<Rightarrow> xml list \<Rightarrow> string_buffer \<Rightarrow> string_buffer res" where
  "to_json content name nodes sb =
     rbind (json_open name sb) (\<lambda>sb.
     rbind (json_nodes content True nodes sb) (\<lambda>sb.
     string_buffer_append sb ''}''))"
| "json_nodes content first [] sb = Inr sb"
| "json_nodes content first (Other t # nodes) sb = json_nodes content first nodes sb"
| "json_nodes content first (Element n cs # nodes) sb =
     rbind (if \<not> first then string_buffer_append sb '','' else Inr sb) (\<lambda>sb.
     rbind (if cs \<noteq> [] then
              if tl cs = [] then
                rbind (json_escape (content (hd cs))) (\<lambda>val.
                  app_list string_buffer_append sb [''\"'', n, ''\": \"'', val, ''\"''])
              else to_json content (Some n) cs sb
            else app_list string_buffer_append sb [''\"'', n, ''\": \"\"'']) (\<lambda>sb.
     json_nodes content False nodes sb))"
  by pat_completeness auto
termination
  by (relation "measure (case_sum (\<lambda>(content, name, nodes, sb). 2 * size_list size nodes + 1)
        (\<lambda>(content, first, nodes, sb). 2 * size_list size nodes))") auto

declare to_json.simps [simp del]

text \<open>The records, and the document: the loop over the children of the root, then the records.\<close>

fun records_loop :: "(xml \<Rightarrow> string) \<Rightarrow> bool \<Rightarrow> xml list \<Rightarrow> string_buffer \<Rightarrow> string_buffer res" where
  "records_loop content first [] sb = Inr sb"
| "records_loop content first (Other t # nodes) sb = records_loop content first nodes sb"
| "records_loop content first (Element n cs # nodes) sb =
     (if n = ''record'' then
        rbind (if \<not> first then string_buffer_append sb '','' else Inr sb) (\<lambda>sb.
        rbind (to_json content None cs sb) (\<lambda>sb. records_loop content False nodes sb))
      else records_loop content first nodes sb)"

definition records_to_json :: "(xml \<Rightarrow> string) \<Rightarrow> xml list \<Rightarrow> string_buffer \<Rightarrow> string_buffer res" where
  "records_to_json content nodes sb =
     rbind (string_buffer_append sb ''\"records\": ['') (\<lambda>sb.
     rbind (records_loop content True nodes sb) (\<lambda>sb.
     string_buffer_append sb '']''))"

definition comma_if_text :: "string_buffer \<Rightarrow> string_buffer res" where
  "comma_if_text sb = (if sb_str sb \<noteq> None then string_buffer_append sb '','' else Inr sb)"

fun top_loop :: "(xml \<Rightarrow> string) \<Rightarrow> xml list \<Rightarrow> string_buffer \<Rightarrow> string_buffer res" where
  "top_loop content [] sb = Inr sb"
| "top_loop content (Other t # nodes) sb = top_loop content nodes sb"
| "top_loop content (Element n cs # nodes) sb =
     rbind (if n = ''report_metadata'' then to_json content (Some ''metadata'') cs sb
            else if n = ''policy_published'' then
              rbind (comma_if_text sb) (\<lambda>sb. to_json content (Some ''policy'') cs sb)
            else Inr sb) (\<lambda>sb. top_loop content nodes sb)"

definition parse_xml ::
  "(string \<Rightarrow> xml list option) \<Rightarrow> (xml \<Rightarrow> string) \<Rightarrow> block \<Rightarrow> string_buffer \<Rightarrow> (string_buffer \<times> int) res" where
  "parse_xml read_memory content document sb =
     rbind (blk_cstr document) (\<lambda>doc.
     case read_memory doc of
       None \<Rightarrow> Inr (sb, 1)
     | Some nodes \<Rightarrow>
         rbind (top_loop content nodes sb) (\<lambda>sb.
         rbind (comma_if_text sb) (\<lambda>sb.
         rbind (records_to_json content nodes sb) (\<lambda>sb. Inr (sb, 0)))))"

section \<open>JSON\<close>

datatype json = JString string | JObject "(string \<times> json) list" | JArray "json list"

definition hex_digit :: "nat \<Rightarrow> char" where
  "hex_digit n = ''0123456789abcdef'' ! n"

definition json_char :: "char \<Rightarrow> string" where
  "json_char c =
     (if c = TAB then [BACKSLASH, CHR ''t''] else if c = LF then [BACKSLASH, CHR ''n'']
      else if c = CR then [BACKSLASH, CHR ''r''] else if c = BACKSLASH then [BACKSLASH, BACKSLASH]
      else if c = QUOTE then [BACKSLASH, QUOTE]
      else if (of_char c :: nat) < 32
      then BACKSLASH # ''u00'' @ [hex_digit (of_char c div 16), hex_digit (of_char c mod 16)]
      else [c])"

definition quote_string :: "string \<Rightarrow> string" where
  "quote_string s = QUOTE # concat (map json_char s) @ [QUOTE]"

fun commas :: "string list \<Rightarrow> string" where
  "commas [] = []"
| "commas [s] = s"
| "commas (s # t # ss) = s @ '','' @ commas (t # ss)"

fun render :: "json \<Rightarrow> string" where
  "render (JString s) = quote_string s"
| "render (JObject ms) =
     ''{'' @ commas (map (\<lambda>(k, v). quote_string k @ '': '' @ render v) ms) @ ''}''"
| "render (JArray js) = ''['' @ commas (map render js) @ '']''"

text \<open>The JSON of a list of nodes.\<close>

fun members :: "(xml \<Rightarrow> string) \<Rightarrow> xml list \<Rightarrow> (string \<times> json) list" where
  "members content [] = []"
| "members content (Other t # nodes) = members content nodes"
| "members content (Element n cs # nodes) =
     (n, if cs = [] then JString []
         else if tl cs = [] then JString (content (hd cs))
         else JObject (members content cs)) # members content nodes"

fun report_records :: "(xml \<Rightarrow> string) \<Rightarrow> xml list \<Rightarrow> json list" where
  "report_records content [] = []"
| "report_records content (Other t # nodes) = report_records content nodes"
| "report_records content (Element n cs # nodes) =
     (if n = ''record'' then [JObject (members content cs)] else []) @ report_records content nodes"

text \<open>
  Texts that the escaping covers: no quotation mark, no control characters but the three that
  it knows, and escaped they fit into one chunk of the buffer. Names need no escaping.
\<close>

definition plain_text :: "string \<Rightarrow> bool" where
  "plain_text s \<longleftrightarrow>
     list_all (\<lambda>c. c \<noteq> QUOTE \<and> (32 \<le> (of_char c :: nat) \<or> c = TAB \<or> c = LF \<or> c = CR)) s
     \<and> length (escaped s) \<le> STRING_BUFFER_CHUNK_SIZE"

definition plain_name :: "string \<Rightarrow> bool" where
  "plain_name s \<longleftrightarrow> list_all (\<lambda>c. c \<noteq> QUOTE \<and> c \<noteq> BACKSLASH \<and> 32 \<le> (of_char c :: nat)) s
     \<and> length s \<le> STRING_BUFFER_CHUNK_SIZE"

fun plain_nodes :: "(xml \<Rightarrow> string) \<Rightarrow> xml list \<Rightarrow> bool" where
  "plain_nodes content [] \<longleftrightarrow> True"
| "plain_nodes content (Other t # nodes) \<longleftrightarrow> plain_nodes content nodes"
| "plain_nodes content (Element n cs # nodes) \<longleftrightarrow>
     plain_name n \<and> (cs \<noteq> [] \<longrightarrow> (if tl cs = [] then plain_text (content (hd cs)) else plain_nodes content cs))
     \<and> plain_nodes content nodes"

section \<open>What is written\<close>

fun nodes_text :: "(xml \<Rightarrow> string) \<Rightarrow> bool \<Rightarrow> xml list \<Rightarrow> string" where
  "nodes_text content first [] = []"
| "nodes_text content first (Other t # nodes) = nodes_text content first nodes"
| "nodes_text content first (Element n cs # nodes) =
     (if first then [] else '','') @ ''\"'' @ n
     @ (if cs = [] then ''\": \"\"''
        else if tl cs = [] then ''\": \"'' @ escaped (content (hd cs)) @ ''\"''
        else ''\": {'' @ nodes_text content True cs @ ''}'')
     @ nodes_text content False nodes"

definition object_text :: "(xml \<Rightarrow> string) \<Rightarrow> string option \<Rightarrow> xml list \<Rightarrow> string" where
  "object_text content name nodes =
     (case name of Some n \<Rightarrow> ''\"'' @ n @ ''\": {'' | None \<Rightarrow> ''{'') @ nodes_text content True nodes @ ''}''"

definition short :: "string \<Rightarrow> bool" where
  "short s \<longleftrightarrow> length s \<le> STRING_BUFFER_CHUNK_SIZE"

fun short_nodes :: "(xml \<Rightarrow> string) \<Rightarrow> xml list \<Rightarrow> bool" where
  "short_nodes content [] \<longleftrightarrow> True"
| "short_nodes content (Other t # nodes) \<longleftrightarrow> short_nodes content nodes"
| "short_nodes content (Element n cs # nodes) \<longleftrightarrow>
     short n \<and> (cs \<noteq> [] \<longrightarrow> (if tl cs = [] then no_nul (content (hd cs)) \<and> short (escaped (content (hd cs)))
                         else short_nodes content cs))
     \<and> short_nodes content nodes"

lemma short_small [simp]: "short []" "short [a]" "short [a, b]" "short [a, b, c]" "short [a, b, c, d]"
    "short [a, b, c, d, e]" "short [a, b, c, d, e, f]"
  by (simp_all add: short_def STRING_BUFFER_CHUNK_SIZE_def)

lemma append_short:
  "sb_holds sb s \<Longrightarrow> short d \<Longrightarrow> \<exists>sb'. string_buffer_append sb d = Inr sb' \<and> sb_holds sb' (s @ d)"
  using str_buffer.app_holds unfolding short_def by blast

lemma appends_short:
  "sb_holds sb s \<Longrightarrow> list_all short ds \<Longrightarrow>
     \<exists>sb'. app_list string_buffer_append sb ds = Inr sb' \<and> sb_holds sb' (s @ concat ds)"
  using str_buffer.app_list_holds unfolding short_def by blast

lemma to_json_if_nodes:
  assumes nodes: "\<And>sb s. sb_holds sb s \<Longrightarrow>
      \<exists>sb'. json_nodes content True nodes sb = Inr sb' \<and> sb_holds sb' (s @ nodes_text content True nodes)"
    and "sb_holds sb s" "\<And>n. name = Some n \<Longrightarrow> short n"
  shows "\<exists>sb'. to_json content name nodes sb = Inr sb' \<and> sb_holds sb' (s @ object_text content name nodes)"
proof -
  let ?open = "case name of Some n \<Rightarrow> ''\"'' @ n @ ''\": {'' | None \<Rightarrow> ''{''"
  obtain sb1 where "json_open name sb = Inr sb1" "sb_holds sb1 (s @ ?open)"
    using appends_short [OF assms(2), of "[''\"'', the name, ''\": {'']"] append_short [OF assms(2), of "''{''"] assms(3)
    by (cases name) (auto simp: json_open_def)
  moreover obtain sb2 where "json_nodes content True nodes sb1 = Inr sb2"
    "sb_holds sb2 ((s @ ?open) @ nodes_text content True nodes)"
    using nodes [OF calculation(2)] by blast
  moreover obtain sb3 where "string_buffer_append sb2 ''}'' = Inr sb3"
    "sb_holds sb3 (((s @ ?open) @ nodes_text content True nodes) @ ''}'')"
    using append_short [OF calculation(4), of "''}''"] by auto
  ultimately show ?thesis by (simp add: object_text_def to_json.simps)
qed

lemma json_nodes_correct:
  "short_nodes content nodes \<Longrightarrow> sb_holds sb s \<Longrightarrow>
     \<exists>sb'. json_nodes content first nodes sb = Inr sb' \<and> sb_holds sb' (s @ nodes_text content first nodes)"
proof (induction content first nodes arbitrary: sb s rule: nodes_text.induct)
  case (1 content first)
  then show ?case by simp
next
  case (2 content first t nodes)
  then show ?case by simp
next
  case (3 content first n cs nodes)
  let ?c = "if first then [] else '',''"
  let ?v = "if cs = [] then ''\": \"\"'' else if tl cs = [] then ''\": \"'' @ escaped (content (hd cs)) @ ''\"''
        else ''\": {'' @ nodes_text content True cs @ ''}''"
  obtain sb1 where sb1: "(if \<not> first then string_buffer_append sb '','' else Inr sb) = Inr sb1" "sb_holds sb1 (s @ ?c)"
    using append_short [OF "3.prems"(2), of "'',''"] "3.prems"(2) by (cases first) auto
  have short: "short n" using "3.prems"(1) by simp
  obtain sb2 where sb2: "(if cs \<noteq> [] then
              if tl cs = [] then
                rbind (json_escape (content (hd cs))) (\<lambda>val.
                  app_list string_buffer_append sb1 [''\"'', n, ''\": \"'', val, ''\"''])
              else to_json content (Some n) cs sb1
            else app_list string_buffer_append sb1 [''\"'', n, ''\": \"\"'']) = Inr sb2"
    "sb_holds sb2 ((s @ ?c) @ ''\"'' @ n @ ?v)"
  proof -
    consider "cs = []" | "cs \<noteq> []" "tl cs = []" | "cs \<noteq> []" "tl cs \<noteq> []" by blast
    then show ?thesis
    proof cases
      case 1
      then show ?thesis using that appends_short [OF sb1(2), of "[''\"'', n, ''\": \"\"'']"] short by auto
    next
      case 2
      then have "no_nul (content (hd cs))" "short (escaped (content (hd cs)))" using "3.prems"(1) by simp_all
      then show ?thesis
        using that 2 short json_escape_eq
          appends_short [OF sb1(2), of "[''\"'', n, ''\": \"'', escaped (content (hd cs)), ''\"'']"] by auto
    next
      case 3
      then have "short_nodes content cs" using "3.prems"(1) by simp
      then have "\<exists>sb'. to_json content (Some n) cs sb1 = Inr sb'
          \<and> sb_holds sb' ((s @ ?c) @ object_text content (Some n) cs)"
        using "3.IH"(1) [OF 3] short sb1(2) by (intro to_json_if_nodes) simp_all
      then show ?thesis using that 3 by (auto simp: object_text_def)
    qed
  qed
  have "short_nodes content nodes" using "3.prems"(1) by simp
  from "3.IH"(2) [OF this sb2(2)] show ?case using sb1(1) sb2(1) by simp
qed

lemma to_json_correct:
  "short_nodes content nodes \<Longrightarrow> (\<And>n. name = Some n \<Longrightarrow> short n) \<Longrightarrow> sb_holds sb s \<Longrightarrow>
     \<exists>sb'. to_json content name nodes sb = Inr sb' \<and> sb_holds sb' (s @ object_text content name nodes)"
  using to_json_if_nodes json_nodes_correct by metis

text \<open>Plain texts and names are written as JSON writes them.\<close>

lemma plain_text_quote: "plain_text s \<Longrightarrow> quote_string s = ''\"'' @ escaped s @ ''\"''"
proof -
  assume "plain_text s"
  then have "list_all (\<lambda>c. c \<noteq> QUOTE \<and> (32 \<le> (of_char c :: nat) \<or> c = TAB \<or> c = LF \<or> c = CR)) s"
    by (simp add: plain_text_def)
  then have "concat (map json_char s) = escaped s"
    by (induction s) (auto simp: json_char_def)
  then show ?thesis by (simp add: quote_string_def)
qed

lemma plain_name_quote: "plain_name s \<Longrightarrow> quote_string s = ''\"'' @ s @ ''\"''"
proof -
  assume "plain_name s"
  then have "list_all (\<lambda>c. c \<noteq> QUOTE \<and> c \<noteq> BACKSLASH \<and> 32 \<le> (of_char c :: nat)) s"
    by (simp add: plain_name_def)
  then have "concat (map json_char s) = s"
    by (induction s) (auto simp: json_char_def)
  then show ?thesis by (simp add: quote_string_def)
qed

lemma plain_text_no_nul: "plain_text s \<Longrightarrow> no_nul s"
proof -
  let ?P = "\<lambda>c. c \<noteq> QUOTE \<and> (32 \<le> (of_char c :: nat) \<or> c = TAB \<or> c = LF \<or> c = CR)"
  assume "plain_text s"
  then have "list_all ?P s" by (simp add: plain_text_def)
  moreover have "\<not> ?P NUL" by simp
  ultimately show ?thesis unfolding no_nul_iff list_all_iff by blast
qed

lemma plain_short_nodes: "plain_nodes content nodes \<Longrightarrow> short_nodes content nodes"
proof (induction content nodes rule: plain_nodes.induct)
  case (3 content n cs nodes)
  have "short n" "short_nodes content nodes" using 3 by (simp_all add: short_def plain_name_def)
  moreover have "no_nul (content (hd cs)) \<and> short (escaped (content (hd cs)))" if "cs \<noteq> []" "tl cs = []"
    using "3.prems" that plain_text_no_nul [of "content (hd cs)"] by (simp add: short_def plain_text_def)
  moreover have "short_nodes content cs" if "cs \<noteq> []" "tl cs \<noteq> []" using 3 that by simp
  ultimately show ?case by simp
qed simp_all

definition member_text :: "string \<times> json \<Rightarrow> string" where
  "member_text m = (case m of (k, v) \<Rightarrow> quote_string k @ '': '' @ render v)"

lemma commas_Cons: "commas (s # ss) = s @ (if ss = [] then [] else '','' @ commas ss)"
  by (cases ss) simp_all

lemma render_object: "render (JObject ms) = ''{'' @ commas (map member_text ms) @ ''}''"
  by (simp add: member_text_def [abs_def])

lemma nodes_text_members:
  "plain_nodes content nodes \<Longrightarrow> nodes_text content first nodes =
     (if members content nodes = [] then [] else (if first then [] else '','') @ commas (map member_text (members content nodes)))"
proof (induction content first nodes rule: nodes_text.induct)
  case (3 content first n cs nodes)
  let ?v = "if cs = [] then JString [] else if tl cs = [] then JString (content (hd cs)) else JObject (members content cs)"
  have v: "member_text (n, ?v) = ''\"'' @ n @ (if cs = [] then ''\": \"\"''
      else if tl cs = [] then ''\": \"'' @ escaped (content (hd cs)) @ ''\"''
      else ''\": {'' @ nodes_text content True cs @ ''}'')"
    using "3.prems" "3.IH"(1) plain_name_quote [of n] plain_text_quote [of "content (hd cs)"]
    by (auto simp: member_text_def render_object quote_string_def simp del: render.simps(2))
  have rest: "nodes_text content False nodes
      = (if members content nodes = [] then [] else '','' @ commas (map member_text (members content nodes)))"
    using "3.prems" "3.IH"(2) by simp
  have "members content (Element n cs # nodes) = (n, ?v) # members content nodes" by simp
  moreover have "nodes_text content first (Element n cs # nodes)
      = (if first then [] else '','') @ member_text (n, ?v) @ nodes_text content False nodes"
    unfolding v by simp
  ultimately show ?case unfolding rest by (simp add: commas_Cons del: members.simps nodes_text.simps)
qed simp_all

lemma object_text_render:
  "plain_nodes content nodes \<Longrightarrow> object_text content None nodes = render (JObject (members content nodes))"
  unfolding object_text_def render_object by (simp add: nodes_text_members)

lemma named_object_text:
  "plain_nodes content nodes \<Longrightarrow> plain_name n \<Longrightarrow>
     object_text content (Some n) nodes = member_text (n, JObject (members content nodes))"
  using plain_name_quote [of n] nodes_text_members [of content nodes True]
  by (simp add: object_text_def member_text_def render_object del: render.simps(2))

section \<open>Records and documents\<close>

fun records_text :: "(xml \<Rightarrow> string) \<Rightarrow> bool \<Rightarrow> xml list \<Rightarrow> string" where
  "records_text content first [] = []"
| "records_text content first (Other t # nodes) = records_text content first nodes"
| "records_text content first (Element n cs # nodes) =
     (if n = ''record'' then (if first then [] else '','') @ object_text content None cs @ records_text content False nodes
      else records_text content first nodes)"

text \<open>The elements of the document that are looked into.\<close>

fun short_report :: "(xml \<Rightarrow> string) \<Rightarrow> xml list \<Rightarrow> bool" where
  "short_report content [] \<longleftrightarrow> True"
| "short_report content (Other t # nodes) \<longleftrightarrow> short_report content nodes"
| "short_report content (Element n cs # nodes) \<longleftrightarrow>
     (n \<in> {''record'', ''report_metadata'', ''policy_published''} \<longrightarrow> short_nodes content cs)
     \<and> short_report content nodes"

lemma records_loop_correct:
  "short_report content nodes \<Longrightarrow> sb_holds sb s \<Longrightarrow>
     \<exists>sb'. records_loop content first nodes sb = Inr sb' \<and> sb_holds sb' (s @ records_text content first nodes)"
proof (induction content first nodes arbitrary: sb s rule: records_text.induct)
  case (3 content first n cs nodes)
  show ?case
  proof (cases "n = ''record''")
    case True
    obtain sb1 where sb1: "(if \<not> first then string_buffer_append sb '','' else Inr sb) = Inr sb1"
      "sb_holds sb1 (s @ (if first then [] else '',''))"
      using append_short [OF "3.prems"(2), of "'',''"] "3.prems"(2) by (cases first) auto
    have "short_nodes content cs" using "3.prems"(1) True by simp
    then obtain sb2 where sb2: "to_json content None cs sb1 = Inr sb2"
      "sb_holds sb2 ((s @ (if first then [] else '','')) @ object_text content None cs)"
      using to_json_correct [OF _ _ sb1(2), of content cs None] by blast
    have "short_report content nodes" using "3.prems"(1) by simp
    from "3.IH"(1) [OF True this sb2(2)] show ?thesis using sb1(1) sb2(1) True by simp
  next
    case False
    then show ?thesis using "3.IH"(2) [OF False _ "3.prems"(2)] "3.prems"(1) by simp
  qed
qed simp_all

fun top_text :: "(xml \<Rightarrow> string) \<Rightarrow> string \<Rightarrow> xml list \<Rightarrow> string" where
  "top_text content s [] = s"
| "top_text content s (Other t # nodes) = top_text content s nodes"
| "top_text content s (Element n cs # nodes) =
     top_text content
       (if n = ''report_metadata'' then s @ object_text content (Some ''metadata'') cs
        else if n = ''policy_published''
        then s @ (if s = [] then [] else '','') @ object_text content (Some ''policy'') cs
        else s) nodes"

text \<open>A buffer that holds text, and has an array exactly where the text is not empty.\<close>

definition sb_text :: "string_buffer \<Rightarrow> string \<Rightarrow> bool" where
  "sb_text sb s \<longleftrightarrow> sb_holds sb s \<and> (sb_str sb = None \<longleftrightarrow> s = [])"

lemma sb_text_init: "sb_text string_buffer_init []"
  using str_buffer.holds_new by (simp add: sb_text_def string_buffer_init_def)

lemma sb_holds_text: "sb_holds sb s \<Longrightarrow> s \<noteq> [] \<Longrightarrow> sb_text sb s"
  by (auto simp: sb_text_def sb_holds_def split: option.splits)

lemma comma_if_text_correct:
  "sb_text sb s \<Longrightarrow> \<exists>sb'. comma_if_text sb = Inr sb' \<and> sb_holds sb' (s @ (if s = [] then [] else '',''))"
  using append_short [of sb s "'',''"] by (auto simp: sb_text_def comma_if_text_def)

lemma object_text_nonempty: "object_text content name nodes \<noteq> []"
  by (simp add: object_text_def)

lemma top_loop_correct:
  "short_report content nodes \<Longrightarrow> sb_text sb s \<Longrightarrow>
     \<exists>sb'. top_loop content nodes sb = Inr sb' \<and> sb_text sb' (top_text content s nodes)"
proof (induction content s nodes arbitrary: sb rule: top_text.induct)
  case (3 content s n cs nodes)
  let ?s = "if n = ''report_metadata'' then s @ object_text content (Some ''metadata'') cs
        else if n = ''policy_published''
        then s @ (if s = [] then [] else '','') @ object_text content (Some ''policy'') cs
        else s"
  have short: "short_report content nodes" using "3.prems"(1) by simp
  have names: "short ''metadata''" "short ''policy''" by (simp_all add: short_def STRING_BUFFER_CHUNK_SIZE_def)
  have "\<exists>sb1. (if n = ''report_metadata'' then to_json content (Some ''metadata'') cs sb
            else if n = ''policy_published'' then
              rbind (comma_if_text sb) (\<lambda>sb. to_json content (Some ''policy'') cs sb)
            else Inr sb) = Inr sb1 \<and> sb_text sb1 ?s"
  proof -
    consider "n = ''report_metadata''" | "n = ''policy_published''"
      | "n \<noteq> ''report_metadata''" "n \<noteq> ''policy_published''" by blast
    then show ?thesis
    proof cases
      case 1
      then have "short_nodes content cs" using "3.prems"(1) by simp
      then show ?thesis
        using 1 to_json_correct [of content cs "Some ''metadata''" sb s] "3.prems"(2) names
          sb_holds_text object_text_nonempty by (fastforce simp: sb_text_def)
    next
      case 2
      then have nodes: "short_nodes content cs" using "3.prems"(1) by simp
      obtain sb1 where sb1: "comma_if_text sb = Inr sb1" "sb_holds sb1 (s @ (if s = [] then [] else '',''))"
        using comma_if_text_correct [OF "3.prems"(2)] by blast
      obtain sb2 where "to_json content (Some ''policy'') cs sb1 = Inr sb2"
        "sb_holds sb2 ((s @ (if s = [] then [] else '','')) @ object_text content (Some ''policy'') cs)"
        using to_json_correct [OF nodes _ sb1(2), of "Some ''policy''"] names by blast
      then show ?thesis using 2 sb1(1) sb_holds_text object_text_nonempty by fastforce
    next
      case 3
      then show ?thesis using "3.prems"(2) by simp
    qed
  qed
  then obtain sb1 where sb1: "(if n = ''report_metadata'' then to_json content (Some ''metadata'') cs sb
            else if n = ''policy_published'' then
              rbind (comma_if_text sb) (\<lambda>sb. to_json content (Some ''policy'') cs sb)
            else Inr sb) = Inr sb1" "sb_text sb1 ?s" by blast
  from "3.IH" [OF short sb1(2)] show ?case unfolding top_loop.simps top_text.simps sb1(1) by simp
qed simp_all

lemma records_to_json_correct:
  "short_report content nodes \<Longrightarrow> sb_holds sb s \<Longrightarrow>
     \<exists>sb'. records_to_json content nodes sb = Inr sb'
       \<and> sb_holds sb' (s @ ''\"records\": ['' @ records_text content True nodes @ '']'')"
proof -
  assume short: "short_report content nodes" and sb: "sb_holds sb s"
  have "short ''\"records\": [''" by (simp add: short_def STRING_BUFFER_CHUNK_SIZE_def)
  then obtain sb1 where "string_buffer_append sb ''\"records\": ['' = Inr sb1" "sb_holds sb1 (s @ ''\"records\": ['')"
    using append_short [OF sb] by blast
  moreover obtain sb2 where "records_loop content True nodes sb1 = Inr sb2"
    "sb_holds sb2 ((s @ ''\"records\": ['') @ records_text content True nodes)"
    using records_loop_correct [OF short calculation(2)] by blast
  ultimately show ?thesis using append_short [of sb2 _ "'']''"] by (fastforce simp: records_to_json_def)
qed

definition report_text :: "(xml \<Rightarrow> string) \<Rightarrow> xml list \<Rightarrow> string" where
  "report_text content nodes =
     (let s = top_text content [] nodes in
      s @ (if s = [] then [] else '','') @ ''\"records\": ['' @ records_text content True nodes @ '']'')"

lemma parse_xml_correct:
  assumes "blk_cstr document = Inr doc" "read_memory doc = Some nodes" "short_report content nodes"
  shows "\<exists>sb. parse_xml read_memory content document string_buffer_init = Inr (sb, 0)
    \<and> sb_holds sb (report_text content nodes)"
proof -
  let ?s = "top_text content [] nodes"
  obtain sb1 where sb1: "top_loop content nodes string_buffer_init = Inr sb1" "sb_text sb1 ?s"
    using top_loop_correct [OF assms(3) sb_text_init] by blast
  obtain sb2 where sb2: "comma_if_text sb1 = Inr sb2" "sb_holds sb2 (?s @ (if ?s = [] then [] else '',''))"
    using comma_if_text_correct [OF sb1(2)] by blast
  obtain sb3 where "records_to_json content nodes sb2 = Inr sb3"
    "sb_holds sb3 ((?s @ (if ?s = [] then [] else '','')) @ ''\"records\": ['' @ records_text content True nodes @ '']'')"
    using records_to_json_correct [OF assms(3) sb2(2)] by blast
  then show ?thesis using sb1(1) sb2(1) assms(1,2)
    by (simp add: parse_xml_def report_text_def Let_def)
qed

text \<open>The JSON of a document: its metadata, which come before anything else, its policies, its records.\<close>

fun plain_report :: "(xml \<Rightarrow> string) \<Rightarrow> xml list \<Rightarrow> bool" where
  "plain_report content [] \<longleftrightarrow> True"
| "plain_report content (Other t # nodes) \<longleftrightarrow> plain_report content nodes"
| "plain_report content (Element n cs # nodes) \<longleftrightarrow>
     (n \<in> {''record'', ''report_metadata'', ''policy_published''} \<longrightarrow> plain_nodes content cs)
     \<and> plain_report content nodes"

fun metadata_first :: "bool \<Rightarrow> xml list \<Rightarrow> bool" where
  "metadata_first seen [] \<longleftrightarrow> True"
| "metadata_first seen (Other t # nodes) \<longleftrightarrow> metadata_first seen nodes"
| "metadata_first seen (Element n cs # nodes) \<longleftrightarrow>
     (if n = ''report_metadata'' then \<not> seen \<and> metadata_first True nodes
      else if n = ''policy_published'' then metadata_first True nodes
      else metadata_first seen nodes)"

fun top_members :: "(xml \<Rightarrow> string) \<Rightarrow> xml list \<Rightarrow> (string \<times> json) list" where
  "top_members content [] = []"
| "top_members content (Other t # nodes) = top_members content nodes"
| "top_members content (Element n cs # nodes) =
     (if n = ''report_metadata'' then [(''metadata'', JObject (members content cs))]
      else if n = ''policy_published'' then [(''policy'', JObject (members content cs))] else [])
     @ top_members content nodes"

definition report_json :: "(xml \<Rightarrow> string) \<Rightarrow> xml list \<Rightarrow> json" where
  "report_json content nodes =
     JObject (top_members content nodes @ [(''records'', JArray (report_records content nodes))])"

lemma plain_short_report: "plain_report content nodes \<Longrightarrow> short_report content nodes"
  by (induction content nodes rule: plain_report.induct) (simp_all add: plain_short_nodes)

lemma top_text_members:
  "plain_report content nodes \<Longrightarrow> metadata_first (s \<noteq> []) nodes \<Longrightarrow>
     top_text content s nodes = s @ (if top_members content nodes = [] then []
        else (if s = [] then [] else '','') @ commas (map member_text (top_members content nodes)))"
proof (induction content s nodes rule: top_text.induct)
  case (3 content s n cs nodes)
  have names: "plain_name ''metadata''" "plain_name ''policy''"
    by (simp_all add: plain_name_def STRING_BUFFER_CHUNK_SIZE_def)
  have nonempty: "s @ object_text content x cs \<noteq> []" "s @ (if s = [] then [] else '','') @ object_text content x cs \<noteq> []" for x
    using object_text_nonempty by simp_all
  consider "n = ''report_metadata''" | "n = ''policy_published''"
    | "n \<noteq> ''report_metadata''" "n \<noteq> ''policy_published''" by blast
  then show ?case
  proof cases
    case 1
    then have "s = []" "plain_nodes content cs" using "3.prems" by simp_all
    then show ?thesis using 1 "3.IH" "3.prems" named_object_text [OF _ names(1)] nonempty(1) [of "Some ''metadata''"]
      by (simp add: commas_Cons)
  next
    case 2
    then have "plain_nodes content cs" using "3.prems" by simp
    then show ?thesis using 2 "3.IH" "3.prems" named_object_text [OF _ names(2)] nonempty(2) [of "Some ''policy''"]
      by (simp add: commas_Cons)
  next
    case 3
    then show ?thesis using "3.IH" "3.prems" by simp
  qed
qed simp_all

lemma records_text_render:
  "plain_report content nodes \<Longrightarrow> records_text content first nodes =
     (if report_records content nodes = [] then []
      else (if first then [] else '','') @ commas (map render (report_records content nodes)))"
  by (induction content first nodes rule: records_text.induct)
     (simp_all add: object_text_render commas_Cons del: render.simps)

lemma report_text_render:
  "plain_report content nodes \<Longrightarrow> metadata_first False nodes \<Longrightarrow>
     render (report_json content nodes) = ''{'' @ report_text content nodes @ ''}''"
proof -
  assume plain: "plain_report content nodes" and first: "metadata_first False nodes"
  have top: "top_text content [] nodes = commas (map member_text (top_members content nodes))"
    using top_text_members [OF plain, of "[]"] first by simp
  have "member_text m \<noteq> []" for m by (simp add: member_text_def quote_string_def split: prod.splits)
  then have empty: "commas (map member_text ms) = [] \<longleftrightarrow> ms = []" for ms
    by (cases ms) (simp_all add: commas_Cons)
  have commas_snoc: "commas (ss @ [t]) = (if ss = [] then t else commas ss @ '','' @ t)" for ss t
    by (induction ss) (simp_all add: commas_Cons)
  have "member_text (''records'', JArray (report_records content nodes))
      = ''\"records\": ['' @ records_text content True nodes @ '']''"
    using records_text_render [OF plain, of True] plain_name_quote [of "''records''"]
    by (simp add: member_text_def plain_name_def STRING_BUFFER_CHUNK_SIZE_def)
  then show ?thesis
    by (simp add: report_json_def render_object commas_snoc report_text_def Let_def top empty del: render.simps)
qed

text \<open>
  C40. For a report whose names and texts need no other escapes than the code knows and are
  short, and whose metadata come first, the buffer ends up with the JSON of the report, but for
  the braces around it: what is posted is the list of members of a JSON object, not an object.
\<close>

theorem parse_xml_json:
  assumes "blk_cstr document = Inr doc" "read_memory doc = Some nodes"
    and "plain_report content nodes" "metadata_first False nodes"
  shows "\<exists>sb out. parse_xml read_memory content document string_buffer_init = Inr (sb, 0) \<and> sb_holds sb out
    \<and> render (report_json content nodes) = ''{'' @ out @ ''}''"
  using parse_xml_correct [of document doc read_memory nodes content, OF assms(1,2) plain_short_report [OF assms(3)]] report_text_render [OF assms(3,4)]
  by blast

definition sample_content :: "xml \<Rightarrow> string" where
  "sample_content x = (case x of Other t \<Rightarrow> t | Element n cs \<Rightarrow> [])"

definition sample_report :: "xml list" where
  "sample_report = [Element ''report_metadata'' [Element ''org_name'' [Other ''example'']],
     Element ''policy_published'' [Element ''p'' [Other ''none''], Element ''sp'' []],
     Element ''record'' [Element ''row'' [Element ''count'' [Other ''2''], Element ''note'' [Other [TAB]]]]]"

theorem parse_xml_json_witness:
  "\<exists>sb out. parse_xml (\<lambda>doc. Some sample_report) sample_content \<lparr>bsize = 4, cells = map Some (''xml'' @ [NUL])\<rparr> string_buffer_init
      = Inr (sb, 0) \<and> sb_holds sb out
    \<and> render (report_json sample_content sample_report) = ''{'' @ out @ ''}''"
  by (rule parse_xml_json [where doc = "''xml''"])
     (simp_all add: blk_cstr_def sample_report_def sample_content_def plain_text_def plain_name_def
        STRING_BUFFER_CHUNK_SIZE_def)

text \<open>
  A quotation mark in a value is written as it is: a value that contains the end of a member
  and the beginning of another is written exactly as two members are, so that the web service
  cannot tell the report from one with a field more.
\<close>

theorem json_value_injection:
  assumes "content v = content v1 @ ''\",\"'' @ m @ ''\": \"'' @ content v2"
    and "escaped m = m" "short n" "short m" "no_nul (content v)" "short (escaped (content v))"
    and name: "\<And>k. name = Some k \<Longrightarrow> short k"
  shows "\<exists>sb sb' out. to_json content name [Element n [v]] string_buffer_init = Inr sb \<and> sb_holds sb out
    \<and> to_json content name [Element n [v1], Element m [v2]] string_buffer_init = Inr sb' \<and> sb_holds sb' out"
proof -
  have esc_append: "escaped (s @ t) = escaped s @ escaped t" for s t by (induction s) auto
  have esc: "escaped (content v) = escaped (content v1) @ ''\",\"'' @ m @ ''\": \"'' @ escaped (content v2)"
    using assms(2) by (simp add: assms(1) esc_append)
  then have "short (escaped (content v1))" "short (escaped (content v2))"
    using assms(6) by (simp_all add: short_def)
  then have nodes: "short_nodes content [Element n [v]]" "short_nodes content [Element n [v1], Element m [v2]]"
    using assms by simp_all
  have "nodes_text content True [Element n [v]] = nodes_text content True [Element n [v1], Element m [v2]]"
    using esc by simp
  then have "object_text content name [Element n [v]] = object_text content name [Element n [v1], Element m [v2]]"
    by (simp only: object_text_def)
  then show ?thesis
    using to_json_correct [OF nodes(1) name str_buffer.holds_new] to_json_correct [OF nodes(2) name str_buffer.holds_new]
    by fastforce
qed

theorem json_value_injection_witness:
  "\<exists>sb sb' out. to_json sample_content None [Element ''ip'' [Other (''1'' @ ''\",\"'' @ ''p'' @ ''\": \"'' @ ''none'')]] string_buffer_init = Inr sb
    \<and> sb_holds sb out
    \<and> to_json sample_content None [Element ''ip'' [Other ''1''], Element ''p'' [Other ''none'']] string_buffer_init = Inr sb'
    \<and> sb_holds sb' out"
  by (rule json_value_injection) (simp_all add: sample_content_def short_def STRING_BUFFER_CHUNK_SIZE_def no_nul_def)

end
