(* ===== verification/Dkim_Parse.thy ===== *)
theory Dkim_Parse
  imports Dkim_Canon
begin

text \<open>
  \<^verbatim>\<open>src/firm-dkim-extended/firm-dkim.c\<close>: the parsers of the DKIM-Signature header
  (\<open>dkim_parse_header\<close>) and of the DKIM key record from DNS (\<open>dkim_parse_dns\<close>). Both scan for
  \<open>tag=\<close> and copy the value up to the next semicolon, without white space and cut at the size
  of the field, into an array of the result. The loop is modelled once, over the tags and the
  arrays of the result; the contract of such a result is the locale \<open>field_store\<close>, which both
  records implement.
\<close>

section \<open>The parsing loop\<close>

record 't scan_state =
  in_val :: bool
  val_len :: nat
  param_ptr :: "'t option"

definition scan_start :: "'t scan_state" where
  "scan_start = \<lparr>in_val = False, val_len = 0, param_ptr = None\<rparr>"

fun tag_at :: "(string \<times> 't) list \<Rightarrow> string \<Rightarrow> (string \<times> 't) option" where
  "tag_at [] s = None"
| "tag_at ((w, t) # tags) s = (if starts_with w s then Some (w, t) else tag_at tags s)"

definition end_value ::
  "('t \<Rightarrow> 'r \<Rightarrow> block) \<Rightarrow> ('t \<Rightarrow> block \<Rightarrow> 'r \<Rightarrow> 'r) \<Rightarrow> 't scan_state \<Rightarrow> 'r \<Rightarrow> 'r res" where
  "end_value get put st r =
     (case param_ptr st of None \<Rightarrow> Inr r
      | Some t \<Rightarrow> rbind (blk_set (get t r) (val_len st) NUL) (\<lambda>b. Inr (put t b r)))"

text \<open>One pass of the loop; the number is how far the index moves.\<close>

definition scan_step ::
  "(string \<times> 't) list \<Rightarrow> ('t \<Rightarrow> 'r \<Rightarrow> block) \<Rightarrow> ('t \<Rightarrow> block \<Rightarrow> 'r \<Rightarrow> 'r) \<Rightarrow> nat
   \<Rightarrow> char \<Rightarrow> string \<Rightarrow> 't scan_state \<Rightarrow> 'r \<Rightarrow> ('t scan_state \<times> 'r \<times> nat) res" where
  "scan_step tags get put max_len c s st r =
     (if in_val st then
        (if c = CHR '';'' then
           rbind (end_value get put st r) (\<lambda>r. Inr (scan_start, r, 1))
         else if wsp c then Inr (st, r, 1)
         else (case param_ptr st of
             None \<Rightarrow> Inr (st, r, 1)
           | Some t \<Rightarrow>
               if val_len st < max_len - 1 then
                 rbind (blk_set (get t r) (val_len st) c) (\<lambda>b.
                   Inr (st\<lparr>val_len := val_len st + 1\<rparr>, put t b r, 1))
               else Inr (st, r, 1)))
      else (case tag_at tags (c # s) of
          None \<Rightarrow> Inr (st, r, 1)
        | Some (w, t) \<Rightarrow> Inr (st\<lparr>param_ptr := Some t, in_val := True\<rparr>, r, length w)))"

function scan_loop ::
  "(string \<times> 't) list \<Rightarrow> ('t \<Rightarrow> 'r \<Rightarrow> block) \<Rightarrow> ('t \<Rightarrow> block \<Rightarrow> 'r \<Rightarrow> 'r) \<Rightarrow> nat
   \<Rightarrow> string \<Rightarrow> 't scan_state \<Rightarrow> 'r \<Rightarrow> ('t scan_state \<times> 'r) res" where
  "scan_loop tags get put max_len [] st r = Inr (st, r)"
| "scan_loop tags get put max_len (c # s) st r =
     rbind (scan_step tags get put max_len c s st r) (\<lambda>(st, r, n).
       scan_loop tags get put max_len (drop (n - 1) s) st r)"
  by pat_completeness auto
termination by (relation "measure (\<lambda>(tags, get, put, max_len, s, st, r). length s)") auto

definition scan_params ::
  "(string \<times> 't) list \<Rightarrow> ('t \<Rightarrow> 'r \<Rightarrow> block) \<Rightarrow> ('t \<Rightarrow> block \<Rightarrow> 'r \<Rightarrow> 'r) \<Rightarrow> nat
   \<Rightarrow> 'r \<Rightarrow> string \<Rightarrow> 'r res" where
  "scan_params tags get put max_len r s =
     rbind (scan_loop tags get put max_len s scan_start r) (\<lambda>(st, r). end_value get put st r)"

section \<open>The two parsers\<close>

definition DKIM_VALUE_MAX_LEN :: nat where "DKIM_VALUE_MAX_LEN = 1024"
definition DKIM_RECORD_MAX_LEN :: nat where "DKIM_RECORD_MAX_LEN = 2046"

record dkim_header =
  dh_v :: block
  dh_a :: block
  dh_c :: block
  dh_d :: block
  dh_s :: block
  dh_h :: block
  dh_bh :: block
  dh_b :: block

record dkim_record =
  dr_k :: block
  dr_p :: block

datatype header_tag = Tag_v | Tag_a | Tag_c | Tag_d | Tag_s | Tag_bh | Tag_b | Tag_h
datatype record_tag = Tag_k | Tag_p

fun dh_get :: "header_tag \<Rightarrow> dkim_header \<Rightarrow> block" where
  "dh_get Tag_v r = dh_v r" | "dh_get Tag_a r = dh_a r" | "dh_get Tag_c r = dh_c r"
| "dh_get Tag_d r = dh_d r" | "dh_get Tag_s r = dh_s r" | "dh_get Tag_bh r = dh_bh r"
| "dh_get Tag_b r = dh_b r" | "dh_get Tag_h r = dh_h r"

fun dh_put :: "header_tag \<Rightarrow> block \<Rightarrow> dkim_header \<Rightarrow> dkim_header" where
  "dh_put Tag_v x r = r\<lparr>dh_v := x\<rparr>" | "dh_put Tag_a x r = r\<lparr>dh_a := x\<rparr>"
| "dh_put Tag_c x r = r\<lparr>dh_c := x\<rparr>" | "dh_put Tag_d x r = r\<lparr>dh_d := x\<rparr>"
| "dh_put Tag_s x r = r\<lparr>dh_s := x\<rparr>" | "dh_put Tag_bh x r = r\<lparr>dh_bh := x\<rparr>"
| "dh_put Tag_b x r = r\<lparr>dh_b := x\<rparr>" | "dh_put Tag_h x r = r\<lparr>dh_h := x\<rparr>"

fun dr_get :: "record_tag \<Rightarrow> dkim_record \<Rightarrow> block" where
  "dr_get Tag_k r = dr_k r" | "dr_get Tag_p r = dr_p r"

fun dr_put :: "record_tag \<Rightarrow> block \<Rightarrow> dkim_record \<Rightarrow> dkim_record" where
  "dr_put Tag_k x r = r\<lparr>dr_k := x\<rparr>" | "dr_put Tag_p x r = r\<lparr>dr_p := x\<rparr>"

definition header_tags :: "(string \<times> header_tag) list" where
  "header_tags =
     [(''v='', Tag_v), (''a='', Tag_a), (''c='', Tag_c), (''d='', Tag_d), (''s='', Tag_s),
      (''bh='', Tag_bh), (''b='', Tag_b), (''h='', Tag_h)]"

definition record_tags :: "(string \<times> record_tag) list" where
  "record_tags = [(''k='', Tag_k), (''p='', Tag_p)]"

definition new_dkim_header :: dkim_header where
  "new_dkim_header = (let b = malloc DKIM_VALUE_MAX_LEN in
     \<lparr>dh_v = b, dh_a = b, dh_c = b, dh_d = b, dh_s = b, dh_h = b, dh_bh = b, dh_b = b\<rparr>)"

definition new_dkim_record :: dkim_record where
  "new_dkim_record = (let b = malloc DKIM_RECORD_MAX_LEN in \<lparr>dr_k = b, dr_p = b\<rparr>)"

definition dkim_parse_header :: "string \<Rightarrow> dkim_header res" where
  "dkim_parse_header sig =
     scan_params header_tags dh_get dh_put DKIM_VALUE_MAX_LEN new_dkim_header sig"

definition dkim_parse_dns :: "string \<Rightarrow> dkim_record res" where
  "dkim_parse_dns s =
     scan_params record_tags dr_get dr_put DKIM_RECORD_MAX_LEN new_dkim_record s"

fun find_key :: "string \<Rightarrow> stringpair list \<Rightarrow> nat option" where
  "find_key k [] = None"
| "find_key k (h # hs) = (if sp_key h = k then Some 0 else map_option Suc (find_key k hs))"

definition dkim_get_header :: "stringpair list \<Rightarrow> dkim_header option res" where
  "dkim_get_header headers =
     (case find_key ''DKIM-Signature'' headers of
        None \<Rightarrow> Inr None
      | Some i \<Rightarrow> rbind (dkim_parse_header (sp_value (headers ! i))) (\<lambda>dh. Inr (Some dh)))"

section \<open>Stores of fields\<close>

text \<open>
  What the parser relies on: the array of one tag is not the array of another, and all have the
  size the parser is told; tags end with \<open>=\<close>, and the parser finds the one that is there.
\<close>

definition tag_letter :: "(string \<times> 't) list \<Rightarrow> char \<Rightarrow> bool" where
  "tag_letter tags c = list_ex (\<lambda>(w, t). c \<in> set (butlast w)) tags"

text \<open>Every array of the result is unwritten or holds a terminated string.\<close>

definition array_holds :: "nat \<Rightarrow> block \<Rightarrow> string option \<Rightarrow> bool" where
  "array_holds max_len b x \<longleftrightarrow> bsize b = max_len \<and>
     (case x of None \<Rightarrow> cells b = [] | Some v \<Rightarrow> blk_holds b (v @ [NUL]))"

definition fields_hold :: "nat \<Rightarrow> ('t \<Rightarrow> 'r \<Rightarrow> block) \<Rightarrow> 'r \<Rightarrow> ('t \<rightharpoonup> string) \<Rightarrow> bool" where
  "fields_hold max_len get r m \<longleftrightarrow> (\<forall>t. array_holds max_len (get t r) (m t))"

text \<open>What the arrays keep of a value.\<close>

definition clip_value :: "nat \<Rightarrow> string \<Rightarrow> string" where
  "clip_value max_len v = take (max_len - 1) (filter (\<lambda>c. \<not> wsp c) v)"

text \<open>What may stand between two tags: nothing in it is taken for a tag.\<close>

fun no_tag :: "(string \<times> 't) list \<Rightarrow> string \<Rightarrow> bool" where
  "no_tag tags [] \<longleftrightarrow> True"
| "no_tag tags (c # s) \<longleftrightarrow> tag_at tags (c # s) = None \<and> no_tag tags s"

definition gap_ok :: "(string \<times> 't) list \<Rightarrow> string \<Rightarrow> bool" where
  "gap_ok tags g \<longleftrightarrow> no_tag tags g \<and> (g = [] \<or> \<not> tag_letter tags (last g))"

text \<open>
  A text of tags: what stands before each tag, its value and a semicolon; then a last gap and,
  possibly, a last tag whose value ends with the text.
\<close>

fun render_items :: "('t \<Rightarrow> string) \<Rightarrow> (string \<times> 't \<times> string) list \<Rightarrow> string" where
  "render_items name [] = []"
| "render_items name ((g, t, v) # items) = g @ name t @ v @ '';'' @ render_items name items"

definition render_params ::
  "('t \<Rightarrow> string) \<Rightarrow> (string \<times> 't \<times> string) list \<Rightarrow> string \<Rightarrow> ('t \<times> string) option \<Rightarrow> string" where
  "render_params name items g e =
     render_items name items @ g @ (case e of None \<Rightarrow> [] | Some (t, v) \<Rightarrow> name t @ v)"

text \<open>What the parser should store: the last value of each tag.\<close>

fun item_values :: "nat \<Rightarrow> ('t \<rightharpoonup> string) \<Rightarrow> (string \<times> 't \<times> string) list \<Rightarrow> ('t \<rightharpoonup> string)" where
  "item_values n m [] = m"
| "item_values n m ((g, t, v) # items) = item_values n (m(t \<mapsto> clip_value n v)) items"

definition param_values ::
  "nat \<Rightarrow> (string \<times> 't \<times> string) list \<Rightarrow> ('t \<times> string) option \<Rightarrow> ('t \<rightharpoonup> string)" where
  "param_values n items e =
     (case e of None \<Rightarrow> item_values n Map.empty items
      | Some (t, v) \<Rightarrow> (item_values n Map.empty items)(t \<mapsto> clip_value n v))"

definition items_ok ::
  "(string \<times> 't) list \<Rightarrow> (string \<times> 't \<times> string) list \<Rightarrow> string \<Rightarrow> ('t \<times> string) option \<Rightarrow> bool" where
  "items_ok tags items g e \<longleftrightarrow>
     list_all (\<lambda>(g, t, v). gap_ok tags g \<and> CHR '';'' \<notin> set v \<and> no_nul v) items \<and> gap_ok tags g
     \<and> (case e of None \<Rightarrow> True | Some (t, v) \<Rightarrow> CHR '';'' \<notin> set v \<and> no_nul v)"

definition read_field :: "string option \<Rightarrow> string res" where
  "read_field x = (case x of None \<Rightarrow> Inl Uninit_Read | Some v \<Rightarrow> Inr v)"

locale field_store =
  fixes tags :: "(string \<times> 't) list"
    and get :: "'t \<Rightarrow> 'r \<Rightarrow> block"
    and put :: "'t \<Rightarrow> block \<Rightarrow> 'r \<Rightarrow> 'r"
    and max_len :: nat
    and new :: 'r
    and name :: "'t \<Rightarrow> string"
  assumes get_put: "get t (put u b r) = (if t = u then b else get t r)"
    and get_new: "get t new = malloc max_len"
    and max_pos: "0 < max_len"
    and tag_name: "tag_at tags (name t @ s) = Some (name t, t)"
    and name_pos: "name t \<noteq> []"
    and tag_shape: "list_all (\<lambda>(w, t). w \<noteq> []) tags"
begin

abbreviation "run \<equiv> scan_loop tags get put max_len"

lemma fields_hold_new: "fields_hold max_len get new Map.empty"
  by (simp add: fields_hold_def array_holds_def get_new)

lemma value_run:
  assumes "CHR '';'' \<notin> set v" "blk_holds (get t r) w" "length w \<le> max_len - 1"
    and "bsize (get t r) = max_len"
  shows "\<exists>r' w'. run (v @ rest) \<lparr>in_val = True, val_len = length w, param_ptr = Some t\<rparr> r
       = run rest \<lparr>in_val = True, val_len = length w', param_ptr = Some t\<rparr> r'
     \<and> w' = take (max_len - 1) (w @ filter (\<lambda>c. \<not> wsp c) v)
     \<and> blk_holds (get t r') w' \<and> bsize (get t r') = max_len
     \<and> (\<forall>u. u \<noteq> t \<longrightarrow> get u r' = get u r)"
  using assms
proof (induction v arbitrary: r w)
  case Nil
  then show ?case by auto
next
  case (Cons c v)
  let ?st = "\<lparr>in_val = True, val_len = length w, param_ptr = Some t\<rparr>"
  have c: "c \<noteq> CHR '';''" using Cons.prems(1) by auto
  consider "wsp c" | "\<not> wsp c" "length w < max_len - 1" | "\<not> wsp c" "length w = max_len - 1"
    using Cons.prems(3) by linarith
  then show ?case
  proof cases
    case 1
    then have "run ((c # v) @ rest) ?st r = run (v @ rest) ?st r"
      using c by (simp add: scan_step_def)
    then show ?thesis using Cons.IH [of r w] Cons.prems 1 by simp
  next
    case 2
    have "length w + length [c] \<le> bsize (get t r)" using Cons.prems(4) 2 by simp
    then obtain b where b: "blk_copy (get t r) (length w) (map Some [c]) = Inr b" "blk_holds b (w @ [c])"
      "bsize b = max_len"
      using blk_holds_append [OF Cons.prems(2), of "[c]"] Cons.prems(4) by auto
    have "run ((c # v) @ rest) ?st r
        = run (v @ rest) \<lparr>in_val = True, val_len = length (w @ [c]), param_ptr = Some t\<rparr> (put t b r)"
      using c 2 b(1) by (simp add: scan_step_def)
    then show ?thesis using Cons.IH [of "put t b r" "w @ [c]"] Cons.prems(1) 2 b
      by (simp add: get_put)
  next
    case 3
    then have "run ((c # v) @ rest) ?st r = run (v @ rest) ?st r"
      using c by (simp add: scan_step_def)
    then show ?thesis using Cons.IH [of r w] Cons.prems 3 by simp
  qed
qed

lemma end_value_holds:
  assumes "fields_hold max_len get r0 m" "blk_holds (get t r) w" "length w \<le> max_len - 1"
    and "bsize (get t r) = max_len" "\<forall>u. u \<noteq> t \<longrightarrow> get u r = get u r0"
    and "val_len st = length w" "param_ptr st = Some t"
  shows "\<exists>r'. end_value get put st r = Inr r' \<and> fields_hold max_len get r' (m(t \<mapsto> w))"
proof -
  have "length w + length [NUL] \<le> bsize (get t r)" using assms(3,4) max_pos by auto
  then obtain b where "blk_copy (get t r) (length w) (map Some [NUL]) = Inr b"
    "blk_holds b (w @ [NUL])" "bsize b = max_len"
    using blk_holds_append [OF assms(2), of "[NUL]"] assms(4) by auto
  moreover from this have "array_holds max_len b (Some w)" by (simp add: array_holds_def)
  ultimately show ?thesis using assms(1,5-7)
    by (simp add: end_value_def fields_hold_def get_put)
qed

lemma tag_run:
  "run (name t @ s) scan_start r = run s \<lparr>in_val = True, val_len = 0, param_ptr = Some t\<rparr> r"
proof -
  obtain c w where "name t = c # w" using name_pos [of t] by (cases "name t") auto
  then show ?thesis using tag_name [of t s] by (simp add: scan_step_def scan_start_def)
qed

lemma starts_with_longer:
  "s \<noteq> [] \<Longrightarrow> last s \<notin> set (butlast w) \<Longrightarrow> starts_with w (s @ x) \<Longrightarrow> starts_with w s"
proof (induction s arbitrary: w)
  case (Cons c s)
  then show ?case by (cases w; cases "s = []") (auto split: if_splits)
qed simp

lemma tag_at_longer:
  "s \<noteq> [] \<Longrightarrow> \<not> tag_letter ts (last s) \<Longrightarrow> tag_at ts s = None \<Longrightarrow> tag_at ts (s @ x) = None"
  using starts_with_longer
  by (induction ts s rule: tag_at.induct) (fastforce simp: tag_letter_def split: if_splits)+

lemma gap_run: "gap_ok tags g \<Longrightarrow> run (g @ s) scan_start r = run s scan_start r"
proof (induction g)
  case (Cons c g)
  have "tag_at tags ((c # g) @ s) = None"
    by (rule tag_at_longer) (use Cons.prems in \<open>auto simp: gap_ok_def\<close>)
  then have "run ((c # g) @ s) scan_start r = run (g @ s) scan_start r"
    by (simp add: scan_step_def scan_start_def)
  then show ?case using Cons by (auto simp: gap_ok_def split: if_splits)
qed simp

text \<open>A tag, its value and the semicolon; and a value at the end of the text.\<close>

lemma item_run:
  assumes "fields_hold max_len get r m" "gap_ok tags g" "CHR '';'' \<notin> set v"
  shows "\<exists>r'. run (g @ name t @ v @ '';'' @ rest) scan_start r = run rest scan_start r'
    \<and> fields_hold max_len get r' (m(t \<mapsto> clip_value max_len v))"
proof -
  have "bsize (get t r) = max_len" using assms(1) by (simp add: fields_hold_def array_holds_def)
  from value_run [OF assms(3) _ _ this, of "[]" "CHR '';'' # rest"]
  obtain r1 where r1: "run (v @ CHR '';'' # rest) \<lparr>in_val = True, val_len = 0, param_ptr = Some t\<rparr> r
      = run (CHR '';'' # rest) \<lparr>in_val = True, val_len = length (clip_value max_len v), param_ptr = Some t\<rparr> r1"
    "blk_holds (get t r1) (clip_value max_len v)" "bsize (get t r1) = max_len" "\<forall>u. u \<noteq> t \<longrightarrow> get u r1 = get u r"
    by (auto simp: clip_value_def)
  obtain r2 where r2: "end_value get put \<lparr>in_val = True, val_len = length (clip_value max_len v), param_ptr = Some t\<rparr> r1 = Inr r2"
    "fields_hold max_len get r2 (m(t \<mapsto> clip_value max_len v))"
    using end_value_holds [OF assms(1) r1(2) _ r1(3,4),
      of "\<lparr>in_val = True, val_len = length (clip_value max_len v), param_ptr = Some t\<rparr>"]
    by (auto simp: clip_value_def)
  then show ?thesis using r1(1) gap_run [OF assms(2)] tag_run [of t]
    by (intro exI [of _ r2]) (simp add: scan_step_def)
qed

lemma last_run:
  assumes "fields_hold max_len get r m" "gap_ok tags g" "CHR '';'' \<notin> set v"
  shows "\<exists>r'. rbind (run (g @ name t @ v) scan_start r) (\<lambda>(st, r). end_value get put st r) = Inr r'
    \<and> fields_hold max_len get r' (m(t \<mapsto> clip_value max_len v))"
proof -
  have "bsize (get t r) = max_len" using assms(1) by (simp add: fields_hold_def array_holds_def)
  from value_run [OF assms(3) _ _ this, of "[]" "[]"]
  obtain r1 where r1: "run v \<lparr>in_val = True, val_len = 0, param_ptr = Some t\<rparr> r
      = Inr (\<lparr>in_val = True, val_len = length (clip_value max_len v), param_ptr = Some t\<rparr>, r1)"
    "blk_holds (get t r1) (clip_value max_len v)" "bsize (get t r1) = max_len" "\<forall>u. u \<noteq> t \<longrightarrow> get u r1 = get u r"
    by (auto simp: clip_value_def)
  show ?thesis
    using end_value_holds [OF assms(1) r1(2) _ r1(3,4),
        of "\<lparr>in_val = True, val_len = length (clip_value max_len v), param_ptr = Some t\<rparr>"]
      r1(1) gap_run [OF assms(2), of "name t @ v" r] tag_run [of t v r]
    by (simp add: clip_value_def)
qed

lemma items_run:
  "fields_hold max_len get r m \<Longrightarrow> list_all (\<lambda>(g, t, v). gap_ok tags g \<and> CHR '';'' \<notin> set v \<and> no_nul v) items \<Longrightarrow>
     \<exists>r'. run (render_items name items @ rest) scan_start r = run rest scan_start r'
       \<and> fields_hold max_len get r' (item_values max_len m items)"
proof (induction items arbitrary: r m)
  case Nil
  then show ?case by auto
next
  case (Cons x items)
  obtain g t v where x: "x = (g, t, v)" by (cases x)
  obtain r1 where r1: "run (g @ name t @ v @ '';'' @ (render_items name items @ rest)) scan_start r
      = run (render_items name items @ rest) scan_start r1"
    "fields_hold max_len get r1 (m(t \<mapsto> clip_value max_len v))"
    using item_run [OF Cons.prems(1), of g v t] Cons.prems(2) x by auto
  have "list_all (\<lambda>(g, t, v). gap_ok tags g \<and> CHR '';'' \<notin> set v \<and> no_nul v) items"
    using Cons.prems(2) by simp
  from Cons.IH [OF r1(2) this] obtain r2 where
    "run (render_items name items @ rest) scan_start r1 = run rest scan_start r2"
    "fields_hold max_len get r2 (item_values max_len (m(t \<mapsto> clip_value max_len v)) items)" by blast
  then show ?case using r1(1) by (intro exI [of _ r2]) (simp add: x)
qed

lemma params_stored:
  assumes "items_ok tags items g e"
  shows "\<exists>r. scan_params tags get put max_len new (render_params name items g e) = Inr r
    \<and> fields_hold max_len get r (param_values max_len items e)"
proof -
  let ?m = "item_values max_len Map.empty items"
  note ok = assms [unfolded items_ok_def]
  let ?rest = "g @ (case e of None \<Rightarrow> [] | Some (t, v) \<Rightarrow> name t @ v)"
  obtain r1 where r1: "run (render_items name items @ ?rest) scan_start new = run ?rest scan_start r1"
    "fields_hold max_len get r1 ?m"
    using items_run [OF fields_hold_new, of items ?rest] ok by blast
  show ?thesis
  proof (cases e)
    case None
    then have "run ?rest scan_start r1 = Inr (scan_start, r1)"
      using gap_run [of g "[]" r1] ok by simp
    then show ?thesis using r1 None
      by (simp add: scan_params_def render_params_def param_values_def end_value_def scan_start_def)
  next
    case (Some p)
    then obtain t v where p: "e = Some (t, v)" by (cases p) simp
    then show ?thesis using last_run [OF r1(2), of g v t] ok r1(1)
      by (auto simp: scan_params_def render_params_def param_values_def)
  qed
qed

lemma clip_no_nul: "no_nul v \<Longrightarrow> no_nul (clip_value n v)"
proof -
  assume "no_nul v"
  then have "NUL \<notin> set (filter (\<lambda>c. \<not> wsp c) v)" by (simp add: no_nul_iff)
  then show ?thesis unfolding clip_value_def no_nul_iff by (metis in_set_takeD)
qed

lemma item_values_no_nul:
  "list_all (\<lambda>(g, t, v). gap_ok tags g \<and> CHR '';'' \<notin> set v \<and> no_nul v) items \<Longrightarrow>
     (\<And>t v. m t = Some v \<Longrightarrow> no_nul v) \<Longrightarrow> item_values n m items t = Some v \<Longrightarrow> no_nul v"
proof (induction items arbitrary: m)
  case (Cons x items)
  obtain g u w where x: "x = (g, u, w)" by (cases x)
  have "no_nul (clip_value n w)" using Cons.prems(1) by (simp add: x clip_no_nul)
  then have "no_nul v'" if "(m(u \<mapsto> clip_value n w)) t' = Some v'" for t' v'
    using Cons.prems(2) that by (auto split: if_splits)
  moreover have "list_all (\<lambda>(g, t, v). gap_ok tags g \<and> CHR '';'' \<notin> set v \<and> no_nul v) items"
    "item_values n (m(u \<mapsto> clip_value n w)) items t = Some v"
    using Cons.prems x by (simp_all del: fun_upd_apply)
  ultimately show ?case using Cons.IH [of "m(u \<mapsto> clip_value n w)"] by blast
qed simp

text \<open>Each array then reads as the value of its tag, and cannot be read without one.\<close>

lemma params_read:
  assumes "items_ok tags items g e"
  shows "\<exists>r. scan_params tags get put max_len new (render_params name items g e) = Inr r
    \<and> (\<forall>t. blk_cstr (get t r) = read_field (param_values max_len items e t))
    \<and> (\<forall>t v. param_values max_len items e t = Some v \<longrightarrow> length v < bsize (get t r))"
proof -
  obtain r where r: "scan_params tags get put max_len new (render_params name items g e) = Inr r"
    "fields_hold max_len get r (param_values max_len items e)"
    using params_stored [OF assms] by blast
  have "no_nul v" if "param_values max_len items e t = Some v" for t v
    using that assms item_values_no_nul [of items Map.empty max_len t v]
    by (auto simp: param_values_def items_ok_def clip_no_nul split: option.splits if_splits)
  then have "blk_cstr (get t r) = read_field (param_values max_len items e t)" for t
    using r(2) blk_cstr_holds [of "get t r"] max_pos
    by (fastforce simp: fields_hold_def array_holds_def read_field_def blk_cstr_def split: option.splits)
  moreover have "length v < bsize (get t r)" if "param_values max_len items e t = Some v" for t v
    using spec [OF r(2) [unfolded fields_hold_def], of t] that by (simp add: array_holds_def blk_holds_def)
  ultimately show ?thesis using r(1) by blast
qed

end

section \<open>The two records\<close>

fun header_name :: "header_tag \<Rightarrow> string" where
  "header_name Tag_v = ''v=''" | "header_name Tag_a = ''a=''" | "header_name Tag_c = ''c=''"
| "header_name Tag_d = ''d=''" | "header_name Tag_s = ''s=''" | "header_name Tag_bh = ''bh=''"
| "header_name Tag_b = ''b=''" | "header_name Tag_h = ''h=''"

fun record_name :: "record_tag \<Rightarrow> string" where
  "record_name Tag_k = ''k=''" | "record_name Tag_p = ''p=''"

interpretation header_store: field_store header_tags dh_get dh_put DKIM_VALUE_MAX_LEN
  new_dkim_header header_name
proof unfold_locales
  fix t u and b and r
  show "dh_get t (dh_put u b r) = (if t = u then b else dh_get t r)" by (cases t; cases u) simp_all
next
  fix t
  show "dh_get t new_dkim_header = malloc DKIM_VALUE_MAX_LEN"
    by (cases t) (simp_all add: new_dkim_header_def Let_def)
next
  fix t s
  show "tag_at header_tags (header_name t @ s) = Some (header_name t, t)"
    by (cases t) (simp_all add: header_tags_def)
next
  fix t
  show "header_name t \<noteq> []" by (cases t) simp_all
qed (simp_all add: DKIM_VALUE_MAX_LEN_def header_tags_def)

interpretation record_store: field_store record_tags dr_get dr_put DKIM_RECORD_MAX_LEN
  new_dkim_record record_name
proof unfold_locales
  fix t u and b and r
  show "dr_get t (dr_put u b r) = (if t = u then b else dr_get t r)" by (cases t; cases u) simp_all
next
  fix t
  show "dr_get t new_dkim_record = malloc DKIM_RECORD_MAX_LEN"
    by (cases t) (simp_all add: new_dkim_record_def Let_def)
next
  fix t s
  show "tag_at record_tags (record_name t @ s) = Some (record_name t, t)"
    by (cases t) (simp_all add: record_tags_def)
next
  fix t
  show "record_name t \<noteq> []" by (cases t) simp_all
qed (simp_all add: DKIM_RECORD_MAX_LEN_def record_tags_def)

text \<open>
  C26. From a DKIM-Signature header written as a list of tags, with anything between them that is
  not itself a tag, the parser stores for each tag its last value, without white space and cut
  at 1023 characters; the array of a tag that is not there stays unwritten, and reading it reads
  uninitialised memory.
\<close>

theorem dkim_parse_header_fields:
  assumes "items_ok header_tags items g e"
  shows "\<exists>dh. dkim_parse_header (render_params header_name items g e) = Inr dh
    \<and> (\<forall>t. blk_cstr (dh_get t dh) = read_field (param_values DKIM_VALUE_MAX_LEN items e t))"
  using header_store.params_read [OF assms] unfolding dkim_parse_header_def by blast

theorem dkim_parse_header_fields_witness:
  "\<exists>dh. dkim_parse_header (render_params header_name
       [([], Tag_v, ''1''), ('' '', Tag_a, ''rsa-sha256''), ('' t=117;'', Tag_h, ''from : to'')] '' '' (Some (Tag_b, ''xyz''))) = Inr dh
    \<and> (\<forall>t. blk_cstr (dh_get t dh) = read_field (param_values DKIM_VALUE_MAX_LEN
       [([], Tag_v, ''1''), ('' '', Tag_a, ''rsa-sha256''), ('' t=117;'', Tag_h, ''from : to'')] (Some (Tag_b, ''xyz'')) t))"
  by (rule dkim_parse_header_fields)
     (simp add: items_ok_def gap_ok_def header_tags_def tag_letter_def no_nul_def)

text \<open>The same of the key record, with the tags \<open>k\<close> and \<open>p\<close> and 2045 characters.\<close>

theorem dkim_parse_dns_fields:
  assumes "items_ok record_tags items g e"
  shows "\<exists>dr. dkim_parse_dns (render_params record_name items g e) = Inr dr
    \<and> (\<forall>t. blk_cstr (dr_get t dr) = read_field (param_values DKIM_RECORD_MAX_LEN items e t))"
  using record_store.params_read [OF assms] unfolding dkim_parse_dns_def by blast

theorem dkim_parse_dns_fields_witness:
  "\<exists>dr. dkim_parse_dns (render_params record_name [(''v=DKIM1; '', Tag_k, ''rsa'')] '' '' (Some (Tag_p, ''MIGf MA0''))) = Inr dr
    \<and> (\<forall>t. blk_cstr (dr_get t dr) = read_field (param_values DKIM_RECORD_MAX_LEN [(''v=DKIM1; '', Tag_k, ''rsa'')] (Some (Tag_p, ''MIGf MA0'')) t))"
  by (rule dkim_parse_dns_fields)
     (simp add: items_ok_def gap_ok_def record_tags_def tag_letter_def no_nul_def)

end
