(* ===== verification/Base64_Ssl.thy ===== *)
theory Base64_Ssl
  imports Base64_Decode Dkim_Canon
begin

text \<open>
  \<^verbatim>\<open>src/firm-dkim-extended/base64.c\<close> and \<^verbatim>\<open>src/mailhandler/base64.c\<close> (the same text): base64
  with OpenSSL. The BIO chain is a parameter, the record \<open>ssl_bio\<close>: what a memory BIO holds after
  writing through the base64 filter, and what reading through the filter returns and stores.
  The code around it is modelled: \<open>base64_wrap\<close>, which cuts the text into lines short enough for
  the filter, and the loop that takes the line breaks out of encoded text.
\<close>

record ssl_bio =
  bio_write_b64 :: "string \<Rightarrow> string"
  bio_read_b64 :: "string \<Rightarrow> int \<times> string"

section \<open>Cutting a text into lines\<close>

fun base64_wrap_loop :: "string \<Rightarrow> nat \<Rightarrow> block \<Rightarrow> nat \<Rightarrow> (block \<times> nat) res" where
  "base64_wrap_loop [] lcount tmp n = Inr (tmp, n)"
| "base64_wrap_loop (c # s) lcount tmp n =
     (if c = CHR '' '' \<or> lcount = 75 then
        rbind (blk_set tmp n c) (\<lambda>tmp.
        rbind (blk_set tmp (n + 1) CR) (\<lambda>tmp.
        rbind (blk_set tmp (n + 2) LF) (\<lambda>tmp.
        base64_wrap_loop s 0 tmp (n + 3))))
      else rbind (blk_set tmp n c) (\<lambda>tmp. base64_wrap_loop s (lcount + 1) tmp (n + 1)))"

definition base64_wrap :: "string \<Rightarrow> string res" where
  "base64_wrap s =
     rbind (base64_wrap_loop s 0 (malloc (length s * 3 + 1)) 0) (\<lambda>(tmp, n).
     rbind (blk_set tmp n NUL) blk_cstr)"

fun lines76 :: "nat \<Rightarrow> string \<Rightarrow> string" where
  "lines76 l [] = []"
| "lines76 l (c # s) =
     (if c = CHR '' '' \<or> l = 75 then [c, CR, LF] @ lines76 0 s else c # lines76 (l + 1) s)"

section \<open>Taking line breaks out, in place\<close>

function unbreak_loop :: "string \<Rightarrow> nat \<Rightarrow> nat \<Rightarrow> nat \<Rightarrow> (string \<times> nat) res" where
  "unbreak_loop xs n i cur =
     (if i < n then
        rbind (arr_get xs i) (\<lambda>c.
        if c \<noteq> CR \<and> c \<noteq> LF
        then rbind (arr_set xs cur c) (\<lambda>xs. unbreak_loop xs n (Suc i) (Suc cur))
        else unbreak_loop xs n (Suc i) cur)
      else Inr (xs, cur))"
  by pat_completeness auto
termination by (relation "measure (\<lambda>(xs, n, i, cur). n - i)") auto

declare unbreak_loop.simps [simp del]

definition unbreak_str :: "string \<Rightarrow> string res" where
  "unbreak_str s =
     rbind (unbreak_loop (s @ [NUL]) (length s) 0 0) (\<lambda>(xs, k).
     rbind (arr_set xs k NUL) (\<lambda>xs. Inr (cstr xs)))"

section \<open>Encoding and decoding\<close>

definition base64_encode_ssl :: "ssl_bio \<Rightarrow> string \<Rightarrow> string res" where
  "base64_encode_ssl bio input =
     (let data = bio_write_b64 bio input in
      if data = [] then Inl Out_Of_Bounds
      else unbreak_str (cstr (butlast data)))"

definition base64_decode_ssl :: "ssl_bio \<Rightarrow> string \<Rightarrow> (int \<times> block) res" where
  "base64_decode_ssl bio input =
     rbind (base64_wrap input) (\<lambda>wrapped.
     let n = length wrapped; (len, bytes) = bio_read_b64 bio wrapped in
     rbind (blk_copy \<lparr>bsize = n, cells = replicate n (Some NUL)\<rparr> 0 (map Some bytes)) (\<lambda>buffer.
       Inr (len, buffer)))"

section \<open>Correctness\<close>

definition no_break :: "char \<Rightarrow> bool" where
  "no_break c \<longleftrightarrow> c \<noteq> CR \<and> c \<noteq> LF"

lemma blk_put3:
  assumes "blk_exact b s" "length s + 3 \<le> bsize b"
  shows "\<exists>b'. rbind (blk_set b (length s) c) (\<lambda>b. rbind (blk_set b (length s + 1) d) (\<lambda>b.
             rbind (blk_set b (length s + 2) e) k)) = k b'
          \<and> blk_exact b' (s @ [c, d, e]) \<and> bsize b' = bsize b"
  using assms(2) blk_put [OF assms(1) refl, of c] blk_put [of _ "s @ [c]" "length s + 1" d]
    blk_put [of _ "s @ [c, d]" "length s + 2" e]
  by (fastforce split: if_splits)

lemma base64_wrap_loop_correct:
  assumes "blk_exact b t" "length t + 3 * length s \<le> bsize b"
  shows "\<exists>b'. base64_wrap_loop s l b (length t) = Inr (b', length (t @ lines76 l s))
    \<and> blk_exact b' (t @ lines76 l s) \<and> bsize b' = bsize b"
  using assms
proof (induction s arbitrary: l b t)
  case Nil
  then show ?case by simp
next
  case (Cons c s)
  show ?case
  proof (cases "c = CHR '' '' \<or> l = 75")
    case True
    then obtain b' where b': "base64_wrap_loop (c # s) l b (length t)
        = base64_wrap_loop s 0 b' (length t + 3)"
      "blk_exact b' (t @ [c, CR, LF])" "bsize b' = bsize b"
      using blk_put3 [OF Cons.prems(1), of c CR LF "\<lambda>b. base64_wrap_loop s 0 b (length t + 3)"]
        Cons.prems(2) by auto
    have len: "length (t @ [c, CR, LF]) = length t + 3" by simp
    have out: "t @ lines76 l (c # s) = (t @ [c, CR, LF]) @ lines76 0 s" using True by simp
    have "length (t @ [c, CR, LF]) + 3 * length s \<le> bsize b'" using Cons.prems(2) b'(3) by simp
    from Cons.IH [OF b'(2) this, of 0] show ?thesis unfolding out b'(1) b'(3) len .
  next
    case False
    then obtain b' where "base64_wrap_loop (c # s) l b (length t)
        = base64_wrap_loop s (l + 1) b' (length (t @ [c]))"
      "blk_exact b' (t @ [c])" "bsize b' = bsize b"
      using blk_put [OF Cons.prems(1) refl, of c] Cons.prems(2) by auto
    then show ?thesis using Cons.IH [of b' "t @ [c]" "l + 1"] Cons.prems(2) False by auto
  qed
qed

lemma lines76_length: "length (lines76 l s) \<le> 3 * length s"
  by (induction s arbitrary: l) (auto intro: le_SucI, (meson le_SucI le_trans)?)

lemma lines76_no_nul: "no_nul s \<Longrightarrow> no_nul (lines76 l s)"
  by (induction s arbitrary: l) auto

lemma base64_wrap_eq: "no_nul s \<Longrightarrow> base64_wrap s = Inr (lines76 0 s)"
proof -
  assume s: "no_nul s"
  let ?n = "length s * 3 + 1"
  obtain b where b: "base64_wrap_loop s 0 (malloc ?n) 0 = Inr (b, length (lines76 0 s))"
    "blk_exact b (lines76 0 s)" "bsize b = ?n"
    using base64_wrap_loop_correct [of "malloc ?n" "[]" s 0] by auto
  have "length (lines76 0 s) < bsize b" using lines76_length [of 0 s] b(3) by simp
  then obtain b' where b': "blk_set b (length (lines76 0 s)) NUL = Inr b'"
    "blk_exact b' (lines76 0 s @ [NUL])"
    using blk_put [OF b(2) refl, of NUL] by auto
  have "blk_cstr b' = Inr (lines76 0 s)"
    by (rule blk_cstr_holds [OF blk_exact_holds [OF b'(2)] lines76_no_nul [OF s]])
  then show ?thesis using b(1) b'(1) by (simp add: base64_wrap_def)
qed

lemma lines76_filter: "filter no_break (lines76 l s) = filter no_break s"
  by (induction s arbitrary: l) (auto simp: no_break_def)

text \<open>The lengths of the lines, the CR before the LF counted.\<close>

definition line_lengths :: "string \<Rightarrow> nat list" where
  "line_lengths s = (case cut_lines [] s of (ls, r) \<Rightarrow> map length ls @ [length r])"

lemma cut_lines76:
  "list_all no_break s \<Longrightarrow> length cur = l \<Longrightarrow> l \<le> 75 \<Longrightarrow> cut_lines cur (lines76 l s) = (ls, r) \<Longrightarrow>
     (\<forall>x \<in> set ls. length x \<le> 77) \<and> length r \<le> 77"
proof (induction s arbitrary: cur l ls r)
  case Nil
  then show ?case by auto
next
  case (Cons c s)
  have c: "c \<noteq> LF" using Cons.prems(1) by (simp add: no_break_def)
  show ?case
  proof (cases "c = CHR '' '' \<or> l = 75")
    case True
    obtain ls' where "cut_lines [] (lines76 0 s) = (ls', r)" "ls = (cur @ [c, CR]) # ls'"
      using Cons.prems(4) True c by (auto split: prod.splits)
    then show ?thesis using Cons.IH [of "[]" 0 ls' r] Cons.prems by auto
  next
    case False
    then show ?thesis using Cons.IH [of "cur @ [c]" "l + 1" ls r] Cons.prems c by simp
  qed
qed

text \<open>
  Wrapping a base64 text never leaves its buffer, changes nothing but line breaks and gives
  lines of at most 77 bytes, which the base64 filter of OpenSSL accepts.
\<close>

theorem base64_wrap_correct:
  assumes "no_nul s" "list_all no_break s"
  shows "\<exists>w. base64_wrap s = Inr w \<and> filter no_break w = s \<and> list_all (\<lambda>n. n \<le> 77) (line_lengths w)"
proof -
  obtain ls r where lr: "cut_lines [] (lines76 0 s) = (ls, r)" by (cases "cut_lines [] (lines76 0 s)")
  have "filter no_break s = s" using assms(2) by (simp add: list_all_iff)
  then show ?thesis using base64_wrap_eq [OF assms(1)] cut_lines76 [OF assms(2) _ _ lr] lr
    by (auto simp: lines76_filter line_lengths_def list_all_iff)
qed

theorem base64_wrap_correct_witness:
  "\<exists>w. base64_wrap (replicate 100 (CHR ''A'')) = Inr w \<and> filter no_break w = replicate 100 (CHR ''A'')
    \<and> list_all (\<lambda>n. n \<le> 77) (line_lengths w)"
  by (rule base64_wrap_correct) (simp_all add: no_nul_iff no_break_def list_all_iff)

text \<open>The loop that takes the line breaks out.\<close>

lemma unbreak_loop_correct:
  assumes "cur \<le> i" "i \<le> n" "n < length xs"
  shows "\<exists>xs'. unbreak_loop xs n i cur = Inr (xs', cur + length (filter no_break (drop i (take n xs))))
     \<and> length xs' = length xs
     \<and> take (cur + length (filter no_break (drop i (take n xs)))) xs'
         = take cur xs @ filter no_break (drop i (take n xs))"
  using assms
proof (induction "n - i" arbitrary: xs i cur)
  case 0
  then show ?case by (simp add: unbreak_loop.simps)
next
  case (Suc d)
  have i: "i < n" "i < length xs" "cur < length xs" "d = n - Suc i" using Suc.hyps(2) Suc.prems by auto
  have rest: "drop i (take n xs) = xs ! i # drop (Suc i) (take n xs)"
    using i by (simp add: Cons_nth_drop_Suc [symmetric])
  show ?case
  proof (cases "no_break (xs ! i)")
    case True
    let ?ys = "xs[cur := xs ! i]"
    have step: "unbreak_loop xs n i cur = unbreak_loop ?ys n (Suc i) (Suc cur)"
      using i True by (subst unbreak_loop.simps) (simp add: no_break_def)
    have tail: "drop (Suc i) (take n ?ys) = drop (Suc i) (take n xs)"
      using Suc.prems(1) by (simp add: take_update_swap)
    have "take (Suc cur) ?ys = take cur xs @ [xs ! i]"
      using i by (simp add: take_Suc_conv_app_nth take_update_cancel)
    then show ?thesis using Suc.hyps(1) [OF i(4), of "Suc cur" ?ys] Suc.prems i
      by (auto simp: step rest tail True)
  next
    case False
    have step: "unbreak_loop xs n i cur = unbreak_loop xs n (Suc i) cur"
      using i False by (subst unbreak_loop.simps) (auto simp: no_break_def)
    then show ?thesis using Suc.hyps(1) [OF i(4), of cur xs] Suc.prems i
      by (auto simp: rest False)
  qed
qed

lemma unbreak_str_eq: "no_nul s \<Longrightarrow> unbreak_str s = Inr (filter no_break s)"
proof -
  assume s: "no_nul s"
  obtain xs where xs: "unbreak_loop (s @ [NUL]) (length s) 0 0 = Inr (xs, length (filter no_break s))"
    "length xs = length s + 1" "take (length (filter no_break s)) xs = filter no_break s"
    using unbreak_loop_correct [of 0 0 "length s" "s @ [NUL]"] by auto
  moreover have "no_nul (filter no_break s)" using s by (simp add: no_nul_iff)
  moreover have "length (filter no_break s) < length xs"
    using xs(2) length_filter_le [of no_break s] by (simp add: less_Suc_eq_le)
  ultimately show ?thesis using cut_array [of "length (filter no_break s)" xs]
    by (simp add: unbreak_str_def)
qed

lemma encode_clean: "list_all (\<lambda>c. c \<noteq> NUL \<and> no_break c) (encode s)"
proof (induction s rule: encode.induct)
  case (4 x y z r)
  then show ?case by (simp add: Let_def no_break_def enc_chars sextet_less)
qed (simp_all add: Let_def no_break_def enc_chars sextet_less)

lemma blk_copy_zeros:
  "length x \<le> n \<Longrightarrow>
     \<exists>b. blk_copy \<lparr>bsize = n, cells = replicate n (Some NUL)\<rparr> 0 (map Some x) = Inr b \<and> blk_holds b x"
  by (simp add: blk_copy_def blk_holds_def)

text \<open>Encoded text has neither white space nor a terminator, and four characters for each three bytes.\<close>

lemma encode_no_space: "CHR '' '' \<notin> set (encode s)"
proof -
  have "enc n \<noteq> CHR '' ''" if "n < 64" for n
    using enc_isbase64 [OF that] by (auto simp: isbase64_def base64_table_def)
  then have "list_all (\<lambda>c. c \<noteq> CHR '' '') (encode s)"
    by (induction s rule: encode.induct) (simp_all add: Let_def sextet_less)
  then show ?thesis by (auto simp: list_all_iff)
qed

lemma encode_size: "length (encode s) = 4 * ((length s + 2) div 3)"
proof (induction s rule: encode.induct)
  case (4 x y z r)
  have "(length (x # y # z # r) + 2) div 3 = Suc ((length r + 2) div 3)" by simp
  then show ?case using "4.IH" [OF refl refl refl] by (simp add: Let_def)
qed (simp_all add: Let_def)

lemma lines76_short: "CHR '' '' \<notin> set s \<Longrightarrow> length s + l \<le> 75 \<Longrightarrow> lines76 l s = s"
  by (induction s arbitrary: l) auto

lemma lines76_breaks: "l \<le> 75 \<Longrightarrow> 76 \<le> length s + l \<Longrightarrow> LF \<in> set (take (78 - l) (lines76 l s))"
proof (induction s arbitrary: l)
  case (Cons c s)
  show ?case
  proof (cases "c = CHR '' '' \<or> l = 75")
    case True
    have "78 - l = Suc (Suc (Suc (75 - l)))" using Cons.prems(1) by simp
    then show ?thesis using True by simp
  next
    case False
    then have "78 - l = Suc (78 - (l + 1))" using Cons.prems(1) by simp
    then show ?thesis using Cons.IH [of "l + 1"] Cons.prems False by simp
  qed
qed simp

text \<open>
  What the documentation of the base64 filter says: it writes the standard text in lines, the last
  one ended; it reads standard text in lines of any length, the end of the last one not needed, if
  the first line ends within 1024 bytes. (A text in one line without an end is only read with the
  flag \<open>BIO_FLAGS_BASE64_NO_NL\<close>, which the code does not set.)
\<close>

definition documented_bio :: "ssl_bio \<Rightarrow> bool" where
  "documented_bio bio \<longleftrightarrow>
     (\<forall>x. x \<noteq> [] \<longrightarrow> bio_write_b64 bio x \<noteq> [] \<and> last (bio_write_b64 bio x) = LF
        \<and> filter no_break (bio_write_b64 bio x) = encode x)
     \<and> (\<forall>x w. x \<noteq> [] \<longrightarrow> filter no_break w = encode x \<longrightarrow> LF \<in> set (take 1024 w) \<longrightarrow>
        bio_read_b64 bio w = (int (length x), x))"

text \<open>
  C27. Encoding and decoding with OpenSSL, for a base64 filter that does what its documentation
  says. \<open>base64_encode\<close> gives the standard text in one line. \<open>base64_decode\<close> gives the length and the
  bytes back where there are at least 55 of them: its line breaks then come soon enough for the filter. A
  shorter text it hands to the filter in one line without an end, as it is.
\<close>

theorem base64_ssl_roundtrip:
  assumes bio: "documented_bio bio" and x: "x \<noteq> []"
  shows "base64_encode_ssl bio x = Inr (encode x)
    \<and> (55 \<le> length x \<longrightarrow> (\<exists>b. base64_decode_ssl bio (encode x) = Inr (int (length x), b) \<and> blk_holds b x))
    \<and> (length x < 55 \<longrightarrow> base64_wrap (encode x) = Inr (encode x) \<and> LF \<notin> set (encode x))"
proof (intro conjI impI)
  let ?data = "bio_write_b64 bio x" and ?w = "lines76 0 (encode x)"
  obtain d where d: "?data = d @ [LF]" using bio x by (cases ?data rule: rev_cases) (auto simp: documented_bio_def)
  have "filter no_break (d @ [LF]) = encode x" using bio x unfolding documented_bio_def d [symmetric] by blast
  then have filt: "filter no_break d = encode x" by (simp add: no_break_def)
  have clean: "no_nul (encode x)" "list_all no_break (encode x)"
    using encode_clean [of x] by (auto simp: no_nul_iff list_all_iff)
  have "no_nul d"
  proof -
    have "NUL \<in> set (filter no_break d)" if "NUL \<in> set d" using that by (simp add: no_break_def)
    then show ?thesis using clean(1) filt by (auto simp: no_nul_iff)
  qed
  then show "base64_encode_ssl bio x = Inr (encode x)"
    using d filt by (simp add: base64_encode_ssl_def Let_def cstr_no_nul unbreak_str_eq)
  show "LF \<notin> set (encode x)" using clean(2) by (auto simp: list_all_iff no_break_def)
  { assume "length x < 55"
    then have "lines76 0 (encode x) = encode x"
      by (intro lines76_short encode_no_space) (simp add: encode_size)
    then show "base64_wrap (encode x) = Inr (encode x)" using base64_wrap_eq [OF clean(1)] by simp }
  { assume "55 \<le> length x"
    then have "LF \<in> set (take 78 ?w)" using lines76_breaks [of 0 "encode x"] by (simp add: encode_size)
    then have "LF \<in> set (take 1024 ?w)" using set_take_subset_set_take [of 78 1024 ?w] by auto
    moreover have w: "filter no_break ?w = encode x"
      using clean(2) by (simp add: lines76_filter list_all_iff)
    ultimately have "bio_read_b64 bio ?w = (int (length x), x)" using bio x by (simp add: documented_bio_def)
    moreover have "length x \<le> length ?w"
      using encode_length [of x] length_filter_le [of no_break ?w] w by simp
    ultimately show "\<exists>b. base64_decode_ssl bio (encode x) = Inr (int (length x), b) \<and> blk_holds b x"
      using blk_copy_zeros [of x "length ?w"]
      by (auto simp: base64_decode_ssl_def base64_wrap_eq [OF clean(1)] Let_def) }
qed

text \<open>A filter as documented: it reads nothing where no line ends in time.\<close>

fun decode :: "string \<Rightarrow> string" where
  "decode (a # b # c # d # s) =
     (let g = group_bytes (base64_value a) (base64_value b) (base64_value c) (base64_value d) in
      if c = CHR ''='' then take 1 g else if d = CHR ''='' then take 2 g else g @ decode s)"
| "decode _ = []"

lemma decode_encode: "decode (encode s) = s"
proof -
  have pad: "enc n \<noteq> CHR ''=''" if "n < 64" for n
    using enc_isbase64 [OF that] pad_value(2) by auto
  show ?thesis
  proof (induction s rule: encode.induct)
    case (2 x)
    then show ?case using group_decodes [of x NUL NUL]
      by (simp add: Let_def enc_value sextet_less group_bytes_def)
  next
    case (3 x y)
    then show ?case using group_decodes [of x y NUL]
      by (simp add: Let_def enc_value sextet_less pad group_bytes_def)
  next
    case (4 x y z r)
    then show ?case using group_decodes [of x y z]
      by (simp add: Let_def enc_value sextet_less pad)
  qed simp
qed

fun lines64 :: "nat \<Rightarrow> string \<Rightarrow> string" where
  "lines64 n [] = [LF]"
| "lines64 n (c # s) = (if n = 64 then LF # c # lines64 1 s else c # lines64 (n + 1) s)"

definition line_bio :: ssl_bio where
  "line_bio = \<lparr>bio_write_b64 = \<lambda>x. lines64 0 (encode x),
     bio_read_b64 = \<lambda>w. if LF \<in> set (take 1024 w)
       then (int (length (decode (filter no_break w))), decode (filter no_break w)) else (0, [])\<rparr>"

lemma lines64_written: "list_all no_break s \<Longrightarrow> filter no_break (lines64 n s) = s \<and> lines64 n s \<noteq> [] \<and> last (lines64 n s) = LF"
  by (induction n s rule: lines64.induct) (auto simp: no_break_def)

lemma line_bio_documented: "documented_bio line_bio"
proof -
  have "list_all no_break (encode x)" for x using encode_clean [of x] by (auto simp: list_all_iff)
  then show ?thesis using lines64_written by (simp add: documented_bio_def line_bio_def decode_encode)
qed

theorem base64_ssl_roundtrip_witness:
  "\<exists>b. base64_decode_ssl line_bio (encode (replicate 60 (CHR ''r''))) = Inr (60, b) \<and> blk_holds b (replicate 60 (CHR ''r''))"
  using base64_ssl_roundtrip [OF line_bio_documented, of "replicate 60 (CHR ''r'')"] by simp

end
