(* ===== verification/Dkim_Validate.thy ===== *)
theory Dkim_Validate
  imports Dkim_Parse Base64_Ssl
begin

text \<open>
  \<^verbatim>\<open>src/firm-dkim-extended/firm-dkim.c\<close>: validating a DKIM signature (\<open>dkim_validate\<close>) and
  creating one (\<open>dkim_create\<close>). What OpenSSL computes is a parameter, the record \<open>crypto\<close>: the
  digests, reading a key in PEM format, checking and making an RSA signature, the base64 filter,
  and whether a memory BIO can be made; \<open>time\<close> gives the time stamp of a new signature. What the
  functions print is not modelled.
\<close>

record ('pk, 'sk) crypto =
  sha256 :: "string \<Rightarrow> string"
  sha1 :: "string \<Rightarrow> string"
  bio_ok :: bool
  pem_public :: "string \<Rightarrow> 'pk option"
  pem_private :: "string \<Rightarrow> 'sk option"
  rsa_verify :: "'pk \<Rightarrow> string \<Rightarrow> string \<Rightarrow> int"
  rsa_sign :: "'sk \<Rightarrow> string \<Rightarrow> string option"
  b64 :: ssl_bio

section \<open>Keys, algorithm and body hash\<close>

definition rsa_read_private_pem :: "('pk, 'sk) crypto \<Rightarrow> string \<Rightarrow> 'sk option \<times> int" where
  "rsa_read_private_pem cr buff =
     (if \<not> bio_ok cr then (None, -1)
      else case pem_private cr buff of None \<Rightarrow> (None, -1) | Some k \<Rightarrow> (Some k, 0))"

definition rsa_read_public_pem :: "('pk, 'sk) crypto \<Rightarrow> string \<Rightarrow> 'pk option \<times> int" where
  "rsa_read_public_pem cr buff =
     (if \<not> bio_ok cr then (None, -1)
      else case pem_public cr buff of None \<Rightarrow> (None, -1) | Some k \<Rightarrow> (Some k, 0))"

text \<open>
  The fields of the header are arrays, so that the tests of their addresses against NULL are
  never true; they are left out.
\<close>

definition dkim_check_compability :: "dkim_header \<Rightarrow> int res" where
  "dkim_check_compability dh =
     rbind (strncmp_lit (dh_a dh) 0 ''rsa-sha256'') (\<lambda>alg.
     if \<not> alg then Inr 1
     else rbind (strncmp_lit (dh_c dh) 0 ''relaxed/relaxed'') (\<lambda>can.
       Inr (if can then 0 else 1)))"

definition dkim_validate_body_hash :: "('pk, 'sk) crypto \<Rightarrow> dkim_header \<Rightarrow> string \<Rightarrow> int res" where
  "dkim_validate_body_hash cr dh body =
     rbind (relaxed_body_canon body) (\<lambda>new_body.
     rbind (base64_encode_ssl (b64 cr) (sha256 cr new_body)) (\<lambda>bh.
     rbind (strncmp_lit (dh_bh dh) 0 bh) (\<lambda>same. Inr (if same then 0 else 1))))"

section \<open>The headers under the signature\<close>

text \<open>\<open>inc_headers\<close> has room for 50 pointers.\<close>

definition inc_put :: "stringpair list \<Rightarrow> stringpair \<Rightarrow> stringpair list res" where
  "inc_put inc h = (if length inc < 50 then Inr (inc @ [h]) else Inl Out_Of_Bounds)"

fun inc_matching :: "string \<Rightarrow> stringpair list \<Rightarrow> stringpair list \<Rightarrow> stringpair list res" where
  "inc_matching header [] inc = Inr inc"
| "inc_matching header (h # hs) inc =
     (if starts_with header (str_to_lower (sp_key h))
      then rbind (inc_put inc h) (inc_matching header hs)
      else inc_matching header hs inc)"

function inc_loop ::
  "string \<Rightarrow> stringpair list \<Rightarrow> nat \<Rightarrow> nat \<Rightarrow> stringpair list \<Rightarrow> stringpair list res" where
  "inc_loop hs headers i offset inc =
     (if i < length hs then
        if hs ! i = CHR '':'' \<or> i = length hs - 1 then
          let head_len = i - offset + (if i = length hs - 1 then 1 else 0) in
          rbind (inc_matching (take head_len (drop offset hs)) headers inc)
            (inc_loop hs headers (Suc i) (Suc i))
        else inc_loop hs headers (Suc i) offset inc
      else Inr inc)"
  by pat_completeness auto
termination by (relation "measure (\<lambda>(hs, headers, i, offset, inc). length hs - i)") auto

declare inc_loop.simps [simp del]

text \<open>One string of all headers; behind a line break goes a terminator that is overwritten.\<close>

fun put_headers :: "stringpair list \<Rightarrow> block \<Rightarrow> nat \<Rightarrow> (block \<times> nat) res" where
  "put_headers [] b n = Inr (b, n)"
| "put_headers (h # hs) b n =
     rbind (blk_copy b n (map Some (sp_key h))) (\<lambda>b.
     let n = n + length (sp_key h) in
     rbind (blk_copy b n (map Some '':'')) (\<lambda>b.
     let n = n + 1 in
     rbind (blk_copy b n (map Some (sp_value h))) (\<lambda>b.
     let n = n + length (sp_value h) in
     if hs \<noteq> [] then
       rbind (blk_copy b n (map Some (CRLF @ [NUL]))) (\<lambda>b. put_headers hs b (n + 2))
     else Inr (b, n))))"

text \<open>The bytes that are hashed, all of them written.\<close>

fun all_written :: "char option list \<Rightarrow> string res" where
  "all_written [] = Inr []"
| "all_written (None # xs) = Inl Uninit_Read"
| "all_written (Some c # xs) = rbind (all_written xs) (\<lambda>s. Inr (c # s))"

definition blk_bytes :: "block \<Rightarrow> nat \<Rightarrow> string res" where
  "blk_bytes b n = rbind (blk_slice b 0 n) all_written"

text \<open>Cutting off the old signature: backwards from \<open>i\<close> to the last \<open>b=\<close>.\<close>

fun cut_signature :: "block \<Rightarrow> nat \<Rightarrow> nat \<Rightarrow> (block \<times> nat) res" where
  "cut_signature b 0 n = Inr (b, n)"
| "cut_signature b (Suc i) n =
     (if Suc i > 1 then
        rbind (blk_get b (Suc i)) (\<lambda>c.
        rbind (if c = CHR ''='' then rbind (blk_get b i) (\<lambda>d. Inr (d = CHR ''b'')) else Inr False)
          (\<lambda>found.
        if found then rbind (blk_set b (Suc i + 1) NUL) (\<lambda>b. Inr (b, Suc i + 1))
        else cut_signature b i n))
      else Inr (b, n))"

section \<open>Validating\<close>

definition dkim_validate ::
  "('pk, 'sk) crypto \<Rightarrow> stringpair list \<Rightarrow> string \<Rightarrow> dkim_header \<Rightarrow> string \<Rightarrow> int res" where
  "dkim_validate cr headers body dh public_key =
     (let dkim_index = find_key ''DKIM-Signature'' headers in
     rbind (blk_cstr (dh_h dh)) (\<lambda>hs.
     rbind (inc_loop hs headers 0 0 []) (\<lambda>inc.
     rbind (dkim_check_compability dh) (\<lambda>compat.
     if compat \<noteq> 0 then Inr 0
     else rbind (dkim_validate_body_hash cr dh body) (\<lambda>bad_hash.
     if bad_hash \<noteq> 0 then Inr 0
     else
       rbind (case dkim_index of None \<Rightarrow> Inl Out_Of_Bounds
              | Some k \<Rightarrow> inc_put inc \<lparr>sp_key = ''dkim-signature'', sp_value = sp_value (headers ! k)\<rparr>)
         (\<lambda>inc.
       rbind (relaxed_header_canon inc) (\<lambda>new_headers.
       rbind (put_headers new_headers (malloc (1500 * length inc)) 0) (\<lambda>(header_str, len).
       rbind (blk_cstr (dh_b dh)) (\<lambda>b.
       rbind (cut_signature header_str (len - length b) len) (\<lambda>(header_str, len).
       rbind (base64_decode_ssl (b64 cr) b) (\<lambda>(signature_len, signature).
       if signature_len > 0 then
         (case fst (rsa_read_public_pem cr public_key) of
            None \<Rightarrow> Inr 0
          | Some key \<Rightarrow>
              rbind (blk_bytes header_str len) (\<lambda>text.
              rbind (blk_bytes signature (nat signature_len)) (\<lambda>sig.
                Inr (rsa_verify cr key (sha256 cr text) sig))))
       else Inr 0)))))))))))"

section \<open>What is included\<close>

text \<open>The names in a list separated by colons; a colon at the very end belongs to the last name.\<close>

fun h_names :: "string \<Rightarrow> string \<Rightarrow> string list" where
  "h_names cur [] = []"
| "h_names cur (c # s) =
     (if s = [] then [cur @ [c]]
      else if c = CHR '':'' then cur # h_names [] s else h_names (cur @ [c]) s)"

definition select_headers :: "stringpair list \<Rightarrow> string \<Rightarrow> stringpair list" where
  "select_headers headers name = filter (\<lambda>h. starts_with name (map tolower (sp_key h))) headers"

definition included :: "string \<Rightarrow> stringpair list \<Rightarrow> stringpair list" where
  "included hs headers = concat (map (select_headers headers) (h_names [] hs))"

lemma inc_matching_correct:
  "length inc \<le> 50 \<Longrightarrow> inc_matching name headers inc =
     (if length (inc @ select_headers headers name) \<le> 50 then Inr (inc @ select_headers headers name)
      else Inl Out_Of_Bounds)"
  by (induction headers arbitrary: inc)
     (auto simp: select_headers_def inc_put_def str_to_lower_def)

lemma inc_loop_correct:
  "hs = pre @ cur @ s \<Longrightarrow> length inc \<le> 50 \<Longrightarrow>
     inc_loop hs headers (length (pre @ cur)) (length pre) inc =
       (let sel = inc @ concat (map (select_headers headers) (h_names cur s)) in
        if length sel \<le> 50 then Inr sel else Inl Out_Of_Bounds)"
proof (induction s arbitrary: pre cur inc)
  case Nil
  then show ?case by (subst inc_loop.simps) simp
next
  case (Cons c s)
  have at: "hs ! length (pre @ cur) = c" "length (pre @ cur) < length hs"
    using Cons.prems by (simp_all add: nth_append)
  have name: "take (length cur) (drop (length pre) hs) = cur"
      "take (length cur + 1) (drop (length pre) hs) = cur @ [c]"
    using Cons.prems by simp_all
  show ?case
  proof (cases "s = []")
    case True
    then have end_: "inc_loop hs headers (Suc (length (pre @ cur))) (Suc (length (pre @ cur))) x = Inr x" for x
      using Cons.prems by (subst inc_loop.simps) simp
    have "inc_loop hs headers (length (pre @ cur)) (length pre) inc = inc_matching (cur @ [c]) headers inc"
      using at name True Cons.prems(1) end_
      by (subst inc_loop.simps) (simp add: rbind_def split: sum.splits)
    then show ?thesis using inc_matching_correct [OF Cons.prems(2), of "cur @ [c]" headers] True
      by (simp add: Let_def)
  next
    case False
    then have not_last: "length (pre @ cur) \<noteq> length hs - 1" using Cons.prems by (cases s) auto
    show ?thesis
    proof (cases "c = CHR '':''")
      case colon: True
      have step: "inc_loop hs headers (length (pre @ cur)) (length pre) inc
          = rbind (inc_matching cur headers inc)
              (inc_loop hs headers (length ((pre @ cur @ [c]) @ [])) (length (pre @ cur @ [c])))"
        using at name not_last colon by (subst inc_loop.simps) simp
      have hs: "hs = (pre @ cur @ [c]) @ [] @ s" using Cons.prems by simp
      show ?thesis
      proof (cases "length (inc @ select_headers headers cur) \<le> 50")
        case True
        show ?thesis unfolding step
          using Cons.IH [OF hs True] True inc_matching_correct [OF Cons.prems(2), of cur headers] False colon
          by simp
      next
        case no: False
        then show ?thesis unfolding step
          using inc_matching_correct [OF Cons.prems(2), of cur headers] False colon by simp
      qed
    next
      case no_colon: False
      have "inc_loop hs headers (length (pre @ cur)) (length pre) inc
          = inc_loop hs headers (length (pre @ (cur @ [c]))) (length pre) inc"
        using at not_last no_colon by (subst inc_loop.simps) simp
      then show ?thesis using Cons.IH [of pre "cur @ [c]" inc] Cons.prems False no_colon by simp
    qed
  qed
qed

lemma included_correct:
  "inc_loop hs headers 0 0 [] =
     (if length (included hs headers) \<le> 50 then Inr (included hs headers) else Inl Out_Of_Bounds)"
  using inc_loop_correct [of hs "[]" "[]" hs "[]" headers] by (simp add: included_def Let_def)

section \<open>What is signed\<close>

definition header_line :: "stringpair \<Rightarrow> string" where
  "header_line h = sp_key h @ '':'' @ sp_value h"

fun header_text :: "stringpair list \<Rightarrow> string" where
  "header_text [] = []"
| "header_text (h # hs) = header_line h @ (if hs = [] then [] else CRLF @ header_text hs)"

text \<open>Writing at the end of what a block holds, or past its end.\<close>

lemma blk_write_end:
  "blk_holds b s \<Longrightarrow> n = length s \<Longrightarrow>
     (if length s + length t \<le> bsize b
      then \<exists>b'. blk_copy b n (map Some t) = Inr b' \<and> blk_holds b' (s @ t) \<and> bsize b' = bsize b
      else blk_copy b n (map Some t) = Inl Out_Of_Bounds)"
  using blk_holds_append [of b s t] by (auto simp: block_simps)

lemma header_text_nonempty: "hs \<noteq> [] \<Longrightarrow> 1 \<le> length (header_text hs)"
  by (cases hs) (simp_all add: header_line_def)

lemma blk_write3:
  assumes "blk_holds b s"
  shows "if length (s @ t1 @ t2 @ t3) \<le> bsize b
     then \<exists>b'. rbind (blk_copy b (length s) (map Some t1)) (\<lambda>b.
             rbind (blk_copy b (length s + length t1) (map Some t2)) (\<lambda>b.
             rbind (blk_copy b (length s + length t1 + length t2) (map Some t3)) k)) = k b'
          \<and> blk_holds b' (s @ t1 @ t2 @ t3) \<and> bsize b' = bsize b
     else rbind (blk_copy b (length s) (map Some t1)) (\<lambda>b.
             rbind (blk_copy b (length s + length t1) (map Some t2)) (\<lambda>b.
             rbind (blk_copy b (length s + length t1 + length t2) (map Some t3)) k))
          = Inl Out_Of_Bounds"
  using blk_write_end [OF assms refl, of t1] blk_write_end [of _ "s @ t1" "length s + length t1" t2]
    blk_write_end [of _ "s @ t1 @ t2" "length s + length t1 + length t2" t3]
  by (fastforce split: if_splits)

lemma put_headers_correct:
  "blk_holds b s \<Longrightarrow>
     (if length (s @ header_text hs) \<le> bsize b
      then \<exists>b'. put_headers hs b (length s) = Inr (b', length (s @ header_text hs))
             \<and> blk_holds b' (s @ header_text hs) \<and> bsize b' = bsize b
      else put_headers hs b (length s) = Inl Out_Of_Bounds)"
proof (induction hs arbitrary: b s)
  case Nil
  then show ?case by (auto simp: blk_holds_def)
next
  case (Cons h hs)
  let ?k = "\<lambda>b. if hs \<noteq> [] then rbind (blk_copy b (length (s @ header_line h)) (map Some (CRLF @ [NUL])))
      (\<lambda>b. put_headers hs b (length (s @ header_line h @ CRLF))) else Inr (b, length (s @ header_line h))"
  have step: "put_headers (h # hs) b (length s)
      = rbind (blk_copy b (length s) (map Some (sp_key h))) (\<lambda>b.
             rbind (blk_copy b (length s + length (sp_key h)) (map Some '':'')) (\<lambda>b.
             rbind (blk_copy b (length s + length (sp_key h) + length '':'') (map Some (sp_value h))) ?k))"
    by (simp add: Let_def header_line_def ac_simps cong: if_cong)
  note write3 = blk_write3 [OF Cons.prems, of "sp_key h" "'':''" "sp_value h" ?k, folded step header_line_def]
  show ?case
  proof (cases "length (s @ header_line h) \<le> bsize b")
    case False
    then show ?thesis using write3 by simp
  next
    case True
    then obtain b1 where b1: "put_headers (h # hs) b (length s) = ?k b1"
      "blk_holds b1 (s @ header_line h)" "bsize b1 = bsize b"
      using write3 by auto
    show ?thesis
    proof (cases "hs = []")
      case True
      then show ?thesis using b1 \<open>length (s @ header_line h) \<le> bsize b\<close> by simp
    next
      case hs: False
      note sep = blk_write_end [OF b1(2) refl, of "CRLF @ [NUL]"]
      show ?thesis
      proof (cases "length (s @ header_line h) + 3 \<le> bsize b")
        case True
        then obtain b2 where b2: "blk_copy b1 (length (s @ header_line h)) (map Some (CRLF @ [NUL])) = Inr b2"
          "blk_holds b2 ((s @ header_line h @ CRLF) @ [NUL])" "bsize b2 = bsize b"
          using sep b1(3) by auto
        have put: "put_headers (h # hs) b (length s) = put_headers hs b2 (length (s @ header_line h @ CRLF))"
          unfolding b1(1) using b2(1) hs by simp
        have out: "s @ header_text (h # hs) = (s @ header_line h @ CRLF) @ header_text hs" using hs by simp
        from Cons.IH [OF blk_holds_prefix [OF b2(2)]] show ?thesis unfolding out put b2(3) .
      next
        case False
        then show ?thesis using sep b1(1,3) hs header_text_nonempty [OF hs] by simp
      qed
    qed
  qed
qed

lemma put_headers_fits:
  "length (header_text hs) \<le> n \<Longrightarrow> \<exists>b. put_headers hs (malloc n) 0 = Inr (b, length (header_text hs))
     \<and> blk_holds b (header_text hs)"
  using put_headers_correct [of "malloc n" "[]" hs] by auto

lemma all_written_map: "all_written (map Some s) = Inr s"
  by (induction s) simp_all

lemma blk_bytes_holds: "blk_holds b s \<Longrightarrow> blk_bytes b (length s) = Inr s"
  by (simp add: blk_bytes_def blk_holds_slice all_written_map)

text \<open>
  The text under the signature ends with the value of the DKIM-Signature header up to \<open>b=\<close>, where
  the value of \<open>b\<close>, written \<open>raw\<close>, is the last of the header and its \<open>=\<close> signs come at its end.
\<close>

lemma cut_signature_correct:
  assumes "blk_holds b (t @ ''b='' @ raw)" "CHR ''='' \<notin> set (take (Suc k) raw)" "k < length raw"
    and "t \<noteq> []"
  shows "\<exists>b'. cut_signature b (length t + 2 + k) n = Inr (b', length t + 2) \<and> blk_holds b' (t @ ''b='')"
  using assms(2,3)
proof (induction k)
  case 0
  then obtain c r where raw: "raw = c # r" "c \<noteq> CHR ''=''" by (cases raw) auto
  have at: "blk_get b (length t + 2) = Inr c" "blk_get b (length t + 1) = Inr (CHR ''='')"
      "blk_get b (length t) = Inr (CHR ''b'')"
    using blk_holds_get [OF assms(1), of "length t + 2"] blk_holds_get [OF assms(1), of "length t + 1"]
      blk_holds_get [OF assms(1), of "length t"] raw
    by (simp_all add: nth_append)
  have "blk_holds b (t @ ''b='')" using assms(1) blk_holds_prefix [of b "t @ ''b=''" raw] by simp
  moreover have "length (t @ ''b='') + length [NUL] \<le> bsize b"
    using assms(1) raw by (simp add: blk_holds_def)
  ultimately obtain b' where b': "blk_copy b (length (t @ ''b='')) (map Some [NUL]) = Inr b'"
    "blk_holds b' ((t @ ''b='') @ [NUL])"
    using blk_holds_append by blast
  have "blk_holds b' (t @ ''b='')" using b'(2) by (rule blk_holds_prefix)
  moreover have "length t + 2 + 0 = Suc (Suc (length t))" by simp
  ultimately show ?case using at b'(1) raw(2) assms(4) by simp
next
  case (Suc k)
  have c: "raw ! Suc k \<noteq> CHR ''=''"
    using Suc.prems by (metis in_set_conv_nth length_take lessI min.absorb4 nth_take order_refl
        Suc_leI min.absorb2)
  have "blk_get b (length t + 2 + Suc k) = Inr (raw ! Suc k)"
    using blk_holds_get [OF assms(1), of "length t + 2 + Suc k"] Suc.prems by (simp add: nth_append)
  moreover have "CHR ''='' \<notin> set (take (Suc k) raw)"
    using Suc.prems(1) by (metis set_take_subset_set_take in_mono le_add2 plus_1_eq_Suc)
  moreover have "length t + 2 + Suc k = Suc (length t + 2 + k)" by simp
  ultimately show ?case using Suc.IH Suc.prems(2) c by simp
qed

lemma cstr_cells_Inr: "cstr_cells xs e = Inr s \<Longrightarrow> \<exists>ys. xs = map Some s @ Some NUL # ys \<and> no_nul s"
proof (induction xs e arbitrary: s rule: cstr_cells.induct)
  case (3 c xs e)
  then show ?case by (fastforce simp: rbind_eq_Inr_iff split: if_splits)
qed simp_all

text \<open>\<open>strncmp\<close> of a terminated array with a literal.\<close>

lemma blk_cstr_get:
  assumes "blk_cstr b = Inr s" "length s < bsize b" "i \<le> length s"
  shows "blk_get b i = Inr ((s @ [NUL]) ! i)"
proof -
  obtain ys where "cells b = map Some s @ Some NUL # ys"
    using cstr_cells_Inr assms(1) unfolding blk_cstr_def by blast
  then show ?thesis using assms(2,3) by (auto simp: blk_get_def cell_def nth_append)
qed

lemma strncmp_lit_cstr:
  assumes "blk_cstr b = Inr s" "length s < bsize b"
  shows "no_nul p \<Longrightarrow> i \<le> length s \<Longrightarrow> strncmp_lit b i p = Inr (starts_with p (drop i s))"
proof (induction p arbitrary: i)
  case (Cons c p)
  note get = blk_cstr_get [OF assms Cons.prems(2)]
  show ?case
  proof (cases "i = length s")
    case True
    then show ?thesis using get Cons.prems(1) by auto
  next
    case False
    then have "drop i s = s ! i # drop (Suc i) s" using Cons.prems(2) by (simp add: Cons_nth_drop_Suc)
    then show ?thesis using get False Cons by (auto simp: nth_append)
  qed
qed simp

lemma header_text_snoc:
  "header_text (hs @ [h]) = header_text hs @ (if hs = [] then [] else CRLF) @ header_line h"
  by (induction hs) auto

text \<open>
  The signed headers of a mail, in canonical form, followed by the name of the signature header.
\<close>

definition signed_headers :: "string \<Rightarrow> stringpair list \<Rightarrow> string" where
  "signed_headers hs headers =
     (let inc = map canon_field (included hs headers) in
      header_text inc @ (if inc = [] then [] else CRLF) @ ''dkim-signature:'')"

definition reads_as :: "block \<Rightarrow> string \<Rightarrow> bool" where
  "reads_as b s \<longleftrightarrow> blk_cstr b = Inr s \<and> length s < bsize b"

lemma str_lower_signature: "map tolower ''dkim-signature'' = ''dkim-signature''"
  by code_simp

lemma canon_signature:
  "canon_field \<lparr>sp_key = ''dkim-signature'', sp_value = v\<rparr> = \<lparr>sp_key = ''dkim-signature'', sp_value = canon_value v\<rparr>"
  using str_lower_signature by (simp add: canon_field_def)

lemma compability_correct:
  assumes "reads_as (dh_a dh) a" "reads_as (dh_c dh) c"
  shows "dkim_check_compability dh =
     Inr (if starts_with ''rsa-sha256'' a \<and> starts_with ''relaxed/relaxed'' c then 0 else 1)"
proof -
  have lits: "no_nul ''rsa-sha256''" "no_nul ''relaxed/relaxed''" by (simp_all add: no_nul_def)
  show ?thesis
    using strncmp_lit_cstr [OF _ _ lits(1), of "dh_a dh" a 0] strncmp_lit_cstr [OF _ _ lits(2), of "dh_c dh" c 0]
      assms
    by (simp add: dkim_check_compability_def reads_as_def)
qed

lemma body_hash_correct:
  assumes "reads_as (dh_bh dh) bh" "no_nul body"
    and "base64_encode_ssl (b64 cr) (sha256 cr (canon_body body)) = Inr hash" "no_nul hash"
  shows "dkim_validate_body_hash cr dh body = Inr (if starts_with hash bh then 0 else 1)"
  using strncmp_lit_cstr [of "dh_bh dh" bh hash 0] assms
  by (simp add: dkim_validate_body_hash_def relaxed_body_canon_eq reads_as_def)

text \<open>Everything up to the signature, as one string with the value of \<open>b\<close> cut off.\<close>

lemma signed_text:
  assumes "length (included hs headers) < 50" "find_key ''DKIM-Signature'' headers = Some k"
    and "\<forall>h \<in> set headers. no_nul (sp_value h)"
    and "canon_value (sp_value (headers ! k)) = v @ ''b='' @ raw"
    and "length (signed_headers hs headers @ v @ ''b='' @ raw) \<le> 1500 * (length (included hs headers) + 1)"
    and "b \<noteq> []" "length b \<le> length raw"
      "CHR ''='' \<notin> set (take (Suc (length raw - length b)) raw)"
  shows "\<exists>inc' hdrs block block' n. inc_put (included hs headers) \<lparr>sp_key = ''dkim-signature'', sp_value = sp_value (headers ! k)\<rparr> = Inr inc'
    \<and> relaxed_header_canon inc' = Inr hdrs
    \<and> put_headers hdrs (malloc (1500 * length inc')) 0 = Inr (block, n)
    \<and> cut_signature block (n - length b) n = Inr (block', length (signed_headers hs headers @ v @ ''b=''))
    \<and> blk_holds block' (signed_headers hs headers @ v @ ''b='')"
proof -
  let ?sig = "\<lparr>sp_key = ''dkim-signature'', sp_value = sp_value (headers ! k)\<rparr>"
  let ?inc' = "included hs headers @ [?sig]" and ?t = "signed_headers hs headers @ v"
  have put: "inc_put (included hs headers) ?sig = Inr ?inc'" using assms(1) by (simp add: inc_put_def)
  have k: "k < length headers"
    using assms(2) by (induction headers arbitrary: k) (auto split: if_splits)
  have inc: "set (included hs headers) \<subseteq> set headers"
    by (auto simp: included_def select_headers_def)
  have canon: "relaxed_header_canon ?inc' = Inr (map canon_field ?inc')"
    by (rule relaxed_header_canon_eq) (use assms(3) inc k nth_mem [OF k] in auto)
  have text_eq: "header_text (map canon_field ?inc') = ?t @ ''b='' @ raw"
    using assms(4) by (simp add: header_text_snoc signed_headers_def Let_def canon_signature header_line_def)
  have "length (header_text (map canon_field ?inc')) \<le> 1500 * length ?inc'"
    using assms(5) unfolding text_eq by simp
  from put_headers_fits [OF this]
  obtain block where block: "put_headers (map canon_field ?inc') (malloc (1500 * length ?inc')) 0
      = Inr (block, length (?t @ ''b='' @ raw))" "blk_holds block (?t @ ''b='' @ raw)"
    unfolding text_eq by blast
  have "length raw - length b < length raw" using assms(6,7) by (cases b) auto
  moreover have "?t \<noteq> []" by (simp add: signed_headers_def Let_def)
  ultimately obtain block' where cut: "cut_signature block (length ?t + 2 + (length raw - length b)) (length (?t @ ''b='' @ raw))
      = Inr (block', length ?t + 2)" "blk_holds block' (?t @ ''b='')"
    using cut_signature_correct [OF block(2) assms(8)] by blast
  have len: "length (?t @ ''b='' @ raw) - length b = length ?t + 2 + (length raw - length b)"
      "length ?t + 2 = length (?t @ ''b='')"
    using assms(7) by simp_all
  have "cut_signature block (length (?t @ ''b='' @ raw) - length b) (length (?t @ ''b='' @ raw))
      = Inr (block', length (?t @ ''b=''))"
    using cut(1) unfolding len(1) len(2) .
  then show ?thesis using put canon block(1) cut(2) unfolding append_assoc by blast
qed

text \<open>
  For a signature header with the supported algorithms and a matching body hash, whose value
  of \<open>b\<close> comes last, the answer is what \<open>RSA_verify\<close> says about the decoded signature and the
  SHA-256 digest of the canonical form of every mail header whose name starts with a name of
  the list \<open>h\<close>, in its order, then the signature header with the value of \<open>b\<close> taken out. This
  holds for up to 49 headers of at most 1500 characters on average.
\<close>

theorem dkim_validate_correct:
  assumes fields: "reads_as (dh_a dh) a" "reads_as (dh_c dh) c" "reads_as (dh_h dh) hs"
      "reads_as (dh_bh dh) bh" "reads_as (dh_b dh) b"
    and algorithm: "starts_with ''rsa-sha256'' a" "starts_with ''relaxed/relaxed'' c"
    and body: "no_nul body" "base64_encode_ssl (b64 cr) (sha256 cr (canon_body body)) = Inr hash"
      "no_nul hash" "starts_with hash bh"
    and headers: "find_key ''DKIM-Signature'' headers = Some k" "\<forall>h \<in> set headers. no_nul (sp_value h)"
      "length (included hs headers) < 50"
      "length (signed_headers hs headers @ v @ ''b='' @ raw) \<le> 1500 * (length (included hs headers) + 1)"
    and last_tag: "canon_value (sp_value (headers ! k)) = v @ ''b='' @ raw"
      "b \<noteq> []" "length b \<le> length raw" "CHR ''='' \<notin> set (take (Suc (length raw - length b)) raw)"
    and signature: "base64_decode_ssl (b64 cr) b = Inr (int (length sig), sigblock)"
      "blk_holds sigblock sig" "sig \<noteq> []"
    and key: "fst (rsa_read_public_pem cr public_key) = Some pk"
  shows "dkim_validate cr headers body dh public_key
    = Inr (rsa_verify cr pk (sha256 cr (signed_headers hs headers @ v @ ''b='')) sig)"
proof -
  obtain inc' hdrs block block' n where t:
    "inc_put (included hs headers) \<lparr>sp_key = ''dkim-signature'', sp_value = sp_value (headers ! k)\<rparr> = Inr inc'"
    "relaxed_header_canon inc' = Inr hdrs" "put_headers hdrs (malloc (1500 * length inc')) 0 = Inr (block, n)"
    "cut_signature block (n - length b) n = Inr (block', length (signed_headers hs headers @ v @ ''b=''))"
    "blk_holds block' (signed_headers hs headers @ v @ ''b='')"
    using signed_text [OF headers(3,1,2) last_tag(1) headers(4) last_tag(2-4)] by blast
  have "dkim_check_compability dh = Inr 0" "dkim_validate_body_hash cr dh body = Inr 0"
    using compability_correct [OF fields(1,2)] body_hash_correct [OF fields(4) body(1-3)] algorithm body(4)
    by simp_all
  moreover have "blk_bytes sigblock (nat (int (length sig))) = Inr sig"
    using blk_bytes_holds [OF signature(2)] by simp
  moreover have "blk_cstr (dh_h dh) = Inr hs" "blk_cstr (dh_b dh) = Inr b"
    using fields(3,5) by (simp_all add: reads_as_def)
  moreover have "inc_loop hs headers 0 0 [] = Inr (included hs headers)"
    using included_correct [of hs headers] headers(3) by simp
  ultimately show ?thesis using t(1-4) blk_bytes_holds [OF t(5)] signature(1,3) key headers(1)
    by (simp add: dkim_validate_def Let_def)
qed

text \<open>A small instance: one signed header, and a library that accepts every signature.\<close>

definition sample_crypto :: "(unit, unit) crypto" where
  "sample_crypto = \<lparr>sha256 = \<lambda>s. ''h'', sha1 = \<lambda>s. ''h'', bio_ok = True,
     pem_public = \<lambda>s. Some (), pem_private = \<lambda>s. Some (), rsa_verify = \<lambda>k h s. 1,
     rsa_sign = \<lambda>k h. Some ''s'',
     b64 = \<lparr>bio_write_b64 = \<lambda>x. x @ [LF], bio_read_b64 = \<lambda>w. (1, ''s'')\<rparr>\<rparr>"

definition sample_array :: "string \<Rightarrow> block" where
  "sample_array s = \<lparr>bsize = DKIM_VALUE_MAX_LEN, cells = map Some (s @ [NUL])\<rparr>"

definition sample_header :: dkim_header where
  "sample_header = new_dkim_header\<lparr>dh_a := sample_array ''rsa-sha256'', dh_c := sample_array ''relaxed/relaxed'',
     dh_h := sample_array ''from'', dh_bh := sample_array ''h'', dh_b := sample_array ''xy''\<rparr>"

definition sample_mail :: "stringpair list" where
  "sample_mail = [\<lparr>sp_key = ''From'', sp_value = '' a''\<rparr>, \<lparr>sp_key = ''DKIM-Signature'', sp_value = ''h=from; b=xy''\<rparr>]"

lemma sample_reads: "no_nul s \<Longrightarrow> length s < DKIM_VALUE_MAX_LEN \<Longrightarrow> reads_as (sample_array s) s"
  using cstr_cells_term [of s "[]"] by (simp add: reads_as_def blk_cstr_def sample_array_def)

lemma sample_included: "included ''from'' sample_mail = [\<lparr>sp_key = ''From'', sp_value = '' a''\<rparr>]"
proof -
  have "map tolower ''From'' = ''from''" "map tolower ''DKIM-Signature'' = ''dkim-signature''" by code_simp+
  then show ?thesis by (simp add: included_def sample_mail_def select_headers_def)
qed

lemma sample_hash: "base64_encode_ssl (b64 sample_crypto) (sha256 sample_crypto s) = Inr ''h''"
  by (simp add: sample_crypto_def base64_encode_ssl_def Let_def cstr_def unbreak_str_eq no_break_def)

lemma sample_decode: "base64_decode_ssl (b64 sample_crypto) ''xy'' = Inr (1, \<lparr>bsize = 2, cells = map Some ''s'' @ [Some NUL]\<rparr>)"
  by (simp add: sample_crypto_def base64_decode_ssl_def base64_wrap_eq Let_def blk_copy_def)

lemma sample_canon: "canon_value ''h=from; b=xy'' = ''h=from; '' @ ''b='' @ ''xy''" "canon_value '' a'' = ''a''"
  by (simp_all add: canon_value_def wsp_def strip_end_def)

lemma sample_signed: "signed_headers ''from'' sample_mail = ''from:a'' @ CRLF @ ''dkim-signature:''"
proof -
  have "map tolower ''From'' = ''from''" by code_simp
  then show ?thesis
    by (simp add: signed_headers_def sample_included canon_field_def sample_canon header_line_def)
qed

theorem dkim_validate_correct_witness:
  "dkim_validate sample_crypto sample_mail ''hello'' sample_header ''pem''
    = Inr (rsa_verify sample_crypto () (sha256 sample_crypto
        (signed_headers ''from'' sample_mail @ ''h=from; '' @ ''b='')) ''s'')"
  by (rule dkim_validate_correct [where a = "''rsa-sha256''" and c = "''relaxed/relaxed''" and bh = "''h''"
        and b = "''xy''" and hash = "''h''" and k = 1 and raw = "''xy''"
        and sigblock = "\<lparr>bsize = 2, cells = map Some ''s'' @ [Some NUL]\<rparr>"])
     (simp_all only: sample_hash sample_decode sample_included sample_signed,
      simp_all add: sample_header_def sample_reads DKIM_VALUE_MAX_LEN_def sample_mail_def sample_canon
        rsa_read_public_pem_def sample_crypto_def blk_holds_def)

lemma dkim_validate_accepts:
  assumes "dkim_validate cr headers body dh public_key = Inr r" "r \<noteq> 0"
  shows "dkim_check_compability dh = Inr 0 \<and> dkim_validate_body_hash cr dh body = Inr 0
    \<and> find_key ''DKIM-Signature'' headers \<noteq> None
    \<and> (\<exists>pk signed sig. fst (rsa_read_public_pem cr public_key) = Some pk
         \<and> r = rsa_verify cr pk (sha256 cr signed) sig)"
  using assms unfolding dkim_validate_def Let_def
  by (auto simp: rbind_eq_Inr_iff split: if_splits option.splits prod.splits)

text \<open>
  What was verified, for any signature header: the canonical headers and the signature header, cut
  behind the last \<open>b=\<close> from which at least all but one character of the value of \<open>b\<close> follow, or whole
  where there is none.
\<close>

fun cut_text :: "string \<Rightarrow> nat \<Rightarrow> string" where
  "cut_text s 0 = s"
| "cut_text s (Suc i) =
     (if 0 < i \<and> s ! Suc i = CHR ''='' \<and> s ! i = CHR ''b'' then take (i + 2) s else cut_text s i)"

definition signed_part :: "string \<Rightarrow> stringpair list \<Rightarrow> nat \<Rightarrow> string \<Rightarrow> string" where
  "signed_part hs headers k b =
     (let full = signed_headers hs headers @ canon_value (sp_value (headers ! k)) in
      cut_text full (length full - length b))"

lemma blk_copy_room: "blk_copy b n xs = Inr b' \<Longrightarrow> n + length xs \<le> bsize b"
  by (simp add: blk_copy_def split: if_splits)

lemma cut_signature_text:
  "blk_holds block s \<Longrightarrow> i < length s \<Longrightarrow> cut_signature block i (length s) = Inr (block', n) \<Longrightarrow>
     blk_bytes block' n = Inr (cut_text s i)"
proof (induction i)
  case 0
  then show ?case using blk_bytes_holds [of block s] by auto
next
  case (Suc i)
  have get: "blk_get block (Suc i) = Inr (s ! Suc i)" "blk_get block i = Inr (s ! i)"
    using Suc.prems(1,2) by (simp_all add: blk_holds_get)
  show ?case
  proof (cases "0 < i \<and> s ! Suc i = CHR ''='' \<and> s ! i = CHR ''b''")
    case True
    let ?p = "take (i + 2) s"
    have p: "length ?p = i + 2" "blk_holds block ?p"
      using Suc.prems(1,2) blk_holds_prefix [of block ?p "drop (i + 2) s"] by simp_all
    have "cut_signature block (Suc i) (length s) = rbind (blk_copy block (i + 2) (map Some [NUL])) (\<lambda>b. Inr (b, i + 2))"
      using True get by simp
    then have set: "blk_copy block (length ?p) (map Some [NUL]) = Inr block'" "n = length ?p"
      unfolding p(1) using Suc.prems(3) by (cases "blk_copy block (i + 2) (map Some [NUL])"; simp)+
    have "length ?p + length [NUL] \<le> bsize block" using blk_copy_room [OF set(1)] unfolding length_map .
    from blk_holds_append [OF p(2) this] have "blk_holds block' (?p @ [NUL])" unfolding set(1) by blast
    from blk_bytes_holds [OF blk_holds_prefix [OF this]] have "blk_bytes block' n = Inr ?p" unfolding set(2) .
    moreover have "cut_text s (Suc i) = ?p" using True by simp
    ultimately show ?thesis by (rule trans [OF _ arg_cong [OF sym]])
  next
    case False
    show ?thesis
    proof (cases "0 < i")
      case True
      then have "cut_signature block (Suc i) (length s) = cut_signature block i (length s)"
        using False get by auto
      then have "blk_bytes block' n = Inr (cut_text s i)" using Suc.IH [OF Suc.prems(1)] Suc.prems(2,3) by simp
      moreover have "cut_text s (Suc i) = cut_text s i" unfolding cut_text.simps using False by (rule if_not_P)
      ultimately show ?thesis by (rule trans [OF _ arg_cong [OF sym]])
    next
      case no: False
      then have "block' = block" "n = length s" using Suc.prems(3) by simp_all
      then show ?thesis using no blk_bytes_holds [OF Suc.prems(1)] Suc.prems(2) by auto
    qed
  qed
qed

text \<open>Nothing is written behind the headers, so that a search from there reads an unwritten byte.\<close>

lemma blk_copy_cells:
  "blk_copy b n xs = Inr b' \<Longrightarrow> length (cells b') = max (length (cells b)) (n + length xs)"
  by (auto simp: blk_copy_def split: if_splits)

lemma put_headers_end:
  "put_headers hs b n = Inr (b', n') \<Longrightarrow> length (cells b) \<le> n + 1 \<Longrightarrow> hs \<noteq> [] \<Longrightarrow> length (cells b') = n' \<and> 0 < n'"
proof (induction hs arbitrary: b n)
  case (Cons h hs)
  let ?n1 = "n + length (sp_key h)" and ?n3 = "n + length (sp_key h) + 1 + length (sp_value h)"
  obtain b1 b2 b3 where w: "blk_copy b n (map Some (sp_key h)) = Inr b1" "blk_copy b1 ?n1 (map Some '':'') = Inr b2"
    "blk_copy b2 (?n1 + 1) (map Some (sp_value h)) = Inr b3"
    and rest: "(if hs \<noteq> [] then rbind (blk_copy b3 ?n3 (map Some (CRLF @ [NUL]))) (\<lambda>b. put_headers hs b (?n3 + 2))
      else Inr (b3, ?n3)) = Inr (b', n')"
    using Cons.prems(1) unfolding put_headers.simps Let_def rbind_eq_Inr_iff by blast
  have len: "length (cells b3) = ?n3"
    using blk_copy_cells [OF w(1)] blk_copy_cells [OF w(2)] blk_copy_cells [OF w(3)] Cons.prems(2) by simp
  show ?case
  proof (cases "hs = []")
    case True
    then show ?thesis using rest len by auto
  next
    case False
    then obtain b4 where b4: "blk_copy b3 ?n3 (map Some (CRLF @ [NUL])) = Inr b4" "put_headers hs b4 (?n3 + 2) = Inr (b', n')"
      using rest by (auto simp: rbind_eq_Inr_iff)
    have "length (cells b4) \<le> ?n3 + 2 + 1" using blk_copy_cells [OF b4(1)] len by simp
    from Cons.IH [OF b4(2) this False] show ?thesis .
  qed
qed simp

lemma put_headers_written:
  assumes "put_headers hs (malloc m) 0 = Inr (block, n)"
  shows "n = length (header_text hs)" "blk_holds block (header_text hs)"
  using put_headers_correct [of "malloc m" "[]" hs] assms by (auto split: if_splits)

lemma cut_nothing_faults:
  "length (cells block) = n \<Longrightarrow> 1 < n \<Longrightarrow> \<exists>e. cut_signature block n m = Inl e"
  by (cases n) (auto simp: blk_get_def cell_def)

lemma dkim_validate_accepted:
  assumes valid: "dkim_validate cr headers body dh public_key = Inr r" "r \<noteq> 0"
    and nuls: "\<forall>h \<in> set headers. no_nul (sp_value h)" "no_nul body"
  obtains k hs b hash n z pk sig where "find_key ''DKIM-Signature'' headers = Some k"
    "blk_cstr (dh_h dh) = Inr hs" "blk_cstr (dh_b dh) = Inr b" "dkim_check_compability dh = Inr 0"
    "base64_encode_ssl (b64 cr) (sha256 cr (canon_body body)) = Inr hash" "strncmp_lit (dh_bh dh) 0 hash = Inr True"
    "base64_decode_ssl (b64 cr) b = Inr (n, z)" "0 < n" "blk_bytes z (nat n) = Inr sig"
    "fst (rsa_read_public_pem cr public_key) = Some pk"
    "r = rsa_verify cr pk (sha256 cr (signed_part hs headers k b)) sig"
proof -
  obtain hs inc where hs: "blk_cstr (dh_h dh) = Inr hs" "inc_loop hs headers 0 0 [] = Inr inc"
    using valid(1) unfolding dkim_validate_def Let_def rbind_eq_Inr_iff by blast
  note accepts = dkim_validate_accepts [OF valid]
  then obtain k where k: "find_key ''DKIM-Signature'' headers = Some k" by blast
  have inc: "inc = included hs headers" using hs(2) by (simp add: included_correct split: if_splits)
  obtain inc' hdrs block len b block' len' n z where t:
    "inc_put inc \<lparr>sp_key = ''dkim-signature'', sp_value = sp_value (headers ! k)\<rparr> = Inr inc'"
    "relaxed_header_canon inc' = Inr hdrs" "put_headers hdrs (malloc (1500 * length inc')) 0 = Inr (block, len)"
    "blk_cstr (dh_b dh) = Inr b" "cut_signature block (len - length b) len = Inr (block', len')"
    "base64_decode_ssl (b64 cr) b = Inr (n, z)"
    and rest: "(if n > 0 then
         (case fst (rsa_read_public_pem cr public_key) of
            None \<Rightarrow> Inr 0
          | Some key \<Rightarrow>
              rbind (blk_bytes block' len') (\<lambda>text.
              rbind (blk_bytes z (nat n)) (\<lambda>sig.
                Inr (rsa_verify cr key (sha256 cr text) sig))))
       else Inr 0) = Inr r"
    using valid(1) hs k accepts unfolding dkim_validate_def Let_def by (auto simp: rbind_eq_Inr_iff)
  let ?sig = "\<lparr>sp_key = ''dkim-signature'', sp_value = sp_value (headers ! k)\<rparr>"
  have inc': "inc' = included hs headers @ [?sig]" using t(1) by (simp add: inc inc_put_def split: if_splits)
  have "k < length headers" using k by (induction headers arbitrary: k) (auto split: if_splits)
  moreover have "set (included hs headers) \<subseteq> set headers" by (auto simp: included_def select_headers_def)
  ultimately have "relaxed_header_canon inc' = Inr (map canon_field inc')"
    using nuls(1) by (intro relaxed_header_canon_eq) (auto simp: inc')
  then have hdrs: "hdrs = map canon_field inc'" using t(2) by simp
  let ?full = "signed_headers hs headers @ canon_value (sp_value (headers ! k))"
  have full: "header_text hdrs = ?full"
    by (simp add: hdrs inc' header_text_snoc signed_headers_def Let_def canon_signature header_line_def)
  note written = put_headers_written [OF t(3), unfolded full]
  have long: "1 < length ?full" by (simp add: signed_headers_def Let_def)
  have "b \<noteq> []"
  proof
    assume "b = []"
    then show False using t(5) cut_nothing_faults [of block len len] put_headers_end [OF t(3)] written(1) long
      by (auto simp: hdrs inc')
  qed
  then have "len - length b < length ?full" using written(1) long by (cases b) auto
  from cut_signature_text [OF written(2) this] t(5) written(1)
  have signed: "blk_bytes block' len' = Inr (signed_part hs headers k b)" by (simp add: signed_part_def Let_def)
  obtain hash where "base64_encode_ssl (b64 cr) (sha256 cr (canon_body body)) = Inr hash" "strncmp_lit (dh_bh dh) 0 hash = Inr True"
    using accepts nuls(2) by (auto simp: dkim_validate_body_hash_def relaxed_body_canon_eq rbind_eq_Inr_iff split: if_splits)
  moreover obtain pk sig where "0 < n" "fst (rsa_read_public_pem cr public_key) = Some pk" "blk_bytes z (nat n) = Inr sig"
    "r = rsa_verify cr pk (sha256 cr (signed_part hs headers k b)) sig"
    using rest valid(2) signed by (auto simp: rbind_eq_Inr_iff split: if_splits option.splits)
  ultimately show thesis using that k hs(1) t(4,6) accepts by blast
qed

text \<open>
  C21. Whatever the mail is, an answer other than 0 is an answer of \<open>RSA_verify\<close> about the given
  key, for a signature header with the algorithm \<open>rsa-sha256\<close>, the canonicalization
  \<open>relaxed/relaxed\<close> and a body hash that matches the canonical body.
\<close>

theorem dkim_validate_sound:
  assumes "dkim_validate cr headers body dh public_key = Inr r" "r \<noteq> 0"
  shows "dkim_check_compability dh = Inr 0 \<and> dkim_validate_body_hash cr dh body = Inr 0
    \<and> find_key ''DKIM-Signature'' headers \<noteq> None
    \<and> (\<exists>pk signed sig. fst (rsa_read_public_pem cr public_key) = Some pk
         \<and> r = rsa_verify cr pk (sha256 cr signed) sig)"
  using dkim_validate_accepts [OF assms] .

theorem dkim_validate_sound_witness:
  "dkim_check_compability sample_header = Inr 0 \<and> dkim_validate_body_hash sample_crypto sample_header ''hello'' = Inr 0
    \<and> find_key ''DKIM-Signature'' sample_mail \<noteq> None
    \<and> (\<exists>pk signed sig. fst (rsa_read_public_pem sample_crypto ''pem'') = Some pk
         \<and> 1 = rsa_verify sample_crypto pk (sha256 sample_crypto signed) sig)"
proof -
  have "dkim_validate sample_crypto sample_mail ''hello'' sample_header ''pem'' = Inr 1" by code_simp
  then show ?thesis by (rule dkim_validate_sound) simp
qed

section \<open>Creating a signature\<close>

fun header_list_loop :: "stringpair list \<Rightarrow> block \<Rightarrow> nat \<Rightarrow> (block \<times> nat) res" where
  "header_list_loop [] b n = Inr (b, n)"
| "header_list_loop (h # hs) b n =
     rbind (if n \<noteq> 0 then sprintf_s b n '':'' else Inr (b, n)) (\<lambda>(b, n).
     rbind (sprintf_s b n (sp_key h)) (\<lambda>(b, n). header_list_loop hs b n))"

definition dkim_template :: string where
  "dkim_template = ''v=1; a=rsa-sha1; s=%s; d=%s; l=%d; t=%d; c=relaxed/relaxed; h=%s; bh=%s; b=''"

definition dkim_fields :: "string \<Rightarrow> string \<Rightarrow> int \<Rightarrow> int \<Rightarrow> string \<Rightarrow> string \<Rightarrow> string" where
  "dkim_fields selector domain body_len ts header_list bh =
     ''v=1; a=rsa-sha1; s='' @ selector @ ''; d='' @ domain @ ''; l='' @ sprintf_d (i32 body_len)
     @ ''; t='' @ sprintf_d (i32 ts) @ ''; c=relaxed/relaxed; h='' @ header_list @ ''; bh='' @ bh @ ''; b=''"

text \<open>The result is \<open>None\<close> where the function returns NULL.\<close>

definition dkim_create ::
  "('pk, 'sk) crypto \<Rightarrow> int \<Rightarrow> stringpair list \<Rightarrow> string option \<Rightarrow> string option \<Rightarrow> string option
   \<Rightarrow> string option \<Rightarrow> string option res" where
  "dkim_create cr ts headers body pkey domain selector =
     (case (body, pkey, domain, selector) of
        (Some body, Some pkey, Some domain, Some selector) \<Rightarrow>
          (case rsa_read_private_pem cr pkey of
             (None, _) \<Rightarrow> Inr None
           | (Some rsa_private, _) \<Rightarrow>
               rbind (relaxed_header_canon headers) (\<lambda>new_headers.
               rbind (relaxed_body_canon body) (\<lambda>new_body.
               rbind (base64_encode_ssl (b64 cr) (sha1 cr new_body)) (\<lambda>bh.
               rbind (header_list_loop new_headers (malloc (length headers * 200)) 0) (\<lambda>(hl, _).
               rbind (blk_cstr hl) (\<lambda>header_list.
               rbind (sprintf_s (malloc (length dkim_template + length selector + length domain + 16 + 16
                                         + length header_list + length bh + 1)) 0
                        (dkim_fields selector domain (int (length new_body)) ts header_list bh)) (\<lambda>(db, dkim_len).
               rbind (blk_cstr db) (\<lambda>dkim.
               let new_headers = new_headers @ [\<lparr>sp_key = ''dkim-signature'', sp_value = dkim\<rparr>] in
               rbind (put_headers new_headers (malloc (1500 * (length headers + 1))) 0) (\<lambda>(header_str, len).
               rbind (blk_bytes header_str len) (\<lambda>signed.
               (case rsa_sign cr rsa_private (sha1 cr signed) of
                  None \<Rightarrow> Inr None
                | Some sig \<Rightarrow>
                    rbind (base64_encode_ssl (b64 cr) sig) (\<lambda>sig_b64.
                    rbind (wrap (dkim @ sig_b64)) (\<lambda>value. Inr (Some value))))))))))))))
      | _ \<Rightarrow> Inr None)"

lemma sprintf_d_length: "length (sprintf_d (i32 x)) \<le> 11"
proof -
  have "nat (abs (i32 x)) < 10 ^ 10" using i32_range [of x] by (simp add: nat_less_iff abs_less_iff)
  then have "length (show_nat (nat (abs (i32 x)))) \<le> 10" by (rule show_nat_length) simp
  then show ?thesis by (cases "i32 x < 0") (simp_all add: sprintf_d_def abs_if)
qed

fun names_text :: "string \<Rightarrow> stringpair list \<Rightarrow> string" where
  "names_text s [] = s"
| "names_text s (h # hs) = names_text ((if s = [] then [] else s @ '':'') @ sp_key h) hs"

lemma names_text_length: "length s \<le> length (names_text s hs)"
proof (induction hs arbitrary: s)
  case (Cons h hs)
  then show ?case using Cons.IH [of "(if s = [] then [] else s @ '':'') @ sp_key h"] by (auto split: if_splits)
qed simp

lemma names_text_no_nul: "no_nul s \<Longrightarrow> \<forall>h \<in> set hs. no_nul (sp_key h) \<Longrightarrow> no_nul (names_text s hs)"
  by (induction hs arbitrary: s) auto

lemma header_list_loop_correct:
  "blk_holds b s \<Longrightarrow> length (names_text s hs) + 1 \<le> bsize b \<Longrightarrow>
     \<exists>b'. header_list_loop hs b (length s) = Inr (b', length (names_text s hs)) \<and> bsize b' = bsize b
       \<and> (hs \<noteq> [] \<or> blk_holds b (s @ [NUL]) \<longrightarrow> blk_holds b' (names_text s hs @ [NUL]))"
proof (induction hs arbitrary: b s)
  case Nil
  then show ?case by simp
next
  case (Cons h hs)
  let ?s = "if s = [] then [] else s @ '':''"
  have len: "length (?s @ sp_key h) + 1 \<le> bsize b"
    using names_text_length [of "?s @ sp_key h" hs] Cons.prems(2) by simp
  have "\<exists>b1. (if length s \<noteq> 0 then sprintf_s b (length s) '':'' else Inr (b, length s)) = Inr (b1, length ?s)
      \<and> blk_holds b1 ?s \<and> bsize b1 = bsize b"
  proof (cases "s = []")
    case True
    then show ?thesis using Cons.prems(1) by simp
  next
    case False
    then have "length s + length '':'' + 1 \<le> bsize b" using len by simp
    then obtain b1 where "sprintf_s b (length s) '':'' = Inr (b1, length (s @ '':''))"
      "blk_holds b1 ((s @ '':'') @ [NUL])" "bsize b1 = bsize b"
      using sprintf_s_correct [OF Cons.prems(1)] by blast
    then show ?thesis using False blk_holds_prefix [of b1 "s @ '':''" "[NUL]"] by simp
  qed
  then obtain b1 where b1: "(if length s \<noteq> 0 then sprintf_s b (length s) '':'' else Inr (b, length s)) = Inr (b1, length ?s)"
    "blk_holds b1 ?s" "bsize b1 = bsize b" by blast
  obtain b2 where b2: "sprintf_s b1 (length ?s) (sp_key h) = Inr (b2, length (?s @ sp_key h))"
    "blk_holds b2 ((?s @ sp_key h) @ [NUL])" "bsize b2 = bsize b"
    using sprintf_s_correct [OF b1(2), of "sp_key h"] len b1(3) by auto
  have step: "header_list_loop (h # hs) b (length s) = header_list_loop hs b2 (length (?s @ sp_key h))"
    unfolding header_list_loop.simps b1(1) rbind_Inr prod.case b2(1) ..
  have fits: "length (names_text (?s @ sp_key h) hs) + 1 \<le> bsize b2" using Cons.prems(2) b2(3) by simp
  from Cons.IH [OF blk_holds_prefix [OF b2(2)] fits] b2(2,3) show ?case
    unfolding step names_text.simps by auto
qed

lemma fields_fit:
  "length (dkim_fields selector domain n ts hl bh) \<le> length dkim_template + length selector + length domain
     + 16 + 16 + length hl + length bh"
  using sprintf_d_length [of n] sprintf_d_length [of ts] by (simp add: dkim_fields_def dkim_template_def)

lemma fields_no_nul:
  "no_nul selector \<Longrightarrow> no_nul domain \<Longrightarrow> no_nul hl \<Longrightarrow> no_nul bh \<Longrightarrow> no_nul (dkim_fields selector domain n ts hl bh)"
proof -
  have "no_nul (sprintf_d x)" for x
    using sprintf_d_chars [of NUL x] by (auto simp: no_nul_iff isdigit_def)
  then show "no_nul selector \<Longrightarrow> no_nul domain \<Longrightarrow> no_nul hl \<Longrightarrow> no_nul bh \<Longrightarrow> ?thesis"
    by (simp add: dkim_fields_def)
qed

lemma no_nul_lower: "no_nul s \<Longrightarrow> no_nul (map tolower s)"
  by (induction s) (simp_all add: tolower_eq_small)

text \<open>
  C22. A new signature: the header is written into its buffer without leaving it, the
  signature is made over the SHA-1 digest of the canonical headers and of this header with an
  empty \<open>b\<close>, and the value is the header with the signature, wrapped. (The keys of all headers
  must fit into 200 bytes a header and the headers into 1500 bytes each.)
\<close>

theorem dkim_create_correct:
  assumes key: "rsa_read_private_pem cr pkey = (Some sk, 0)"
    and mail: "no_nul body" "headers \<noteq> []" "\<forall>h \<in> set headers. no_nul (sp_key h) \<and> no_nul (sp_value h)"
      "no_nul selector" "no_nul domain"
    and hash: "base64_encode_ssl (b64 cr) (sha1 cr (canon_body body)) = Inr bh" "no_nul bh"
    and names: "names = names_text [] (map canon_field headers)" "length names + 1 \<le> length headers * 200"
    and fv_def: "fv = dkim_fields selector domain (int (length (canon_body body))) ts names bh"
    and signed: "signed = header_text (map canon_field headers @ [\<lparr>sp_key = ''dkim-signature'', sp_value = fv\<rparr>])"
      "length signed \<le> 1500 * (length headers + 1)"
    and sig: "rsa_sign cr sk (sha1 cr signed) = Some sig" "base64_encode_ssl (b64 cr) sig = Inr sigtext"
      "no_nul sigtext" "3 * wraps 0 (fv @ sigtext) \<le> 2 * length (fv @ sigtext)"
  shows "dkim_create cr ts headers (Some body) (Some pkey) (Some domain) (Some selector)
    = Inr (Some (wrap_ref 0 (fv @ sigtext)))"
proof -
  let ?hs = "map canon_field headers"
  have canon: "relaxed_header_canon headers = Inr ?hs" "relaxed_body_canon body = Inr (canon_body body)"
    using mail(1,3) by (simp_all add: relaxed_header_canon_eq relaxed_body_canon_eq)
  have keys: "\<forall>h \<in> set ?hs. no_nul (sp_key h)"
    using mail(3) by (simp add: canon_field_def no_nul_lower)
  have "blk_holds (malloc (length headers * 200)) []" by simp
  then obtain hb where hb: "header_list_loop ?hs (malloc (length headers * 200)) 0 = Inr (hb, length names)"
    "blk_holds hb (names @ [NUL])"
    using header_list_loop_correct [of "malloc (length headers * 200)" "[]" ?hs] names mail(2) by auto
  have nul: "no_nul names" using names_text_no_nul [of "[]" ?hs] keys names(1) by simp
  let ?n = "length dkim_template + length selector + length domain + 16 + 16 + length names + length bh + 1"
  have "length ([] :: string) + length fv + 1 \<le> bsize (malloc ?n)"
    using fields_fit [of selector domain "int (length (canon_body body))" ts names bh] by (simp add: fv_def)
  then obtain db where db: "sprintf_s (malloc ?n) 0 fv = Inr (db, length fv)" "blk_holds db (fv @ [NUL])"
    using sprintf_s_correct [of "malloc ?n" "[]" fv] by auto
  have "no_nul fv" using fields_no_nul mail(4,5) nul hash(2) fv_def by simp
  then have "blk_cstr hb = Inr names" "blk_cstr db = Inr fv" "wrap (fv @ sigtext) = Inr (wrap_ref 0 (fv @ sigtext))"
    using blk_cstr_holds [OF hb(2) nul] blk_cstr_holds [OF db(2)] wrap_eq [of "fv @ sigtext"] sig(3,4)
    by simp_all
  moreover obtain sb where "put_headers (?hs @ [\<lparr>sp_key = ''dkim-signature'', sp_value = fv\<rparr>])
      (malloc (1500 * (length headers + 1))) 0 = Inr (sb, length signed)" "blk_bytes sb (length signed) = Inr signed"
    using put_headers_fits [OF signed(2) [unfolded signed(1)]] blk_bytes_holds signed(1) by metis
  ultimately show ?thesis using key canon hash(1) hb(1) db(1) sig(1,2) fv_def
    by (simp add: dkim_create_def Let_def)
qed

theorem dkim_create_correct_witness:
  "dkim_create sample_crypto 5 [\<lparr>sp_key = ''From'', sp_value = '' a''\<rparr>] (Some ''hello'') (Some ''pem'')
     (Some ''example.org'') (Some ''mail'')
   = Inr (Some (wrap_ref 0 (dkim_fields ''mail'' ''example.org'' (int (length (canon_body ''hello''))) 5 ''from'' ''h'' @ ''s'')))"
proof (rule dkim_create_correct [where sk = "()" and names = "''from''" and bh = "''h''" and sig = "''s''"
      and sigtext = "''s''" and signed = "header_text (map canon_field [\<lparr>sp_key = ''From'', sp_value = '' a''\<rparr>] @
        [\<lparr>sp_key = ''dkim-signature'', sp_value =
           dkim_fields ''mail'' ''example.org'' (int (length (canon_body ''hello''))) 5 ''from'' ''h''\<rparr>])"])
  show "base64_encode_ssl (b64 sample_crypto) (sha1 sample_crypto (canon_body ''hello'')) = Inr ''h''"
    "base64_encode_ssl (b64 sample_crypto) ''s'' = Inr ''s''"
    by (simp_all add: sample_crypto_def base64_encode_ssl_def Let_def cstr_def unbreak_str_eq no_break_def)
  show "''from'' = names_text [] (map canon_field [\<lparr>sp_key = ''From'', sp_value = '' a''\<rparr>])" by code_simp
  show "length (header_text (map canon_field [\<lparr>sp_key = ''From'', sp_value = '' a''\<rparr>] @
        [\<lparr>sp_key = ''dkim-signature'', sp_value =
           dkim_fields ''mail'' ''example.org'' (int (length (canon_body ''hello''))) 5 ''from'' ''h''\<rparr>]))
     \<le> 1500 * (length [\<lparr>sp_key = ''From'', sp_value = '' a''\<rparr>] + 1)" by code_simp
  show "3 * wraps 0 (dkim_fields ''mail'' ''example.org'' (int (length (canon_body ''hello''))) 5 ''from'' ''h'' @ ''s'')
     \<le> 2 * length (dkim_fields ''mail'' ''example.org'' (int (length (canon_body ''hello''))) 5 ''from'' ''h'' @ ''s'')"
    by code_simp
qed (simp_all add: no_nul_def rsa_read_private_pem_def sample_crypto_def)

end
