(* ===== verification/Mail_Handler.thy ===== *)
theory Mail_Handler
  imports Report_Json Dkim_Validate Persisted_Queue
begin

text \<open>
  \<^verbatim>\<open>src/mailhandler/mailhandler.c\<close> and \<^verbatim>\<open>src/mailhandler/dns.c\<close>: the process that takes
  messages from the queue, checks their DKIM signature with the key from DNS, decodes and
  unzips the attached report and posts it as JSON to the web service.

  Everything outside the program is in the record \<open>world\<close>: the resolver, OpenSSL, zlib, libxml2,
  libcurl, and the address of the web service, which is an argument of the process. A header whose key or value is not terminated is a fault as soon as the headers
  are converted, also where the code would not come to read it.
\<close>

section \<open>The key record from DNS\<close>

text \<open>
  What the resolver library says about the answer to a query: whether each of its calls
  succeeded, the class and the type of the first record and its data.
\<close>

record dns_answer =
  dn_search_ok :: bool
  dn_parse_ok :: bool
  dn_count_ok :: bool
  dn_record_ok :: bool
  dn_is_txt :: bool
  dn_rdata :: string

definition dns_gettxt :: "(string \<Rightarrow> dns_answer) \<Rightarrow> string \<Rightarrow> string option" where
  "dns_gettxt resolve name =
     (let r = resolve name in
      if \<not> dn_search_ok r then None
      else if \<not> dn_parse_ok r then None
      else if \<not> dn_count_ok r then None
      else if \<not> dn_record_ok r then None
      else if dn_is_txt r
      then Some (cstr (filter (\<lambda>c. of_char c \<noteq> (183 :: nat) \<and> of_char c \<noteq> (218 :: nat)) (dn_rdata r)))
      else None)"

section \<open>The world of the handler\<close>

record ('pk, 'sk) world =
  wd_crypto :: "('pk, 'sk) crypto"
  wd_resolve :: "string \<Rightarrow> dns_answer"
  wd_inflate_init :: bool
  wd_inflate :: "string \<Rightarrow> nat \<Rightarrow> string"
  wd_read_memory :: "string \<Rightarrow> xml list option"
  wd_content :: "xml \<Rightarrow> string"
  wd_url :: string

section \<open>Checking the signature\<close>

fun mail_headers :: "hdr list \<Rightarrow> nat \<Rightarrow> stringpair list res" where
  "mail_headers hs 0 = Inr []"
| "mail_headers [] (Suc n) = Inl Out_Of_Bounds"
| "mail_headers (h # hs) (Suc n) =
     rbind (blk_cstr (hdr_key h)) (\<lambda>k. rbind (blk_cstr (hdr_value h)) (\<lambda>v.
     rbind (mail_headers hs n) (\<lambda>ps. Inr (\<lparr>sp_key = k, sp_value = v\<rparr> # ps))))"

definition public_key_text :: "string \<Rightarrow> string" where
  "public_key_text key =
     ''-----BEGIN PUBLIC KEY-----'' @ [LF] @ key @ [LF] @ ''-----END PUBLIC KEY-----'' @ [LF]"

definition validate_dkim :: "('pk, 'sk) world \<Rightarrow> mail \<Rightarrow> int res" where
  "validate_dkim w message =
     rbind (mail_headers (ml_headers message) (ml_header_count message)) (\<lambda>headers.
     rbind (dkim_get_header headers) (\<lambda>dh.
     case dh of
       None \<Rightarrow> Inr 0
     | Some dh \<Rightarrow>
         rbind (blk_cstr (dh_s dh)) (\<lambda>s. rbind (blk_cstr (dh_d dh)) (\<lambda>d.
         (case dns_gettxt (wd_resolve w) (s @ ''._domainkey.'' @ d) of
            None \<Rightarrow> Inr 0
          | Some resp \<Rightarrow>
              rbind (dkim_parse_dns resp) (\<lambda>dr.
              rbind (strncmp_lit (dr_k dr) 0 ''rsa'') (\<lambda>is_rsa.
              if is_rsa then
                rbind (blk_cstr (dr_p dr)) (\<lambda>p.
                rbind (base64_wrap p) (\<lambda>wrapped_key.
                rbind (sprintf_s (malloc (length wrapped_key + 100)) 0 (public_key_text wrapped_key)) (\<lambda>(kb, _).
                rbind (blk_cstr kb) (\<lambda>public_key.
                rbind (blk_cstr (ml_body message)) (\<lambda>body.
                  dkim_validate (wd_crypto w) headers body dh public_key)))))
              else Inr 0)))))))"

section \<open>Decoding the body\<close>

text \<open>
  The value of the first header with the name, where there is one; \<open>strcmp\<close> compares the name
  with its terminator. The code goes on with a NULL pointer where there is none.
\<close>

fun find_encoding :: "hdr list \<Rightarrow> nat \<Rightarrow> block option res" where
  "find_encoding hs 0 = Inr None"
| "find_encoding [] (Suc n) = Inl Out_Of_Bounds"
| "find_encoding (h # hs) (Suc n) =
     rbind (strncmp_lit (hdr_key h) 0 (''Content-Transfer-Encoding'' @ [NUL])) (\<lambda>found.
     if found then Inr (Some (hdr_value h)) else find_encoding hs n)"

text \<open>The decoded bytes with the length reported, \<open>None\<close> where the result is NULL.\<close>

definition decode_content :: "('pk, 'sk) world \<Rightarrow> mail \<Rightarrow> (int \<times> block) option res" where
  "decode_content w message =
     rbind (find_encoding (ml_headers message) (ml_header_count message)) (\<lambda>content_encoding.
     case content_encoding of
       None \<Rightarrow> Inl Null_Deref
     | Some encoding \<Rightarrow>
         rbind (strncmp_lit encoding 0 (''base64'' @ [NUL])) (\<lambda>is_base64.
         if is_base64 then
           rbind (blk_cstr (ml_body message)) (\<lambda>body.
           rbind (base64_decode_ssl (b64 (wd_crypto w)) body) (\<lambda>r. Inr (Some r)))
         else Inr None))"

text \<open>Without the header \<open>Content-Transfer-Encoding\<close> the comparison is one with NULL.\<close>

lemma decode_without_encoding_faults:
  "find_encoding (ml_headers message) (ml_header_count message) = Inr None \<Longrightarrow>
     decode_content w message = Inl Null_Deref"
  by (simp add: decode_content_def)

section \<open>Unzipping\<close>

definition le_value :: "string \<Rightarrow> nat" where
  "le_value s = foldr (\<lambda>c n. of_char c + 256 * n) s 0"

text \<open>
  The local header of the first file of the archive: 30 bytes, then the name, an extra field and
  the compressed data. Sizes of four bytes are read into an \<open>int\<close>. Arrays whose size is not
  positive are undefined in C, and so a fault. The result of \<open>inflate\<close> is not looked at, only how
  much it wrote.
\<close>

definition unzip :: "('pk, 'sk) world \<Rightarrow> block \<Rightarrow> block option res" where
  "unzip w zipdata =
     rbind (blk_bytes zipdata 30) (\<lambda>zip.
     if take 4 zip \<noteq> [CHR ''P'', CHR ''K'', CHR 0x03, CHR 0x04] then Inr None
     else if take 2 (drop 8 zip) \<noteq> [CHR 0x08, NUL] then Inr None
     else
       let filename_len = le_value (take 2 (drop 26 zip));
           extra_field_len = le_value (take 2 (drop 28 zip));
           compr_len = i32 (int (le_value (take 4 (drop 18 zip))));
           uncompr_len = i32 (int (le_value (take 4 (drop 22 zip)))) in
       rbind (blk_slice zipdata 30 filename_len) (\<lambda>filename.
       if compr_len < 0 \<or> uncompr_len \<le> 0 then Inl Out_Of_Bounds
       else
         rbind (blk_slice zipdata (30 + filename_len + extra_field_len) (nat compr_len)) (\<lambda>compressed.
         rbind (all_written compressed) (\<lambda>compressed.
         if \<not> wd_inflate_init w then Inr None
         else
           let uncompr = take (nat uncompr_len) (wd_inflate w ([CHR 0x78, CHR 0x9C] @ compressed) (nat uncompr_len)) in
           rbind (blk_copy (malloc (length uncompr + 1)) 0 (map Some uncompr)) (\<lambda>result.
             Inr (Some result))))))"

section \<open>Posting\<close>

text \<open>
  \<open>curl_easy_cleanup\<close> ends the only handle of the process; \<open>hs_posts\<close> are the addresses and
  bodies posted so far. What the library answers is only printed.
\<close>

record handler_state =
  hs_queue :: "mail pq_state"
  hs_curl :: bool
  hs_posts :: "(string \<times> string) list"

definition post_data :: "block \<Rightarrow> string \<Rightarrow> handler_state \<Rightarrow> handler_state res" where
  "post_data data url st =
     (if \<not> hs_curl st then Inl Use_After_Free
      else rbind (blk_cstr data) (\<lambda>body. Inr (st\<lparr>hs_posts := hs_posts st @ [(url, body)], hs_curl := False\<rparr>)))"

definition process_report :: "('pk, 'sk) world \<Rightarrow> block \<Rightarrow> handler_state \<Rightarrow> handler_state res" where
  "process_report w zipdata st =
     rbind (unzip w zipdata) (\<lambda>xml.
     case xml of
       None \<Rightarrow> Inr st
     | Some document \<Rightarrow>
         rbind (parse_xml (wd_read_memory w) (wd_content w) document string_buffer_init) (\<lambda>(json, _).
         case sb_str json of
           None \<Rightarrow> Inr st
         | Some text \<Rightarrow> post_data text (wd_url w) st))"

text \<open>
  A turn of the main loop: \<open>None\<close> where the semaphore blocks. The answer of \<open>pq_dequeue\<close> is only
  compared with the code of an empty queue.
\<close>

definition handler_turn ::
  "('pk, 'sk) world \<Rightarrow> pq_ref option \<Rightarrow> handler_state \<Rightarrow> handler_state option res" where
  "handler_turn w queue st =
     rbind (pq_dequeue queue (hs_queue st)) (\<lambda>r.
     case r of
       None \<Rightarrow> Inr None
     | Some (q, code, m) \<Rightarrow>
         let st = st\<lparr>hs_queue := q\<rparr> in
         if code = PQ_MESSAGE_QUEUE_EMPTY_ERROR then Inr (Some st)
         else (case m of
             None \<Rightarrow> Inl Uninit_Read
           | Some message \<Rightarrow>
               rbind (validate_dkim w message) (\<lambda>ok.
               if ok = 0 then Inr (Some st)
               else rbind (decode_content w message) (\<lambda>zip.
                 case zip of
                   None \<Rightarrow> Inr (Some st)
                 | Some (zipdata_len, zipdata) \<Rightarrow>
                     rbind (process_report w zipdata st) (\<lambda>st. Inr (Some st))))))"

fun handler_run ::
  "('pk, 'sk) world \<Rightarrow> pq_ref option \<Rightarrow> nat \<Rightarrow> handler_state \<Rightarrow> handler_state option res" where
  "handler_run w queue 0 st = Inr (Some st)"
| "handler_run w queue (Suc n) st =
     rbind (handler_turn w queue st) (\<lambda>r.
       case r of None \<Rightarrow> Inr None | Some st \<Rightarrow> handler_run w queue n st)"

text \<open>The start of the process: its queue, and the outcome of making a curl handle.\<close>

definition handler_main ::
  "pq_os \<Rightarrow> mail \<Rightarrow> mail path \<Rightarrow> int \<Rightarrow> nat \<Rightarrow> bool
   \<Rightarrow> int + pq_ref option \<times> mail path \<times> handler_state" where
  "handler_main os zero filepath n sem curl_ok =
     (case pq_init os zero filepath n sem of (queue, path, sem, ret) \<Rightarrow>
        if ret < 0 then Inl 1
        else if \<not> curl_ok then Inl 1
        else (case path of
            File f \<Rightarrow> Inr (queue, path, \<lparr>hs_queue = (sem, file_data f), hs_curl = True, hs_posts = []\<rparr>)
          | _ \<Rightarrow> Inl 1))"

section \<open>Archives\<close>

text \<open>
  The start of an archive with one deflated file, as a packer writes it: \<open>le k n\<close> is \<open>n\<close> in \<open>k\<close>
  bytes, the least significant first; \<open>version\<close> and \<open>stamps\<close> are the fields that are not looked
  at, \<open>n\<close> the size of the file.
\<close>

fun le :: "nat \<Rightarrow> nat \<Rightarrow> string" where
  "le 0 n = []"
| "le (Suc k) n = char_of (n mod 256) # le k (n div 256)"

definition zip_entry :: "string \<Rightarrow> string \<Rightarrow> nat \<Rightarrow> string \<Rightarrow> string \<Rightarrow> string \<Rightarrow> string" where
  "zip_entry version stamps n name extra data =
     [CHR ''P'', CHR ''K'', CHR 0x03, CHR 0x04] @ version @ [CHR 0x08, NUL] @ stamps
     @ le 4 (length data) @ le 4 n @ le 2 (length name) @ le 2 (length extra) @ name @ extra @ data"

definition zip_fits :: "string \<Rightarrow> string \<Rightarrow> nat \<Rightarrow> string \<Rightarrow> string \<Rightarrow> string \<Rightarrow> bool" where
  "zip_fits version stamps n name extra data \<longleftrightarrow>
     length version = 4 \<and> length stamps = 8 \<and> 0 < n \<and> n < 2 ^ 31 \<and> length name < 65536
     \<and> length extra < 65536 \<and> length data < 2 ^ 31"

lemma le_length [simp]: "length (le k n) = k"
  by (induction k arbitrary: n) auto

lemma le_value_le: "le_value (le k n) = n mod 256 ^ k"
  by (induction k arbitrary: n) (simp_all add: le_value_def mod_mult2_eq)

lemma blk_holds_mid: "blk_holds b (s @ t @ u) \<Longrightarrow> blk_slice b (length s) (length t) = Inr (map Some t)"
proof -
  assume b: "blk_holds b (s @ t @ u)"
  have "map (cell b) [length s..<length s + length t] = map Some t"
    by (rule nth_equalityI) (auto simp: blk_holds_cell [OF b] nth_append)
  then show ?thesis using b by (simp add: blk_slice_def blk_holds_def)
qed

text \<open>What \<open>unzip\<close> puts into its result: as many bytes as were inflated, and no terminator.\<close>

definition inflated :: "('pk, 'sk) world \<Rightarrow> nat \<Rightarrow> string \<Rightarrow> string" where
  "inflated w n data = take n (wd_inflate w ([CHR 0x78, CHR 0x9C] @ data) n)"

definition unterminated :: "string \<Rightarrow> block" where
  "unterminated s = \<lparr>bsize = length s + 1, cells = map Some s\<rparr>"

lemma unzip_entry:
  assumes holds: "blk_holds z (zip_entry version stamps n name extra data)"
    and fits: "zip_fits version stamps n name extra data" and init: "wd_inflate_init w"
  shows "unzip w z = Inr (Some (unterminated (inflated w n data)))"
proof -
  let ?head = "[CHR ''P'', CHR ''K'', CHR 0x03, CHR 0x04] @ version @ [CHR 0x08, NUL] @ stamps
     @ le 4 (length data) @ le 4 n @ le 2 (length name) @ le 2 (length extra)"
  have entry: "zip_entry version stamps n name extra data = ?head @ name @ extra @ data"
    by (simp add: zip_entry_def)
  have len: "length ?head = 30" "length version = 4" "length stamps = 8" using fits by (simp_all add: zip_fits_def)
  have "blk_holds z ?head" using holds blk_holds_prefix unfolding entry by blast
  then have head: "blk_bytes z 30 = Inr ?head" using blk_bytes_holds len(1) by metis
  have name: "blk_slice z 30 (length name) = Inr (map Some name)"
    using blk_holds_mid [of z ?head name "extra @ data"] holds len(1) unfolding entry by simp
  have data: "blk_slice z (30 + length name + length extra) (length data) = Inr (map Some data)"
    using blk_holds_mid [of z "?head @ name @ extra" data "[]"] holds len unfolding entry by (simp add: add.assoc)
  have sizes: "le_value (le 2 (length name)) = length name" "le_value (le 2 (length extra)) = length extra"
    "i32 (int (le_value (le 4 (length data)))) = int (length data)" "i32 (int (le_value (le 4 n))) = int n"
    "0 < n"
    using fits by (simp_all add: zip_fits_def le_value_le i32_def)
  have parts: "take 4 ?head = [CHR ''P'', CHR ''K'', CHR 0x03, CHR 0x04]" "take 2 (drop 8 ?head) = [CHR 0x08, NUL]"
    "take 4 (drop 18 ?head) = le 4 (length data)" "take 4 (drop 22 ?head) = le 4 n"
    "take 2 (drop 26 ?head) = le 2 (length name)" "take 2 (drop 28 ?head) = le 2 (length extra)"
    using len(2,3) by simp_all
  have "unzip w z = rbind (blk_copy (malloc (length (inflated w n data) + 1)) 0 (map Some (inflated w n data)))
      (\<lambda>result. Inr (Some result))"
    unfolding unzip_def head rbind_Inr parts Let_def sizes
    using sizes(5) by (simp add: name data all_written_map init inflated_def)
  then show ?thesis by (simp add: blk_copy_def unterminated_def malloc_def)
qed

lemma unterminated_cstr:
  "no_nul s \<Longrightarrow> blk_cstr (unterminated s) = Inl Uninit_Read"
  "no_nul s \<Longrightarrow> blk_cstr (unterminated (s @ NUL # t)) = Inr s"
proof -
  have "cstr_cells (map Some s) e = Inl e" if "no_nul s" for e using that by (induction s) auto
  then show "no_nul s \<Longrightarrow> blk_cstr (unterminated s) = Inl Uninit_Read"
    by (simp add: blk_cstr_def unterminated_def)
  show "no_nul s \<Longrightarrow> blk_cstr (unterminated (s @ NUL # t)) = Inr s"
    by (simp add: blk_cstr_def unterminated_def cstr_cells_term)
qed

section \<open>One turn\<close>

lemma plain_name_no_nul: "plain_name s \<Longrightarrow> no_nul s"
  by (induction s) (simp_all add: plain_name_def, force)

lemma nodes_text_no_nul: "plain_nodes content nodes \<Longrightarrow> no_nul (nodes_text content first nodes)"
  by (induction content first nodes rule: nodes_text.induct)
     (simp_all add: plain_name_no_nul escaped_no_nul plain_text_no_nul)

lemma object_text_no_nul:
  assumes "plain_nodes content nodes"
  shows "no_nul (object_text content None nodes)" "no_nul n \<Longrightarrow> no_nul (object_text content (Some n) nodes)"
  using nodes_text_no_nul [OF assms] by (simp_all add: object_text_def)

lemma top_text_no_nul: "plain_report content nodes \<Longrightarrow> no_nul s \<Longrightarrow> no_nul (top_text content s nodes)"
proof (induction content s nodes rule: top_text.induct)
  case (3 content s n cs nodes)
  consider "n = ''report_metadata''" | "n = ''policy_published''"
    | "n \<noteq> ''report_metadata''" "n \<noteq> ''policy_published''" by blast
  then show ?case
    using 3 object_text_no_nul(2) [of content cs "''metadata''"] object_text_no_nul(2) [of content cs "''policy''"]
    by cases simp_all
qed simp_all

lemma records_text_no_nul: "plain_report content nodes \<Longrightarrow> no_nul (records_text content first nodes)"
proof (induction content first nodes rule: records_text.induct)
  case (3 content first n cs nodes)
  then show ?case using object_text_no_nul(1) [of content cs] by (cases "n = ''record''") simp_all
qed simp_all

lemma report_text_no_nul: "plain_report content nodes \<Longrightarrow> no_nul (report_text content nodes)"
  by (simp add: report_text_def Let_def top_text_no_nul records_text_no_nul)

lemma report_posted:
  assumes "unzip w z = Inr (Some (unterminated (doc @ NUL # rest)))" "no_nul doc"
    and "wd_read_memory w doc = Some nodes" "plain_report (wd_content w) nodes"
  shows "process_report w z st = (if hs_curl st
     then Inr (st\<lparr>hs_posts := hs_posts st @ [(wd_url w, report_text (wd_content w) nodes)], hs_curl := False\<rparr>)
     else Inl Use_After_Free)"
proof -
  let ?text = "report_text (wd_content w) nodes"
  obtain sb where sb: "parse_xml (wd_read_memory w) (wd_content w) (unterminated (doc @ NUL # rest)) string_buffer_init
      = Inr (sb, 0)" "sb_holds sb ?text"
    using parse_xml_correct [of "unterminated (doc @ NUL # rest)" doc "wd_read_memory w" nodes "wd_content w"]
      unterminated_cstr(2) assms(2,3) plain_short_report [OF assms(4)] by blast
  have "?text \<noteq> []" by (simp add: report_text_def Let_def)
  then obtain b where b: "sb_str sb = Some b" "blk_holds b (?text @ [NUL])"
    using sb(2) by (auto simp: sb_holds_def split: option.splits)
  then show ?thesis using sb(1) assms(1) blk_cstr_holds [OF b(2) report_text_no_nul [OF assms(4)]]
    by (simp add: process_report_def post_data_def)
qed

lemma handler_turn_some:
  fixes st :: handler_state
  assumes "pq_ready ref (hs_queue st)" "pq_items (hs_queue st) = m # q"
  obtains st1 where "hs_posts st1 = hs_posts st" "hs_curl st1 = hs_curl st" "pq_ready ref (hs_queue st1)"
    "pq_items (hs_queue st1) = q"
    "\<And>w :: ('pk, 'sk) world. handler_turn w (Some ref) st =
       rbind (validate_dkim w m) (\<lambda>ok.
         if ok = 0 then Inr (Some st1)
         else rbind (decode_content w m) (\<lambda>zip. case zip of
             None \<Rightarrow> Inr (Some st1)
           | Some (zipdata_len, zipdata) \<Rightarrow> rbind (process_report w zipdata st1) (\<lambda>st. Inr (Some st))))"
proof -
  obtain qs where qs: "pq_dequeue (Some ref) (hs_queue st) = Inr (Some (qs, 0, Some m))" "pq_ready ref qs" "pq_items qs = q"
    using pq.deq_some [OF assms(1)] assms(2) by auto
  show thesis
    by (rule that [of "st\<lparr>hs_queue := qs\<rparr>"])
       (simp_all add: qs handler_turn_def PQ_MESSAGE_QUEUE_EMPTY_ERROR_def Let_def)
qed

lemma report_turn:
  assumes queue: "pq_ready ref (hs_queue st)" "pq_items (hs_queue st) = m # q"
    and valid: "validate_dkim w m = Inr ok" "ok \<noteq> 0"
    and content: "decode_content w m = Inr (Some (len, z))"
      "blk_holds z (zip_entry version stamps n name extra data)" "zip_fits version stamps n name extra data"
      "wd_inflate_init w"
  shows "no_nul (inflated w n data) \<Longrightarrow> handler_turn w (Some ref) st = Inl Uninit_Read"
    and "inflated w n data = doc @ NUL # rest \<Longrightarrow> no_nul doc \<Longrightarrow> wd_read_memory w doc = Some nodes \<Longrightarrow>
      plain_report (wd_content w) nodes \<Longrightarrow> metadata_first False nodes \<Longrightarrow>
      (if hs_curl st
       then \<exists>st' out. handler_turn w (Some ref) st = Inr (Some st') \<and> hs_posts st' = hs_posts st @ [(wd_url w, out)]
         \<and> render (report_json (wd_content w) nodes) = ''{'' @ out @ ''}''
         \<and> pq_ready ref (hs_queue st') \<and> pq_items (hs_queue st') = q \<and> \<not> hs_curl st'
       else handler_turn w (Some ref) st = Inl Use_After_Free)"
proof -
  obtain st1 where st1: "hs_posts st1 = hs_posts st" "hs_curl st1 = hs_curl st" "pq_ready ref (hs_queue st1)"
    "pq_items (hs_queue st1) = q" and step: "handler_turn w (Some ref) st = rbind (validate_dkim w m) (\<lambda>ok.
         if ok = 0 then Inr (Some st1)
         else rbind (decode_content w m) (\<lambda>zip. case zip of
             None \<Rightarrow> Inr (Some st1)
           | Some (zipdata_len, zipdata) \<Rightarrow> rbind (process_report w zipdata st1) (\<lambda>st. Inr (Some st))))"
    by (rule handler_turn_some [OF queue]) blast
  have turn: "handler_turn w (Some ref) st = rbind (process_report w z st1) (\<lambda>st. Inr (Some st))"
    using step valid content(1) by simp
  note zip = unzip_entry [OF content(2-4)]
  { assume "no_nul (inflated w n data)"
    then show "handler_turn w (Some ref) st = Inl Uninit_Read"
      by (simp add: turn process_report_def zip parse_xml_def unterminated_cstr) }
  { assume that: "inflated w n data = doc @ NUL # rest" "no_nul doc" "wd_read_memory w doc = Some nodes"
      "plain_report (wd_content w) nodes" "metadata_first False nodes"
    show "if hs_curl st
       then \<exists>st' out. handler_turn w (Some ref) st = Inr (Some st') \<and> hs_posts st' = hs_posts st @ [(wd_url w, out)]
         \<and> render (report_json (wd_content w) nodes) = ''{'' @ out @ ''}''
         \<and> pq_ready ref (hs_queue st') \<and> pq_items (hs_queue st') = q \<and> \<not> hs_curl st'
       else handler_turn w (Some ref) st = Inl Use_After_Free"
      using report_posted [OF zip [unfolded that(1)] that(2-4), of st1] report_text_render [OF that(4,5)] st1
      by (simp add: turn) }
qed

text \<open>
  C31. What becomes of a mail whose signature is valid and whose body is an archive with one
  deflated report. The report is posted, as its JSON without the braces around it, where the
  inflated bytes contain a NUL behind the document; where they contain none (a report is text),
  the missing terminator of \<open>unzip\<close> makes the XML parser's \<open>strlen\<close> read an unwritten byte.
  Posting ends the connection handle, and a handler that has posted once uses it after it was freed.
\<close>

theorem handler_turn_report:
  assumes queue: "pq_ready ref (hs_queue st)" "pq_items (hs_queue st) = m # q"
    and valid: "validate_dkim w m = Inr ok" "ok \<noteq> 0"
    and content: "decode_content w m = Inr (Some (len, z))"
      "blk_holds z (zip_entry version stamps n name extra data)" "zip_fits version stamps n name extra data"
      "wd_inflate_init w"
  shows "(no_nul (inflated w n data) \<longrightarrow> handler_turn w (Some ref) st = Inl Uninit_Read)
    \<and> (\<forall>doc rest nodes. inflated w n data = doc @ NUL # rest \<longrightarrow> no_nul doc \<longrightarrow> wd_read_memory w doc = Some nodes \<longrightarrow>
      plain_report (wd_content w) nodes \<longrightarrow> metadata_first False nodes \<longrightarrow>
      (if hs_curl st
       then \<exists>st' out. handler_turn w (Some ref) st = Inr (Some st') \<and> hs_posts st' = hs_posts st @ [(wd_url w, out)]
         \<and> render (report_json (wd_content w) nodes) = ''{'' @ out @ ''}''
         \<and> pq_ready ref (hs_queue st') \<and> pq_items (hs_queue st') = q \<and> \<not> hs_curl st'
       else handler_turn w (Some ref) st = Inl Use_After_Free))"
  using report_turn [OF assms] by blast

section \<open>Runs\<close>

text \<open>
  What was posted comes from a mail that vouches for it: the signature header of that mail has the
  supported algorithms and the hash of that mail's body, DNS gives a key for its domain and
  selector, and OpenSSL accepts, under this key, the signature in its tag \<open>b\<close> for the canonical
  headers of that mail (\<open>signed_part\<close>).
\<close>

definition vouched :: "('pk, 'sk) world \<Rightarrow> mail \<Rightarrow> bool" where
  "vouched w m \<longleftrightarrow> (\<exists>headers body k dh hs b hash s d resp dr p pk n z sig.
     mail_headers (ml_headers m) (ml_header_count m) = Inr headers \<and> blk_cstr (ml_body m) = Inr body
     \<and> find_key ''DKIM-Signature'' headers = Some k \<and> dkim_parse_header (sp_value (headers ! k)) = Inr dh
     \<and> dkim_check_compability dh = Inr 0
     \<and> base64_encode_ssl (b64 (wd_crypto w)) (sha256 (wd_crypto w) (canon_body body)) = Inr hash
     \<and> strncmp_lit (dh_bh dh) 0 hash = Inr True
     \<and> blk_cstr (dh_s dh) = Inr s \<and> blk_cstr (dh_d dh) = Inr d \<and> blk_cstr (dh_h dh) = Inr hs \<and> blk_cstr (dh_b dh) = Inr b
     \<and> dns_gettxt (wd_resolve w) (s @ ''._domainkey.'' @ d) = Some resp
     \<and> dkim_parse_dns resp = Inr dr \<and> blk_cstr (dr_p dr) = Inr p
     \<and> pem_public (wd_crypto w) (public_key_text (lines76 0 p)) = Some pk
     \<and> base64_decode_ssl (b64 (wd_crypto w)) b = Inr (n, z) \<and> 0 < n \<and> blk_bytes z (nat n) = Inr sig
     \<and> rsa_verify (wd_crypto w) pk (sha256 (wd_crypto w) (signed_part hs headers k b)) sig \<noteq> 0)"

definition posted_from :: "('pk, 'sk) world \<Rightarrow> mail \<Rightarrow> string \<Rightarrow> bool" where
  "posted_from w m out \<longleftrightarrow> vouched w m \<and> (\<exists>len z document sb code text.
     decode_content w m = Inr (Some (len, z)) \<and> unzip w z = Inr (Some document)
     \<and> parse_xml (wd_read_memory w) (wd_content w) document string_buffer_init = Inr (sb, code)
     \<and> sb_str sb = Some text \<and> blk_cstr text = Inr out)"

lemma cstr_cells_no_nul: "cstr_cells xs e = Inr s \<Longrightarrow> no_nul s"
  by (induction xs e arbitrary: s rule: cstr_cells.induct) (auto simp: rbind_eq_Inr_iff split: if_splits)

lemma blk_cstr_no_nul: "blk_cstr b = Inr s \<Longrightarrow> no_nul s"
  unfolding blk_cstr_def by (rule cstr_cells_no_nul)

lemma public_key_written:
  "sprintf_s (malloc (length k + 100)) 0 (public_key_text k) = Inr (kb, n) \<Longrightarrow> no_nul k \<Longrightarrow>
     blk_cstr kb = Inr (public_key_text k)"
proof -
  assume k: "sprintf_s (malloc (length k + 100)) 0 (public_key_text k) = Inr (kb, n)" "no_nul k"
  have "length (public_key_text k) + 1 \<le> length k + 100" by (simp add: public_key_text_def)
  then have "blk_holds kb (public_key_text k @ [NUL])"
    using sprintf_s_correct [of "malloc (length k + 100)" "[]" "public_key_text k"] k(1) by simp
  moreover have "no_nul (public_key_text k)" using k(2) by (simp add: public_key_text_def)
  ultimately show ?thesis by (rule blk_cstr_holds)
qed

lemma mail_headers_no_nul:
  "mail_headers hs n = Inr headers \<Longrightarrow> h \<in> set headers \<Longrightarrow> no_nul (sp_value h)"
  by (induction hs n arbitrary: headers rule: mail_headers.induct) (auto simp: rbind_eq_Inr_iff blk_cstr_no_nul)

lemma key_of_record:
  assumes "items_ok record_tags ritems rg re"
    and "param_values DKIM_RECORD_MAX_LEN ritems re Tag_k = Some kt" "param_values DKIM_RECORD_MAX_LEN ritems re Tag_p = Some p"
  obtains dr where "dkim_parse_dns (render_params record_name ritems rg re) = Inr dr"
    "strncmp_lit (dr_k dr) 0 ''rsa'' = Inr (starts_with ''rsa'' kt)" "blk_cstr (dr_p dr) = Inr p" "no_nul p"
proof -
  obtain dr where dr: "dkim_parse_dns (render_params record_name ritems rg re) = Inr dr"
    "\<And>t. blk_cstr (dr_get t dr) = read_field (param_values DKIM_RECORD_MAX_LEN ritems re t)"
    "\<And>t v. param_values DKIM_RECORD_MAX_LEN ritems re t = Some v \<Longrightarrow> length v < bsize (dr_get t dr)"
    using record_store.params_read [OF assms(1)] unfolding dkim_parse_dns_def by blast
  have k: "blk_cstr (dr_k dr) = Inr kt" "length kt < bsize (dr_k dr)" "blk_cstr (dr_p dr) = Inr p"
    using dr(2) [of Tag_k] dr(3) [of Tag_k kt] dr(2) [of Tag_p] assms(2,3) by (simp_all add: read_field_def)
  have "no_nul ''rsa''" by (simp add: no_nul_def)
  then show thesis
    using that [OF dr(1) _ k(3) blk_cstr_no_nul [OF k(3)]] strncmp_lit_cstr [OF k(1,2), of "''rsa''" 0] by simp
qed

text \<open>
  C20. The check of a mail as a whole. A mail has a signature header and DNS has a key record, both
  written as lists of tags; the algorithms are the supported ones, the body hash matches, the value
  of \<open>b\<close> comes last in the header. Then the answer is what \<open>RSA_verify\<close> says with the key of the
  record (wrapped and put between the PEM lines) about the decoded signature and the SHA-256
  digest of the canonical headers that \<open>h\<close> names, followed by the signature header without the
  value of \<open>b\<close>. This holds for up to 49 headers of at most 1500 characters on average.
\<close>

theorem validate_dkim_correct:
  fixes w :: "('pk, 'sk) world" and items :: "(string \<times> header_tag \<times> string) list"
  defines "cr \<equiv> wd_crypto w"
  assumes mail: "mail_headers (ml_headers m) (ml_header_count m) = Inr headers" "blk_cstr (ml_body m) = Inr body"
    and header: "find_key ''DKIM-Signature'' headers = Some k"
      "sp_value (headers ! k) = render_params header_name items g e" "items_ok header_tags items g e"
      "param_values DKIM_VALUE_MAX_LEN items e = vals"
      "vals Tag_s = Some s" "vals Tag_d = Some d" "vals Tag_a = Some a" "vals Tag_c = Some c" "vals Tag_h = Some hs"
      "vals Tag_bh = Some bh" "vals Tag_b = Some b"
    and dns: "dns_gettxt (wd_resolve w) (s @ ''._domainkey.'' @ d) = Some (render_params record_name ritems rg re)"
      "items_ok record_tags ritems rg re" "param_values DKIM_RECORD_MAX_LEN ritems re Tag_k = Some kt" "starts_with ''rsa'' kt"
      "param_values DKIM_RECORD_MAX_LEN ritems re Tag_p = Some p"
    and key: "fst (rsa_read_public_pem cr (public_key_text (lines76 0 p))) = Some pk"
    and algorithm: "starts_with ''rsa-sha256'' a" "starts_with ''relaxed/relaxed'' c"
    and body: "base64_encode_ssl (b64 cr) (sha256 cr (canon_body body)) = Inr hash" "no_nul hash" "starts_with hash bh"
    and sizes: "length (included hs headers) < 50"
      "length (signed_headers hs headers @ v @ ''b='' @ raw) \<le> 1500 * (length (included hs headers) + 1)"
    and last_tag: "canon_value (sp_value (headers ! k)) = v @ ''b='' @ raw"
      "b \<noteq> []" "length b \<le> length raw" "CHR ''='' \<notin> set (take (Suc (length raw - length b)) raw)"
    and signature: "base64_decode_ssl (b64 cr) b = Inr (int (length sig), sigblock)" "blk_holds sigblock sig" "sig \<noteq> []"
  shows "validate_dkim w m = Inr (rsa_verify cr pk (sha256 cr (signed_headers hs headers @ v @ ''b='')) sig)"
proof -
  obtain dh where dh: "dkim_parse_header (sp_value (headers ! k)) = Inr dh"
    "\<And>t. blk_cstr (dh_get t dh) = read_field (vals t)" "\<And>t v. vals t = Some v \<Longrightarrow> length v < bsize (dh_get t dh)"
    using header_store.params_read [OF header(3)] header(2,4) unfolding dkim_parse_header_def by metis
  have reads: "reads_as (dh_get t dh) u" if "vals t = Some u" for t u
    using dh(2,3) that by (simp add: reads_as_def read_field_def)
  note fields = reads [OF header(7)] reads [OF header(8)] reads [OF header(9)] reads [OF header(10)] reads [OF header(11)]
  obtain dr where dr: "dkim_parse_dns (render_params record_name ritems rg re) = Inr dr"
    "strncmp_lit (dr_k dr) 0 ''rsa'' = Inr (starts_with ''rsa'' kt)" "blk_cstr (dr_p dr) = Inr p" "no_nul p"
    by (rule key_of_record [OF dns(2,3,5)]) blast
  have wrapped: "base64_wrap p = Inr (lines76 0 p)" "no_nul (lines76 0 p)"
    using base64_wrap_eq lines76_no_nul dr(4) by blast+
  obtain kb n where kb: "sprintf_s (malloc (length (lines76 0 p) + 100)) 0 (public_key_text (lines76 0 p)) = Inr (kb, n)"
    using sprintf_s_correct [of "malloc (length (lines76 0 p) + 100)" "[]" "public_key_text (lines76 0 p)"]
    by (auto simp: public_key_text_def)
  have no_nuls: "\<forall>h \<in> set headers. no_nul (sp_value h)" "no_nul body"
    using mail_headers_no_nul [OF mail(1)] blk_cstr_no_nul [OF mail(2)] by blast+
  have "dkim_validate cr headers body dh (public_key_text (lines76 0 p))
    = Inr (rsa_verify cr pk (sha256 cr (signed_headers hs headers @ v @ ''b='')) sig)"
    using dkim_validate_correct [OF _ _ _ _ _ algorithm no_nuls(2) body header(1) no_nuls(1) sizes last_tag signature key]
      fields by simp
  then show ?thesis
    using reads [OF header(5)] reads [OF header(6)] dns(1,4) dr(1-3) wrapped(1) kb public_key_written [OF kb wrapped(2)]
    by (simp add: validate_dkim_def mail dkim_get_header_def header(1) dh(1) reads_as_def flip: cr_def del: strncmp_lit.simps)
qed

lemma validate_dkim_vouched:
  assumes "validate_dkim w m = Inr ok" "ok \<noteq> 0"
  shows "vouched w m"
proof -
  let ?cr = "wd_crypto w"
  obtain headers dh where h: "mail_headers (ml_headers m) (ml_header_count m) = Inr headers"
    "dkim_get_header headers = Inr (Some dh)"
    using assms by (auto simp: validate_dkim_def rbind_eq_Inr_iff split: option.splits)
  obtain s d resp dr where d: "blk_cstr (dh_s dh) = Inr s" "blk_cstr (dh_d dh) = Inr d"
    "dns_gettxt (wd_resolve w) (s @ ''._domainkey.'' @ d) = Some resp" "dkim_parse_dns resp = Inr dr"
    using assms h by (auto simp: validate_dkim_def rbind_eq_Inr_iff split: option.splits)
  obtain p wk kb n pub body where p: "blk_cstr (dr_p dr) = Inr p" "base64_wrap p = Inr wk"
    "sprintf_s (malloc (length wk + 100)) 0 (public_key_text wk) = Inr (kb, n)" "blk_cstr kb = Inr pub"
    "blk_cstr (ml_body m) = Inr body" "dkim_validate ?cr headers body dh pub = Inr ok"
    using assms h d by (auto simp: validate_dkim_def rbind_eq_Inr_iff split: if_splits)
  have wk: "wk = lines76 0 p" "no_nul wk"
    using base64_wrap_eq [OF blk_cstr_no_nul [OF p(1)]] lines76_no_nul [OF blk_cstr_no_nul [OF p(1)]] p(2) by auto
  have pub: "pub = public_key_text wk" using public_key_written [OF p(3) wk(2)] p(4) by simp
  have nuls: "\<forall>h \<in> set headers. no_nul (sp_value h)" "no_nul body"
    using mail_headers_no_nul [OF h(1)] blk_cstr_no_nul [OF p(5)] by blast+
  obtain k hs b hash n z pk sig where v: "find_key ''DKIM-Signature'' headers = Some k"
    "blk_cstr (dh_h dh) = Inr hs" "blk_cstr (dh_b dh) = Inr b" "dkim_check_compability dh = Inr 0"
    "base64_encode_ssl (b64 ?cr) (sha256 ?cr (canon_body body)) = Inr hash" "strncmp_lit (dh_bh dh) 0 hash = Inr True"
    "base64_decode_ssl (b64 ?cr) b = Inr (n, z)" "0 < n" "blk_bytes z (nat n) = Inr sig"
    "fst (rsa_read_public_pem ?cr pub) = Some pk"
    "ok = rsa_verify ?cr pk (sha256 ?cr (signed_part hs headers k b)) sig"
    by (rule dkim_validate_accepted [OF p(6) assms(2) nuls])
  have pem: "pem_public ?cr pub = Some pk"
    using v(10) by (auto simp: rsa_read_public_pem_def split: if_splits option.splits)
  have dh: "dkim_parse_header (sp_value (headers ! k)) = Inr dh"
    using h(2) v(1) by (auto simp: dkim_get_header_def rbind_eq_Inr_iff)
  show ?thesis unfolding vouched_def
    by (intro exI conjI, rule h(1), rule p(5), rule v(1), rule dh, rule v(4), rule v(5), rule v(6), rule d(1), rule d(2),
        rule v(2), rule v(3), rule d(3), rule d(4), rule p(1), rule pem [unfolded pub wk(1)], rule v(7), rule v(8), rule v(9),
        rule assms(2) [unfolded v(11)])
qed

lemma process_report_posts:
  assumes "process_report w z st = Inr st'" "validate_dkim w m = Inr ok" "ok \<noteq> 0"
    "decode_content w m = Inr (Some (len, z))"
  shows "st' = st \<or> (\<exists>out. hs_curl st \<and> posted_from w m out
    \<and> st' = st\<lparr>hs_posts := hs_posts st @ [(wd_url w, out)], hs_curl := False\<rparr>)"
proof -
  obtain x where x: "unzip w z = Inr x" using assms(1) by (auto simp: process_report_def rbind_eq_Inr_iff)
  show ?thesis
  proof (cases x)
    case None
    then show ?thesis using assms(1) x by (simp add: process_report_def)
  next
    case (Some document)
    then obtain sb code where sb: "parse_xml (wd_read_memory w) (wd_content w) document string_buffer_init = Inr (sb, code)"
      using assms(1) x by (auto simp: process_report_def rbind_eq_Inr_iff)
    show ?thesis
    proof (cases "sb_str sb")
      case None
      then show ?thesis using assms(1) x Some sb by (simp add: process_report_def)
    next
      case some_json: (Some json)
      then obtain out where out: "blk_cstr json = Inr out" "hs_curl st"
          "st' = st\<lparr>hs_posts := hs_posts st @ [(wd_url w, out)], hs_curl := False\<rparr>"
        using assms(1) x Some sb some_json by (auto simp: process_report_def post_data_def rbind_eq_Inr_iff split: if_splits)
      have "posted_from w m out"
        using validate_dkim_vouched [OF assms(2,3)] assms(4) x Some sb some_json out(1) unfolding posted_from_def by blast
      then show ?thesis using out(2,3) by blast
    qed
  qed
qed

lemma turn_posts:
  assumes ready: "pq_ready ref (hs_queue st)" and turn: "handler_turn w (Some ref) st = Inr r"
  obtains st' where "r = Some st'" "pq_ready ref (hs_queue st')" "pq_items (hs_queue st') = tl (pq_items (hs_queue st))"
    "hs_posts st' = hs_posts st \<and> hs_curl st' = hs_curl st
     \<or> (\<exists>m out. m \<in> set (pq_items (hs_queue st)) \<and> hs_curl st \<and> posted_from w m out
          \<and> hs_posts st' = hs_posts st @ [(wd_url w, out)] \<and> \<not> hs_curl st')"
proof (cases "pq_items (hs_queue st)")
  case Nil
  then show thesis using that [of st] turn ready
    by (simp add: handler_turn_def Let_def pq.deq_empty)
next
  case (Cons m q)
  obtain st1 where st1: "hs_posts st1 = hs_posts st" "hs_curl st1 = hs_curl st" "pq_ready ref (hs_queue st1)"
    "pq_items (hs_queue st1) = q" and step: "handler_turn w (Some ref) st = rbind (validate_dkim w m) (\<lambda>ok.
         if ok = 0 then Inr (Some st1)
         else rbind (decode_content w m) (\<lambda>zip. case zip of
             None \<Rightarrow> Inr (Some st1)
           | Some (zipdata_len, zipdata) \<Rightarrow> rbind (process_report w zipdata st1) (\<lambda>st. Inr (Some st))))"
    by (rule handler_turn_some [OF ready Cons]) blast
  obtain ok where ok: "validate_dkim w m = Inr ok" using turn step by (auto simp: rbind_eq_Inr_iff)
  show thesis
  proof (cases "r = Some st1")
    case True
    then show thesis using that [of st1] st1 Cons by simp
  next
    case False
    then obtain len z st' where z: "ok \<noteq> 0" "decode_content w m = Inr (Some (len, z))"
      "process_report w z st1 = Inr st'" "r = Some st'"
      using turn step ok False by (fastforce simp: rbind_eq_Inr_iff split: if_splits option.splits)
    then obtain out where out: "hs_curl st1" "posted_from w m out"
        "st' = st1\<lparr>hs_posts := hs_posts st1 @ [(wd_url w, out)], hs_curl := False\<rparr>"
      using process_report_posts [OF z(3) ok z(1,2)] False by auto
    have "m \<in> set (pq_items (hs_queue st))" using Cons by simp
    then show thesis using that [of st'] st1 Cons out z(4) by auto
  qed
qed

text \<open>
  C32. Every run of the mail handler that meets no memory fault has posted nothing, or one report to
  the web service of its arguments, made from a mail of the queue that vouches for it: the key from DNS, the
  signature in the mail, the text that was verified and the hash of the body are those of this
  mail. After the report the handle of the transfer is cleaned up and stays so; a turn that posts
  needs it, and the report after the first is a fault (see the theorem on a turn).
\<close>

theorem handler_posts_vouched:
  assumes "pq_ready ref (hs_queue st)" "handler_run w (Some ref) n st = Inr (Some st')"
  shows "hs_posts st' = hs_posts st \<and> hs_curl st' = hs_curl st
    \<or> (\<exists>m out. m \<in> set (pq_items (hs_queue st)) \<and> vouched w m \<and> posted_from w m out
        \<and> hs_posts st' = hs_posts st @ [(wd_url w, out)] \<and> hs_curl st \<and> \<not> hs_curl st')"
proof -
  have "hs_posts st' = hs_posts st \<and> hs_curl st' = hs_curl st
    \<or> (\<exists>m out. m \<in> set (pq_items (hs_queue st)) \<and> posted_from w m out
        \<and> hs_posts st' = hs_posts st @ [(wd_url w, out)] \<and> hs_curl st \<and> \<not> hs_curl st')"
    using assms
  proof (induction n arbitrary: st)
    case 0
    then show ?case by simp
  next
    case (Suc n)
    obtain r where r: "handler_turn w (Some ref) st = Inr r"
      using Suc.prems(2) by (auto simp: rbind_eq_Inr_iff)
    obtain st1 where st1: "r = Some st1" "pq_ready ref (hs_queue st1)"
      "pq_items (hs_queue st1) = tl (pq_items (hs_queue st))"
      "hs_posts st1 = hs_posts st \<and> hs_curl st1 = hs_curl st
       \<or> (\<exists>m out. m \<in> set (pq_items (hs_queue st)) \<and> hs_curl st \<and> posted_from w m out
            \<and> hs_posts st1 = hs_posts st @ [(wd_url w, out)] \<and> \<not> hs_curl st1)"
      by (rule turn_posts [OF Suc.prems(1) r]) blast
    have "handler_run w (Some ref) n st1 = Inr (Some st')" using Suc.prems(2) r st1(1) by simp
    note IH = Suc.IH [OF st1(2) this]
    have "set (pq_items (hs_queue st1)) \<subseteq> set (pq_items (hs_queue st))"
      using st1(3) by (cases "pq_items (hs_queue st)") auto
    then show ?case using IH st1(4) by fastforce
  qed
  then show ?thesis unfolding posted_from_def by blast
qed

text \<open>A mail that a turn takes out of the queue without posting anything.\<close>

definition passed_over :: "('pk, 'sk) world \<Rightarrow> mail \<Rightarrow> bool" where
  "passed_over w m \<longleftrightarrow> (case validate_dkim w m of
     Inl e \<Rightarrow> False
   | Inr ok \<Rightarrow> ok = 0 \<or> (case decode_content w m of
         Inl e \<Rightarrow> False
       | Inr None \<Rightarrow> True
       | Inr (Some (len, z)) \<Rightarrow> unzip w z = Inr None))"

lemma passed_over_turn:
  assumes "pq_ready ref (hs_queue st)" "pq_items (hs_queue st) = m # q" "passed_over w m"
  shows "\<exists>st'. handler_turn w (Some ref) st = Inr (Some st') \<and> pq_ready ref (hs_queue st')
    \<and> pq_items (hs_queue st') = q \<and> hs_posts st' = hs_posts st \<and> hs_curl st' = hs_curl st"
proof -
  obtain st1 where st1: "hs_posts st1 = hs_posts st" "hs_curl st1 = hs_curl st" "pq_ready ref (hs_queue st1)"
    "pq_items (hs_queue st1) = q" and step: "handler_turn w (Some ref) st = rbind (validate_dkim w m) (\<lambda>ok.
         if ok = 0 then Inr (Some st1)
         else rbind (decode_content w m) (\<lambda>zip. case zip of
             None \<Rightarrow> Inr (Some st1)
           | Some (zipdata_len, zipdata) \<Rightarrow> rbind (process_report w zipdata st1) (\<lambda>st. Inr (Some st))))"
    by (rule handler_turn_some [OF assms(1,2)]) blast
  have "handler_turn w (Some ref) st = Inr (Some st1)"
    using assms(3) step by (auto simp: passed_over_def process_report_def split: sum.splits option.splits)
  then show ?thesis using st1 by blast
qed

lemma passed_over_run:
  assumes "pq_ready ref (hs_queue st)" "pq_items (hs_queue st) = ms @ q" "list_all (passed_over w) ms"
  shows "\<exists>st'. (\<forall>n. handler_run w (Some ref) (length ms + n) st = handler_run w (Some ref) n st')
    \<and> pq_ready ref (hs_queue st') \<and> pq_items (hs_queue st') = q \<and> hs_posts st' = hs_posts st \<and> hs_curl st' = hs_curl st"
  using assms
proof (induction ms arbitrary: st)
  case Nil
  then show ?case by auto
next
  case (Cons m ms)
  then obtain st1 where st1: "handler_turn w (Some ref) st = Inr (Some st1)" "pq_ready ref (hs_queue st1)"
    "pq_items (hs_queue st1) = ms @ q" "hs_posts st1 = hs_posts st" "hs_curl st1 = hs_curl st"
    using passed_over_turn [of ref st m "ms @ q" w] by auto
  then show ?case using Cons.IH [OF st1(2,3)] Cons.prems(3) by auto
qed

lemma idle_turn:
  "pq_ready ref (hs_queue st) \<Longrightarrow> pq_items (hs_queue st) = [] \<Longrightarrow> handler_turn w (Some ref) st = Inr (Some st)"
  by (simp add: handler_turn_def Let_def pq.deq_empty)

text \<open>
  C33. Mails with a signature that is not valid, or with a body that is no base64 or no archive of
  the expected kind, do not keep the handler from the others: after as many turns as there are
  mails the queue is empty, and it stays so; nothing was posted.
\<close>

theorem handler_drains_queue:
  assumes "pq_ready ref (hs_queue st)" "list_all (passed_over w) (pq_items (hs_queue st))"
    and "length (pq_items (hs_queue st)) \<le> n"
  shows "\<exists>st'. handler_run w (Some ref) n st = Inr (Some st') \<and> pq_items (hs_queue st') = [] \<and> hs_posts st' = hs_posts st"
  using assms
proof (induction n arbitrary: st)
  case 0
  then show ?case by simp
next
  case (Suc n)
  show ?case
  proof (cases "pq_items (hs_queue st)")
    case Nil
    then show ?thesis using Suc.IH [of st] Suc.prems by (simp add: idle_turn)
  next
    case (Cons m q)
    then obtain st1 where st1: "handler_turn w (Some ref) st = Inr (Some st1)" "pq_ready ref (hs_queue st1)"
      "pq_items (hs_queue st1) = q" "hs_posts st1 = hs_posts st"
      using passed_over_turn [OF Suc.prems(1) Cons, of w] Suc.prems(2) by auto
    then show ?thesis using Suc.IH [of st1] Suc.prems(2,3) Cons by auto
  qed
qed

section \<open>A concrete run\<close>

text \<open>A signed mail with an archive, and a library that accepts every signature.\<close>

definition sample_field :: "string \<Rightarrow> string \<Rightarrow> hdr" where
  "sample_field k v = \<lparr>hdr_key = \<lparr>bsize = KEY_MAX_LEN, cells = map Some (k @ [NUL])\<rparr>,
     hdr_value = \<lparr>bsize = VALUE_MAX_LEN, cells = map Some (v @ [NUL])\<rparr>\<rparr>"

definition sample_message :: mail where
  "sample_message = \<lparr>ml_headers = [sample_field ''From'' ''a'', sample_field ''Content-Transfer-Encoding'' ''base64'',
       sample_field ''DKIM-Signature''
         ''a=rsa-sha256;c=relaxed/relaxed;d=e;s=m;h=from;bh=h;b=xy''] @ replicate 17 new_hdr,
     ml_header_count = 3, ml_body = \<lparr>bsize = BODY_MAX_LEN, cells = map Some (replicate 40 (CHR ''A'') @ [NUL])\<rparr>\<rparr>"

definition sample_zip :: string where
  "sample_zip = zip_entry (replicate 4 NUL) (replicate 8 NUL) 4 ''r'' [] ''dd''"

definition sample_world :: "(unit, unit) world" where
  "sample_world = \<lparr>wd_crypto = sample_crypto\<lparr>b64 := \<lparr>bio_write_b64 = \<lambda>x. x @ [LF],
       bio_read_b64 = \<lambda>s. if s = ''xy'' then (1, ''s'') else (int (length sample_zip), sample_zip)\<rparr>\<rparr>,
     wd_resolve = \<lambda>name. \<lparr>dn_search_ok = True, dn_parse_ok = True, dn_count_ok = True, dn_record_ok = True,
       dn_is_txt = True, dn_rdata = ''k=rsa;p=AA''\<rparr>,
     wd_inflate_init = True, wd_inflate = \<lambda>s n. ''xml'' @ [NUL], wd_read_memory = \<lambda>doc. Some sample_report,
     wd_content = sample_content, wd_url = ''http://service''\<rparr>"

definition one_queued :: "mail \<Rightarrow> handler_state" where
  "one_queued m = \<lparr>hs_queue = (1, \<lparr>write_offset = 0, read_offset = 0, message_count = 1, message_max_count = 1,
     memory_size = 0, slots = [m], hdr_dirty = False, slot_dirty = [False]\<rparr>), hs_curl = True, hs_posts = []\<rparr>"

definition sample_ref :: pq_ref where "sample_ref = \<lparr>map_len = 40000\<rparr>"

lemma one_queued_ready: "pq_ready sample_ref (hs_queue (one_queued m))" "pq_items (hs_queue (one_queued m)) = [m]"
  by (simp_all add: one_queued_def sample_ref_def pq_ready_def pq_inv_def pq_items_def pq_list_def slot_index_def
      all_mapped_def page_up_def page_size_def slot_addr_def sz_values)

definition sample_fields :: "stringpair list" where
  "sample_fields = [\<lparr>sp_key = ''From'', sp_value = ''a''\<rparr>, \<lparr>sp_key = ''Content-Transfer-Encoding'', sp_value = ''base64''\<rparr>,
     \<lparr>sp_key = ''DKIM-Signature'', sp_value = ''a=rsa-sha256;c=relaxed/relaxed;d=e;s=m;h=from;bh=h;b=xy''\<rparr>]"

definition sample_dh :: dkim_header where
  "sample_dh = new_dkim_header\<lparr>dh_a := sample_array ''rsa-sha256'', dh_c := sample_array ''relaxed/relaxed'',
     dh_d := sample_array ''e'', dh_s := sample_array ''m'', dh_h := sample_array ''from'',
     dh_bh := sample_array ''h'', dh_b := sample_array ''xy''\<rparr>"

definition sample_dr :: dkim_record where
  "sample_dr = \<lparr>dr_k = \<lparr>bsize = DKIM_RECORD_MAX_LEN, cells = map Some (''rsa'' @ [NUL])\<rparr>,
     dr_p = \<lparr>bsize = DKIM_RECORD_MAX_LEN, cells = map Some (''AA'' @ [NUL])\<rparr>\<rparr>"

lemma sample_steps:
  "mail_headers (ml_headers sample_message) (ml_header_count sample_message) = Inr sample_fields"
  "blk_cstr (ml_body sample_message) = Inr (replicate 40 (CHR ''A''))"
  "dns_gettxt (wd_resolve sample_world) name = Some ''k=rsa;p=AA''"
  "blk_cstr (dh_s sample_dh) = Inr ''m''" "blk_cstr (dh_d sample_dh) = Inr ''e''"
  "strncmp_lit (dr_k sample_dr) 0 ''rsa'' = Inr True" "blk_cstr (dr_p sample_dr) = Inr ''AA''"
  by code_simp+

lemma sample_header_parsed: "dkim_get_header sample_fields = Inr (Some sample_dh)"
  by code_simp

lemma sample_record_parsed: "dkim_parse_dns ''k=rsa;p=AA'' = Inr sample_dr"
  by code_simp

lemma sample_accepted:
  "dkim_validate (wd_crypto sample_world) sample_fields (replicate 40 (CHR ''A'')) sample_dh (public_key_text ''AA'') = Inr 1"
  by code_simp

lemma sample_valid: "validate_dkim sample_world sample_message = Inr 1"
proof -
  have wrapped: "base64_wrap ''AA'' = Inr ''AA''" by (simp add: base64_wrap_eq)
  obtain kb n where "sprintf_s (malloc (length ''AA'' + 100)) 0 (public_key_text ''AA'') = Inr (kb, n)"
    using sprintf_s_correct [of "malloc (length ''AA'' + 100)" "[]" "public_key_text ''AA''"]
    by (auto simp: public_key_text_def)
  then show ?thesis using public_key_written [of "''AA''"]
    by (simp add: validate_dkim_def sample_steps sample_header_parsed sample_record_parsed wrapped sample_accepted del: strncmp_lit.simps)
qed

definition sample_zip_block :: block where
  "sample_zip_block = \<lparr>bsize = 40, cells = map Some sample_zip @ replicate 7 (Some NUL)\<rparr>"

lemma sample_decoded: "decode_content sample_world sample_message = Inr (Some (33, sample_zip_block))"
  by code_simp

lemma sample_zip_holds: "blk_holds sample_zip_block sample_zip" "zip_fits (replicate 4 NUL) (replicate 8 NUL) 4 ''r'' [] ''dd''"
  by (simp_all add: blk_holds_def sample_zip_block_def sample_zip_def zip_entry_def zip_fits_def)


lemma sample_report_plain: "plain_report sample_content sample_report" "metadata_first False sample_report"
  by (simp_all add: sample_report_def sample_content_def plain_text_def plain_name_def STRING_BUFFER_CHUNK_SIZE_def)

lemma sample_inflated: "inflated sample_world 4 ''dd'' = ''xml'' @ [NUL]" "wd_inflate_init sample_world"
  "wd_read_memory sample_world ''xml'' = Some sample_report" "wd_content sample_world = sample_content"
  by (simp_all add: inflated_def sample_world_def)

lemma sample_run:
  "\<exists>st' out. handler_run sample_world (Some sample_ref) 1 (one_queued sample_message) = Inr (Some st')
     \<and> hs_posts st' = [(wd_url sample_world, out)]"
proof -
  let ?st = "one_queued sample_message"
  obtain st1 where st1: "hs_curl st1 = hs_curl ?st" "hs_posts st1 = hs_posts ?st"
    and step: "handler_turn sample_world (Some sample_ref) ?st
       = rbind (validate_dkim sample_world sample_message) (\<lambda>ok.
         if ok = 0 then Inr (Some st1)
         else rbind (decode_content sample_world sample_message) (\<lambda>zip. case zip of
             None \<Rightarrow> Inr (Some st1)
           | Some (zipdata_len, zipdata) \<Rightarrow> rbind (process_report sample_world zipdata st1) (\<lambda>st. Inr (Some st))))"
    by (rule handler_turn_some [OF one_queued_ready]) blast
  have "unzip sample_world sample_zip_block = Inr (Some (unterminated (''xml'' @ NUL # [])))"
    using unzip_entry [OF sample_zip_holds(1) [unfolded sample_zip_def] sample_zip_holds(2) sample_inflated(2)]
      sample_inflated(1) by simp
  from report_posted [OF this] show ?thesis
    using step st1 sample_inflated sample_report_plain
    by (simp add: sample_valid sample_decoded one_queued_def no_nul_def)
qed

definition sample_items :: "(string \<times> header_tag \<times> string) list" where
  "sample_items = [([], Tag_a, ''rsa-sha256''), ([], Tag_c, ''relaxed/relaxed''), ([], Tag_d, ''e''), ([], Tag_s, ''m''),
     ([], Tag_h, ''from''), ([], Tag_bh, ''h'')]"

lemma sample_items_values:
  "items_ok header_tags sample_items [] (Some (Tag_b, ''xy''))" "items_ok record_tags [([], Tag_k, ''rsa'')] [] (Some (Tag_p, ''AA''))"
  "sp_value (sample_fields ! 2) = render_params header_name sample_items [] (Some (Tag_b, ''xy''))"
  "canon_value (sp_value (sample_fields ! 2)) = ''a=rsa-sha256;c=relaxed/relaxed;d=e;s=m;h=from;bh=h;'' @ ''b='' @ ''xy''"
  by (simp_all add: items_ok_def gap_ok_def sample_items_def header_tags_def record_tags_def no_nul_def sample_fields_def
      render_params_def canon_value_def wsp_def strip_end_def)

lemma sample_included_fields: "included ''from'' sample_fields = [\<lparr>sp_key = ''From'', sp_value = ''a''\<rparr>]"
  by code_simp

lemma sample_world_crypto:
  "base64_encode_ssl (b64 (wd_crypto sample_world)) (sha256 (wd_crypto sample_world) s) = Inr ''h''"
  "base64_decode_ssl (b64 (wd_crypto sample_world)) ''xy'' = Inr (int (length ''s''), \<lparr>bsize = 2, cells = map Some ''s'' @ [Some NUL]\<rparr>)"
  "fst (rsa_read_public_pem (wd_crypto sample_world) key) = Some ()"
  by (simp_all add: sample_world_def sample_crypto_def base64_encode_ssl_def Let_def cstr_def unbreak_str_eq no_break_def
      base64_decode_ssl_def base64_wrap_eq blk_copy_def rsa_read_public_pem_def)

theorem validate_dkim_correct_witness:
  "validate_dkim sample_world sample_message = Inr (rsa_verify (wd_crypto sample_world) () (sha256 (wd_crypto sample_world)
     (signed_headers ''from'' sample_fields @ ''a=rsa-sha256;c=relaxed/relaxed;d=e;s=m;h=from;bh=h;'' @ ''b='')) ''s'')"
  by (rule validate_dkim_correct [OF sample_steps(1,2) _ sample_items_values(3,1) refl _ _ _ _ _ _ _ _ sample_items_values(2) _ _ _
        sample_world_crypto(3) _ _ sample_world_crypto(1) _ _ _ _ sample_items_values(4) _ _ _ sample_world_crypto(2)])
     (simp_all add: sample_steps(3) sample_items_def param_values_def clip_value_def wsp_def DKIM_VALUE_MAX_LEN_def
       DKIM_RECORD_MAX_LEN_def render_params_def no_nul_def sample_included_fields signed_headers_def canon_field_def
       header_line_def blk_holds_def,
      simp_all add: sample_fields_def canon_value_def wsp_def strip_end_def)

theorem handler_turn_report_witness:
  "\<exists>st' out. handler_turn sample_world (Some sample_ref) (one_queued sample_message) = Inr (Some st')
     \<and> hs_posts st' = [(wd_url sample_world, out)] \<and> render (report_json sample_content sample_report) = ''{'' @ out @ ''}''
     \<and> pq_items (hs_queue st') = []"
proof -
  let ?st = "one_queued sample_message"
  note t = handler_turn_report [OF one_queued_ready sample_valid one_neq_zero sample_decoded
      sample_zip_holds(1) [unfolded sample_zip_def] sample_zip_holds(2)]
  have "hs_curl ?st" "hs_posts ?st = []" by (simp_all add: one_queued_def)
  then show ?thesis using t [OF sample_inflated(2)] sample_inflated sample_report_plain by fastforce
qed

theorem handler_posts_vouched_witness:
  "\<exists>st' out. handler_run sample_world (Some sample_ref) 1 (one_queued sample_message) = Inr (Some st')
    \<and> hs_posts st' = [(wd_url sample_world, out)] \<and> vouched sample_world sample_message
    \<and> posted_from sample_world sample_message out"
proof -
  obtain st' out where st': "handler_run sample_world (Some sample_ref) 1 (one_queued sample_message) = Inr (Some st')"
    "hs_posts st' = [(wd_url sample_world, out)]"
    using sample_run by blast
  have "hs_posts (one_queued sample_message) = []" by (simp add: one_queued_def)
  with handler_posts_vouched [OF one_queued_ready(1) st'(1)] st' show ?thesis by (auto simp: one_queued_ready)
qed

theorem handler_drains_queue_witness:
  "\<exists>st'. handler_run sample_world (Some sample_ref) 2 (one_queued (sample_message\<lparr>ml_header_count := 0\<rparr>)) = Inr (Some st')
    \<and> pq_items (hs_queue st') = [] \<and> hs_posts st' = hs_posts (one_queued (sample_message\<lparr>ml_header_count := 0\<rparr>))"
proof (rule handler_drains_queue [OF one_queued_ready(1)])
  have "validate_dkim sample_world (sample_message\<lparr>ml_header_count := 0\<rparr>) = Inr 0" by code_simp
  then show "list_all (passed_over sample_world) (pq_items (hs_queue (one_queued (sample_message\<lparr>ml_header_count := 0\<rparr>))))"
    by (simp add: one_queued_ready passed_over_def)
qed (simp add: one_queued_ready)

end
