(* ===== verification/Master_Server.thy ===== *)
theory Master_Server
  imports Worker Mail_Handler
begin

text \<open>
  \<^verbatim>\<open>src/master_server.c\<close> and the start of the workers in \<^verbatim>\<open>src/worker.c\<close>: the process that
  reads the configuration, starts a worker and a mail handler for each queue, and accepts the
  connections, which it greets and hands on.

  Files are a map from their names; all queues share one semaphore. What the other system calls
  answer is in the records \<open>worker_os\<close> and \<open>main_os\<close>, and for sockets and events in the
  \<open>kernel\<close> of \<open>Sockets_Events\<close>.
\<close>

section \<open>Starting a worker and its mail handler\<close>

text \<open>
  The shared struct of a worker; the kernel hands it out zeroed. \<open>handler_args\<close> are the arguments
  with which the mail handler is executed in the child.
\<close>

record worker =
  wk_num :: nat
  wk_pid :: int
  wk_queue :: "pq_ref option"
  wk_ev_fd :: int

record handler_args =
  ha_filepath :: string
  ha_message_count :: string
  ha_url :: string

record worker_os =
  wo_shmget :: bool
  wo_shmat :: bool
  wo_pq :: pq_os

type_synonym queue_files = "(string \<Rightarrow> mail path) \<times> nat"

definition worker_init ::
  "worker_os \<Rightarrow> mail \<Rightarrow> config \<Rightarrow> nat \<Rightarrow> queue_files \<Rightarrow> ((worker \<times> handler_args) option \<times> queue_files) res" where
  "worker_init wo zero cfg num st =
     (if \<not> wo_shmget wo then Inr (None, st)
      else if \<not> wo_shmat wo then Inr (None, st)
      else
        rbind (sprintf_s (malloc (length (queue_file cfg) + 10)) 0 (queue_file cfg @ ''-'' @ sprintf_d (int num))) (\<lambda>(fb, _).
        rbind (blk_cstr fb) (\<lambda>filepath.
        case st of (files, sem) \<Rightarrow>
        case pq_init (wo_pq wo) zero (files filepath) (queue_size cfg) sem of (queue, path, sem, ret) \<Rightarrow>
        let st = (files(filepath := path), sem) in
        if ret < 0 then Inr (None, st)
        else
          rbind (sprintf_s (malloc 30) 0 (sprintf_d (queue_size cfg))) (\<lambda>(qb, _).
          rbind (blk_cstr qb) (\<lambda>q_size.
            Inr (Some (\<lparr>wk_num = num, wk_pid = 0, wk_queue = queue, wk_ev_fd = 0\<rparr>,
                       \<lparr>ha_filepath = filepath, ha_message_count = q_size, ha_url = web_service_url cfg\<rparr>), st))))))"

definition worker_free :: "bool \<Rightarrow> worker \<Rightarrow> int" where
  "worker_free shmdt_ok w = (if \<not> shmdt_ok then -1 else 0)"

text \<open>
  The stack of a worker process grows down from the pointer handed to \<open>clone\<close>. The second
  component is how many bytes of the allocated block are below it: the index is a number of
  pointers of eight bytes.
\<close>

definition worker_spawn :: "bool \<Rightarrow> config \<Rightarrow> int \<times> nat" where
  "worker_spawn clone_ok cfg =
     (let child_stack = nat (child_stack_size cfg);
          top = 8 * (8 div 8) in
      (if \<not> clone_ok then -1 else 0, min child_stack top))"

section \<open>The master server\<close>

record master_server =
  ms_running :: int
  ms_config :: config
  ms_workers :: "(worker \<times> handler_args) list"
  ms_worker_map :: "nat list"
  ms_server :: server
  ms_lock_log :: nat

text \<open>The loop over the workers; the result is \<open>None\<close> where one could not be created.\<close>

fun init_workers ::
  "(nat \<Rightarrow> worker_os) \<Rightarrow> mail \<Rightarrow> config \<Rightarrow> nat \<Rightarrow> nat \<Rightarrow> queue_files
   \<Rightarrow> ((worker \<times> handler_args) list option \<times> queue_files) res" where
  "init_workers wos zero cfg i 0 st = Inr (Some [], st)"
| "init_workers wos zero cfg i (Suc n) st =
     rbind (worker_init (wos i) zero cfg i st) (\<lambda>(w, st).
     case w of
       None \<Rightarrow> Inr (None, st)
     | Some w \<Rightarrow>
         rbind (init_workers wos zero cfg (Suc i) n st) (\<lambda>(ws, st).
           Inr (map_option (\<lambda>ws. w # ws) ws, st)))"

text \<open>The index of the worker for each descriptor.\<close>

definition map_workers :: "config \<Rightarrow> nat \<Rightarrow> nat list res" where
  "map_workers cfg n =
     (if max_clients cfg * 2 \<le> 0 then Inr []
      else if max_workers cfg = 0 then Inl Div_By_Zero
      else if n = 0 then Inl Out_Of_Bounds
      else Inr (map (\<lambda>i. nat (int i smod max_workers cfg)) [0..<nat (max_clients cfg * 2)]))"

definition master_server_init ::
  "(nat \<Rightarrow> worker_os) \<Rightarrow> mail \<Rightarrow> config \<Rightarrow> queue_files \<Rightarrow> (master_server option \<times> queue_files) res" where
  "master_server_init wos zero cfg st =
     (let lock_log = lock_init in
      rbind (init_workers wos zero cfg 0 (nat (max_workers cfg)) st) (\<lambda>(workers, st).
      case workers of
        None \<Rightarrow> Inr (None, st)
      | Some ws \<Rightarrow>
          rbind (map_workers cfg (length ws)) (\<lambda>worker_map.
            Inr (Some \<lparr>ms_running = 0, ms_config = cfg, ms_workers = ws, ms_worker_map = worker_map,
                       ms_server = new_server, ms_lock_log = lock_log\<rparr>, st))))"

text \<open>Detaches the workers, whatever that answers, and frees the rest.\<close>

definition master_server_free :: "master_server \<Rightarrow> master_server option" where
  "master_server_free ms = None"

text \<open>
  The signal handler works on the global \<open>master_serv\<close>, which no function sets: it is NULL.
\<close>

definition SIGCHLD :: int where "SIGCHLD = 17"

definition signal_handler :: "int \<Rightarrow> master_server option \<Rightarrow> master_server option res" where
  "signal_handler sig master_serv =
     (if sig = SIGCHLD then Inr master_serv
      else case master_serv of None \<Rightarrow> Inl Null_Deref | Some ms \<Rightarrow> Inr (Some (ms\<lparr>ms_running := 0\<rparr>)))"

section \<open>The start of the program\<close>

text \<open>The options as \<open>getopt\<close> finds them, and what the system calls of \<open>main\<close> answer.\<close>

datatype main_option = Opt_a | Opt_b | Opt_c string | Opt_unknown

record main_os =
  mo_options :: "main_option list"
  mo_config_files :: "string \<Rightarrow> string option"
  mo_workers :: "nat \<Rightarrow> worker_os"
  mo_fork :: int
  mo_setsid_ok :: bool
  mo_chdir_ok :: bool
  mo_chroot_ok :: bool
  mo_kernel :: kernel
  mo_clone_ok :: "nat \<Rightarrow> bool"

text \<open>A start ends with an exit code, or with the server set up and what spawning each worker gave.\<close>

datatype outcome = Exit int | Serving master_server event_handler "sys_call list" "(int \<times> nat) list"

text \<open>\<open>config_file\<close> stays unwritten without the option \<open>-c\<close>; the process exits on an unknown one.\<close>

fun parse_args :: "main_option list \<Rightarrow> string option \<Rightarrow> string option option" where
  "parse_args [] config_file = Some config_file"
| "parse_args (Opt_c file # opts) config_file = parse_args opts (Some file)"
| "parse_args (Opt_unknown # opts) config_file = None"
| "parse_args (x # opts) config_file = parse_args opts config_file"

definition daemonize_exit :: "main_os \<Rightarrow> int option" where
  "daemonize_exit mo = (if mo_fork mo \<noteq> 0 then Some 0 else if \<not> mo_setsid_ok mo then Some 1 else None)"

definition chroot_fails :: "main_os \<Rightarrow> config \<Rightarrow> bool" where
  "chroot_fails mo cfg \<longleftrightarrow> (if chroot cfg \<noteq> [] then \<not> mo_chdir_ok mo \<or> \<not> mo_chroot_ok mo else \<not> mo_chdir_ok mo)"

text \<open>\<open>config_copy\<close> into the configuration of a server writes where its pointer points.\<close>

definition server_config_copy :: "server \<Rightarrow> config \<Rightarrow> server res" where
  "server_config_copy srv cfg =
     (case sv_config srv of
        None \<Rightarrow> Inl Uninit_Read
      | Some dest \<Rightarrow> Inr (srv\<lparr>sv_config := Some (config_copy dest cfg)\<rparr>))"

text \<open>
  From the listening socket on; then the workers are spawned, whatever that answers. \<open>error\<close> is
  called with a text where it takes a status, an error number and a format: it reads arguments
  that nobody passed.
\<close>

definition master_listen :: "main_os \<Rightarrow> master_server \<Rightarrow> event_handler \<Rightarrow> sys_call list \<Rightarrow> outcome res" where
  "master_listen mo ms evhand calls =
     (let srv = ms_server ms in
      case (sv_config srv, sv_socket srv) of
        (Some cfg, Some s) \<Rightarrow>
          (case socket_listen (mo_kernel mo) cfg s calls of (r, s, calls) \<Rightarrow>
           if r = -1 then Inr (Exit 1)
           else case so_fd s of
               None \<Rightarrow> Inl Uninit_Read
             | Some fd \<Rightarrow>
                 (case events_add_event (mo_kernel mo) evhand fd calls of (r, calls) \<Rightarrow>
                  if r = -1 then Inl Uninit_Read
                  else Inr (Serving (ms\<lparr>ms_server := srv\<lparr>sv_socket := Some s\<rparr>\<rparr>) evhand calls
                    (map (\<lambda>i. worker_spawn (mo_clone_ok mo i) (ms_config ms)) [0..<length (ms_workers ms)]))))
      | _ \<Rightarrow> Inl Uninit_Read)"

definition master_main :: "main_os \<Rightarrow> mail \<Rightarrow> queue_files \<Rightarrow> outcome res" where
  "master_main mo zero st =
     (case parse_args (mo_options mo) None of
        None \<Rightarrow> Inr (Exit 1)
      | Some None \<Rightarrow> Inl Uninit_Read
      | Some (Some config_file) \<Rightarrow>
          rbind (config_load (mo_config_files mo config_file) config_init) (\<lambda>(r, cfg).
          if r = -1 then Inr (Exit 1)
          else rbind (master_server_init (mo_workers mo) zero cfg st) (\<lambda>(master_srv, st).
          case master_srv of
            None \<Rightarrow> Inr (Exit 1)
          | Some ms \<Rightarrow>
              let ms = ms\<lparr>ms_running := 1\<rparr> in
              (case (if daemonize cfg \<noteq> 0 then daemonize_exit mo else None) of
                 Some code \<Rightarrow> Inr (Exit code)
               | None \<Rightarrow>
                   if chroot_fails mo cfg then Inr (Exit 1)
                   else (case events_create (mo_kernel mo) (max_clients cfg) [] of
                       None \<Rightarrow> Inr (Exit 1)
                     | Some (evhand, calls) \<Rightarrow>
                         let srv = server_init (ms_server ms) in
                         rbind (server_config_copy srv cfg) (\<lambda>srv.
                           let srv = srv\<lparr>sv_running := Some 1\<rparr> in
                           master_listen mo (ms\<lparr>ms_server := srv\<rparr>) evhand calls))))))"

section \<open>Accepting a connection\<close>

text \<open>
  One event of the main loop, for a server that is set up; \<open>ma_sent\<close> is what was sent to which
  descriptor. The welcome is written through a connection of its own, which is freed again.
\<close>

record accept_state =
  ma_calls :: "sys_call list"
  ma_sent :: "(int \<times> (char option list \<times> int) list) list"

definition temporary_connection :: connection where
  "temporary_connection = connection_start blank_connection"

definition master_accept ::
  "kernel \<Rightarrow> config \<Rightarrow> master_server \<Rightarrow> sock \<Rightarrow> (nat \<Rightarrow> int) \<Rightarrow> mail pq_state \<Rightarrow> accept_state \<Rightarrow> accept_state act" where
  "master_accept os cfg ms s snd_ans q st =
     abind (Some (socket_accept os s (ma_calls st))) (\<lambda>(fd, calls).
     if fd = -1 then Some (Inr (st\<lparr>ma_calls := calls\<rparr>))
     else if fd < 0 \<or> int (length (ms_worker_map ms)) \<le> fd then Some (Inl Out_Of_Bounds)
     else
       let w = fst (ms_workers ms ! (ms_worker_map ms ! nat fd));
           evhand = \<lparr>eh_fd = wk_ev_fd w, eh_array = []\<rparr> in
       case socket_setup os (config_settings (ms_config ms)) fd calls of (r, calls) \<Rightarrow>
       abind (connection_handle cfg (wk_queue w) None snd_ans
                \<lparr>lk_conn = temporary_connection, lk_queue = q, lk_sent = [], lk_closed = 0\<rparr>) (\<lambda>lk.
       let calls = (if lk_closed lk > 0
                    then (case events_del_event os evhand fd calls of (r, calls) \<Rightarrow>
                          snd (sys os (Sys_Close fd) calls))
                    else calls) in
       case events_add_event_2 os evhand fd calls of (r, calls) \<Rightarrow>
       if r = -1 then Some (Inl Uninit_Read)
       else Some (Inr \<lparr>ma_calls = calls, ma_sent = ma_sent st @ [(fd, lk_sent lk)]\<rparr>)))"

section \<open>The main loop and the end\<close>

text \<open>
  The events of one wait from the \<open>i\<close>-th on, with what \<open>send\<close> answers for each. The descriptor of
  the event is read and not used: every event is taken for a connection to accept.
\<close>

fun master_batch ::
  "kernel \<Rightarrow> config \<Rightarrow> master_server \<Rightarrow> sock \<Rightarrow> event_handler \<Rightarrow> (nat \<Rightarrow> nat \<Rightarrow> int) \<Rightarrow> mail pq_state \<Rightarrow> nat \<Rightarrow> nat
   \<Rightarrow> accept_state \<Rightarrow> accept_state act" where
  "master_batch os cfg ms s evhand answers q i 0 st = Some (Inr st)"
| "master_batch os cfg ms s evhand answers q i (Suc n) st =
     abind (Some (events_get_fd evhand i)) (\<lambda>fd.
     abind (master_accept os cfg ms s (answers i) q st)
       (master_batch os cfg ms s evhand answers q (Suc i) n))"

definition master_turn ::
  "kernel \<Rightarrow> config \<Rightarrow> master_server \<Rightarrow> sock \<Rightarrow> mail pq_state \<Rightarrow> epoll_event list option \<times> (nat \<Rightarrow> nat \<Rightarrow> int)
   \<Rightarrow> event_handler \<times> accept_state \<Rightarrow> (event_handler \<times> accept_state) act" where
  "master_turn os cfg ms s q input st =
     (case (input, st) of ((ready, answers), (evhand, st)) \<Rightarrow>
        abind (Some (events_wait (ms_config ms) ready evhand)) (\<lambda>(evhand, nfds).
        abind (master_batch os cfg ms s evhand answers q 0 (nat nfds) st) (\<lambda>st. Some (Inr (evhand, st)))))"

text \<open>
  The end of \<open>main\<close>: it waits for the workers, for ever where one does not end, frees the master
  server and then takes the name of the configuration file out of what it has just freed.
\<close>

definition master_stop :: "(int \<Rightarrow> bool) \<Rightarrow> master_server \<Rightarrow> int act" where
  "master_stop ended ms =
     (if list_all (\<lambda>w. ended (wk_pid (fst w))) (ms_workers ms)
      then (case master_server_free ms of
              None \<Rightarrow> Some (Inl Use_After_Free)
            | Some ms \<Rightarrow> Some (Inr 0))
      else None)"

text \<open>The loop for the given inputs; the result has no exit code while the server is running.\<close>

fun master_loop ::
  "kernel \<Rightarrow> config \<Rightarrow> (int \<Rightarrow> bool) \<Rightarrow> master_server \<Rightarrow> sock \<Rightarrow> mail pq_state
   \<Rightarrow> (epoll_event list option \<times> (nat \<Rightarrow> nat \<Rightarrow> int)) list \<Rightarrow> event_handler \<times> accept_state
   \<Rightarrow> ((event_handler \<times> accept_state) \<times> int option) act" where
  "master_loop os cfg ended ms s q [] st = Some (Inr (st, None))"
| "master_loop os cfg ended ms s q (x # xs) st =
     (if ms_running ms \<noteq> 0
      then abind (master_turn os cfg ms s q x st) (master_loop os cfg ended ms s q xs)
      else abind (master_stop ended ms) (\<lambda>code. Some (Inr (st, Some code))))"

text \<open>A worker that leaves its loop frees its events, detaches its struct and exits.\<close>

definition worker_stop :: "bool \<Rightarrow> config \<Rightarrow> event_handler \<Rightarrow> worker \<Rightarrow> int res" where
  "worker_stop shmdt_ok cfg evhand w =
     rbind (events_free evhand (max_clients cfg)) (\<lambda>r. case worker_free shmdt_ok w of _ \<Rightarrow> Inr 0)"

section \<open>Properties\<close>

lemma signal_handler_faults: "sig \<noteq> SIGCHLD \<Longrightarrow> signal_handler sig None = Inl Null_Deref"
  by (simp add: signal_handler_def)

lemma master_stop_faults: "master_stop ended ms \<noteq> Some (Inr code)"
  by (simp add: master_stop_def master_server_free_def)

lemma master_server_init_server:
  "master_server_init wos zero cfg st = Inr (Some ms, st') \<Longrightarrow> ms_server ms = new_server"
  by (auto simp: master_server_init_def Let_def rbind_eq_Inr_iff split: option.splits)

text \<open>What is left to do once the pointer leads somewhere: the server listens, and is set up.\<close>

lemma listen_serves:
  assumes "\<forall>calls. 0 \<le> mo_kernel mo calls" "sv_config (ms_server ms) = Some scfg" "sv_socket (ms_server ms) = Some s"
  shows "\<exists>ms' fd calls' spawned. master_listen mo ms evhand calls = Inr (Serving ms' evhand calls' spawned)
    \<and> map_option so_fd (sv_socket (ms_server ms')) = Some (Some fd) \<and> last calls' = Sys_Epoll_Add (eh_fd evhand) fd EPOLLIN
    \<and> length spawned = length (ms_workers ms)"
proof -
  have ok: "mo_kernel mo cs \<noteq> -1" "\<not> mo_kernel mo cs < 0" for cs
    using assms(1) [rule_format, of cs] by auto
  obtain fd s' calls1 where listen: "socket_listen (mo_kernel mo) scfg s calls = (0, s', calls1)" "so_fd s' = Some fd"
    by (simp add: socket_listen_def socket_listen_setup_def socket_setnonblocking_def socket_setquickack_def sys_def Let_def ok)
  have "events_add_event (mo_kernel mo) evhand fd calls1 = (0, calls1 @ [Sys_Epoll_Add (eh_fd evhand) fd EPOLLIN])"
    by (simp add: events_add_event_def sys_def ok)
  then show ?thesis using assms(2,3) listen by (simp add: master_listen_def Let_def)
qed

text \<open>
  C36. The start of the server where everything it asks for succeeds: the options name a
  configuration file, it is loaded, the workers and their queues are created, the process is not
  put into the background or its child goes on, and the kernel refuses nothing. Then \<open>main\<close> copies the configuration
  through \<open>srv->config\<close>, a pointer that nothing has set: a fault, of which the language does not say
  what becomes. And this pointer is all that is missing: led anywhere, the copy goes through, and the
  rest of the start ends in a server that listens on a socket registered with its events, with
  every worker spawned.
\<close>

theorem start_writes_unset_pointer:
  assumes "parse_args (mo_options mo) None = Some (Some cf)" "config_load (mo_config_files mo cf) config_init = Inr (0, cfg)"
    and "master_server_init (mo_workers mo) zero cfg st = Inr (Some ms, st')"
    and "daemonize cfg = 0 \<or> daemonize_exit mo = None" "\<not> chroot_fails mo cfg" "\<forall>calls. 0 \<le> mo_kernel mo calls"
  shows "master_main mo zero st = Inl Uninit_Read
    \<and> sv_config (server_init (ms_server ms)) = None
    \<and> (\<forall>dest. \<exists>srv evhand calls ms' fd calls' spawned.
         server_config_copy ((server_init (ms_server ms))\<lparr>sv_config := Some dest\<rparr>) cfg = Inr srv
       \<and> events_create (mo_kernel mo) (max_clients cfg) [] = Some (evhand, calls)
       \<and> master_listen mo (ms\<lparr>ms_running := 1, ms_server := srv\<lparr>sv_running := Some 1\<rparr>\<rparr>) evhand calls
           = Inr (Serving ms' evhand calls' spawned)
       \<and> map_option so_fd (sv_socket (ms_server ms')) = Some (Some fd) \<and> last calls' = Sys_Epoll_Add (eh_fd evhand) fd EPOLLIN
       \<and> length spawned = length (ms_workers ms))"
proof -
  have ok: "mo_kernel mo cs \<noteq> -1" for cs using assms(6) [rule_format, of cs] by auto
  obtain evhand calls where events: "events_create (mo_kernel mo) (max_clients cfg) [] = Some (evhand, calls)"
    by (simp add: events_create_def sys_def ok Let_def)
  have unset: "sv_config (server_init (ms_server ms)) = None"
    by (simp add: master_server_init_server [OF assms(3)] server_init_def new_server_def)
  have "master_main mo zero st = Inl Uninit_Read"
    using assms(1-5) events unset
    by (auto simp: master_main_def Let_def server_config_copy_def split: option.splits)
  moreover have "\<exists>ms' fd calls' spawned.
      master_listen mo (ms\<lparr>ms_running := 1, ms_server := srv\<lparr>sv_running := Some 1\<rparr>\<rparr>) evhand calls
           = Inr (Serving ms' evhand calls' spawned)
       \<and> map_option so_fd (sv_socket (ms_server ms')) = Some (Some fd) \<and> last calls' = Sys_Epoll_Add (eh_fd evhand) fd EPOLLIN
       \<and> length spawned = length (ms_workers ms)"
    if "server_config_copy ((server_init (ms_server ms))\<lparr>sv_config := Some dest\<rparr>) cfg = Inr srv" for srv dest
    using listen_serves [OF assms(6), of "ms\<lparr>ms_running := 1, ms_server := srv\<lparr>sv_running := Some 1\<rparr>\<rparr>"] that
    by (auto simp: server_config_copy_def server_init_def)
  ultimately show ?thesis using unset events by (fastforce simp: server_config_copy_def)
qed

text \<open>With the default size of the queue its file is never made or opened, so that no worker starts.\<close>

lemma default_queue_size_fails:
  assumes "\<And>f. path = File f \<Longrightarrow> i32 (file_len f) \<noteq> -1"
  shows "\<exists>path' sem' ret. pq_init os zero path (queue_size config_init) sem = (None, path', sem', ret) \<and> ret < 0"
proof -
  have n: "queue_size config_init = 100000" by (simp add: config_init_def config_load_default_def)
  have bytes: "u64 (u64 100000 * sz_mail) = 3104400000" "u64 (sz_mail * u64 100000) = 3104400000"
    "i64 (u64 (sizeof_shared + u64 (i32 3104400000))) = - 1190567272"
    by (simp_all add: u64_def i32_def i64_def sz_values)
  show ?thesis
  proof (cases path)
    case (File f)
    let ?x = "i32 (file_len f)"
    have x: "- (2 ^ 31) \<le> ?x" "?x < 2 ^ 31" using i32_range by auto
    have "u64 ?x = (if ?x < 0 then ?x + 2 ^ 64 else ?x)"
    proof (cases "?x < 0")
      case True
      have "?x mod 2 ^ 64 = (?x + 2 ^ 64) mod 2 ^ 64" by simp
      also have "\<dots> = ?x + 2 ^ 64" by (rule mod_pos_pos_trivial) (use x(1) True in simp_all)
      finally show ?thesis using True by (simp add: u64_def)
    qed (use x(2) in \<open>simp add: u64_id\<close>)
    moreover have "u64 (sizeof_shared + 3104400000) = 3104400024" by (simp add: u64_def sizeof_shared_def)
    ultimately have "u64 ?x \<noteq> u64 (sizeof_shared + 3104400000)" using x by (simp split: if_splits)
    then show ?thesis using File assms [OF File]
      by (simp add: n pq_init_def file_exist_def pq_open_def file_size_def bytes Let_def pq_errors)
  qed (simp_all add: n pq_init_def file_exist_def bytes Let_def pq_errors pq_get_mapped_memory_def)
qed

lemma sprintf_nul:
  assumes "no_nul t" "length t + 1 \<le> n"
  shows "\<exists>b k. sprintf_s (malloc n) 0 t = Inr (b, k) \<and> blk_cstr b = Inr t"
proof -
  obtain b where "sprintf_s (malloc n) 0 t = Inr (b, length t)" "blk_holds b (t @ [NUL])"
    using sprintf_s_correct [of "malloc n" "[]" t] assms(2) by auto
  then show ?thesis using blk_cstr_holds assms(1) by blast
qed

lemma sprintf_d_no_nul: "no_nul (sprintf_d x)"
  using sprintf_d_chars [of NUL x] by (auto simp: no_nul_iff isdigit_def)

lemma worker_created:
  assumes os: "wo_shmget wo" "wo_shmat wo" "os_all_ok (wo_pq wo)"
    and size: "0 < queue_size cfg" "queue_size cfg \<le> max_queue_size"
    and name: "no_nul (queue_file cfg)" "num < 10 ^ 8" "files (queue_file cfg @ ''-'' @ sprintf_d (int num)) = Missing"
  shows "worker_init wo zero cfg num (files, sem) = Inr (Some
      (\<lparr>wk_num = num, wk_pid = 0, wk_queue = Some \<lparr>map_len = slot_addr (queue_size cfg)\<rparr>, wk_ev_fd = 0\<rparr>,
       \<lparr>ha_filepath = queue_file cfg @ ''-'' @ sprintf_d (int num), ha_message_count = sprintf_d (queue_size cfg),
        ha_url = web_service_url cfg\<rparr>),
      (files(queue_file cfg @ ''-'' @ sprintf_d (int num) :=
         File \<lparr>file_len = slot_addr (queue_size cfg), file_data = fresh_shared zero (queue_size cfg)\<rparr>), 1))"
proof -
  let ?n = "queue_size cfg" and ?path = "queue_file cfg @ ''-'' @ sprintf_d (int num)"
  have "length (sprintf_d (int num)) \<le> 8" using show_nat_length [OF name(2)] by (simp add: sprintf_d_def)
  then obtain fb k where fb: "sprintf_s (malloc (length (queue_file cfg) + 10)) 0 ?path = Inr (fb, k)" "blk_cstr fb = Inr ?path"
    using sprintf_nul [of ?path "length (queue_file cfg) + 10"] name(1) sprintf_d_no_nul by auto
  have n32: "i32 ?n = ?n" using size by (simp add: i32_id max_queue_size_def)
  obtain qb l where qb: "sprintf_s (malloc 30) 0 (sprintf_d ?n) = Inr (qb, l)" "blk_cstr qb = Inr (sprintf_d ?n)"
    using sprintf_nul [of "sprintf_d ?n" 30] sprintf_d_no_nul sprintf_d_length [of ?n] n32 by auto
  have "pq_init (wo_pq wo) zero (files ?path) ?n sem
      = (Some \<lparr>map_len = slot_addr ?n\<rparr>, File \<lparr>file_len = slot_addr ?n, file_data = fresh_shared zero ?n\<rparr>, 1, 0)"
    using pq_init_fresh [OF size os(3)] name(3) by simp
  then show ?thesis using os(1,2) fb qb by (simp add: worker_init_def Let_def)
qed

text \<open>
  C38. A worker and the mail handler that it starts meet in one queue. For a new file and a size that
  fits, the handler's arguments name the worker's file and, read back, its size; the handler
  opens it, and starts with the empty queue into which the worker enqueues. (Its own mapping is
  shorter than the file by the header.)
\<close>

theorem handler_shares_queue:
  assumes os: "wo_shmget wo" "wo_shmat wo" "os_all_ok (wo_pq wo)" "os_all_ok handler_os"
    and size: "0 < queue_size cfg" "queue_size cfg \<le> max_queue_size"
    and name: "no_nul (queue_file cfg)" "num < 10 ^ 8" "files (queue_file cfg @ ''-'' @ sprintf_d (int num)) = Missing"
  shows "\<exists>w args files' ref ref' hs. worker_init wo zero cfg num (files, sem) = Inr (Some (w, args), (files', 1))
    \<and> handler_main handler_os zero (files' (ha_filepath args)) (atoi (ha_message_count args)) 1 True
        = Inr (Some ref', files' (ha_filepath args), hs)
    \<and> wk_queue w = Some ref \<and> pq_ready ref (hs_queue hs) \<and> pq_items (hs_queue hs) = []
    \<and> pq_cap (hs_queue hs) = nat (queue_size cfg) \<and> map_len ref' = map_len ref - sizeof_shared"
proof -
  let ?n = "queue_size cfg" and ?path = "queue_file cfg @ ''-'' @ sprintf_d (int num)"
  have "pq_init handler_os zero (File \<lparr>file_len = slot_addr ?n, file_data = fresh_shared zero ?n\<rparr>) ?n 1
      = (Some \<lparr>map_len = ?n * sz_mail\<rparr>, File \<lparr>file_len = slot_addr ?n, file_data = fresh_shared zero ?n\<rparr>, 1, 0)"
    using pq_init_reopen [OF size os(4)] by simp
  moreover have "atoi (sprintf_d ?n) = ?n" using size by (intro atoi_sprintf_d) (simp_all add: max_queue_size_def)
  ultimately show ?thesis using worker_created [where files = files and cfg = cfg, OF os(1-3) size name] fresh_shared_inv [OF size(1), of zero]
    by (auto simp: handler_main_def Let_def pq_ready_def pq_items_def pq_cap_def slot_addr_def)
qed

text \<open>Eight bytes of every stack are inside the block that was allocated for it.\<close>

lemma worker_spawn_stack: "8 \<le> child_stack_size cfg \<Longrightarrow> snd (worker_spawn clone_ok cfg) = 8"
  by (simp add: worker_spawn_def)

section \<open>The welcome\<close>

lemma welcome_handled:
  fixes q :: "mail pq_state"
  assumes "int (length (concat (welcome_pieces cfg))) \<le> write_buffer_size cfg"
  shows "\<exists>lk. connection_handle cfg ref rd ans
      \<lparr>lk_conn = temporary_connection, lk_queue = q, lk_sent = [], lk_closed = 0\<rparr> = Some (Inr lk)
    \<and> lk_sent lk = [(map Some (concat (welcome_pieces cfg)), ans 0)] \<and> lk_queue lk = q
    \<and> lk_closed lk = (if ans 0 = -1 then 1 else 0)"
proof -
  obtain resp where resp: "app_list response_append response_init (welcome_pieces cfg) = Inr resp"
    "response_holds resp (concat (welcome_pieces cfg))"
    using resp_buffer.app_list_holds [OF resp_buffer.holds_new, of "welcome_pieces cfg"] by (auto simp: list_all_iff)
  let ?conn = "temporary_connection\<lparr>cn_response := Some resp, cn_status := CONN_WRITING\<rparr>"
  have start: "start_stage cfg temporary_connection = Inr ?conn"
    using resp(1) by (simp add: start_stage_def temporary_connection_def connection_start_def)
  have "cn_request ?conn = Some request_init" "rq_quit request_init = False"
    by (simp_all add: temporary_connection_def connection_start_def request_init_def)
  then show ?thesis
    by (cases "ans 0 = -1")
       (simp_all add: connection_handle_def start read_stage_def write_stage_def send_response_small [OF resp(2) assms]
          close_stage_def Let_def connection_reset_def)
qed

text \<open>
  A new connection is greeted once, in one piece, gets the configured options and goes to the
  worker whose number is its descriptor modulo the number of workers, whose \<open>epoll\<close> it is added
  to; no queue is touched. Where the welcome cannot be sent, the descriptor is closed and the
  server still adds it: where the kernel refuses that, the server ends with a call of \<open>error\<close>.
\<close>

lemma accept_greets:
  assumes fd: "so_fd s = Some lfd" "os (ma_calls st @ [Sys_Accept lfd]) = int fd"
    and workers: "map_workers (ms_config ms) (length (ms_workers ms)) = Inr (ms_worker_map ms)" "0 < max_workers (ms_config ms)"
      "int fd < 2 * max_clients (ms_config ms)"
    and short: "int (length (concat (welcome_pieces cfg))) \<le> write_buffer_size cfg"
    and ev_def: "ev = wk_ev_fd (fst (ms_workers ms ! (fd mod nat (max_workers (ms_config ms)))))"
    and calls_def: "calls = snd (socket_setup os (config_settings (ms_config ms)) (int fd) (ma_calls st @ [Sys_Accept lfd]))
      @ (if ans 0 = -1 then [Sys_Epoll_Del ev (int fd), Sys_Close (int fd)] else [])
      @ [Sys_Epoll_Add ev (int fd) (EPOLLIN OR EPOLLET OR EPOLLRDHUP)]"
  shows "master_accept os cfg ms s ans q st =
    Some (if os calls = -1 then Inl Uninit_Read
      else Inr \<lparr>ma_calls = calls,
        ma_sent = ma_sent st @ [(int fd, [(map Some (concat (welcome_pieces cfg)), ans 0)])]\<rparr>)"
proof -
  let ?n = "max_workers (ms_config ms)"
  have map: "ms_worker_map ms = map (\<lambda>i. nat (int i smod ?n)) [0..<nat (max_clients (ms_config ms) * 2)]"
    using workers by (auto simp: map_workers_def split: if_splits)
  have in_map: "int fd < int (length (ms_worker_map ms))" using workers(3) by (simp add: map zless_nat_eq_int_zless)
  have "nat (int fd smod ?n) = fd mod nat ?n"
    using workers(2) by (simp add: signed_modulo_int_def nat_mod_distrib sgn_if abs_if)
  moreover have "fd < nat (max_clients (ms_config ms) * 2)" using workers(3) by (simp add: zless_nat_eq_int_zless)
  ultimately have worker: "ms_worker_map ms ! fd = fd mod nat ?n" by (simp add: map)
  obtain r scalls where options: "socket_setup os (config_settings (ms_config ms)) (int fd) (ma_calls st @ [Sys_Accept lfd]) = (r, scalls)"
    by (cases "socket_setup os (config_settings (ms_config ms)) (int fd) (ma_calls st @ [Sys_Accept lfd])")
  obtain lk where lk: "connection_handle cfg (wk_queue (fst (ms_workers ms ! (fd mod nat ?n)))) None ans
      \<lparr>lk_conn = temporary_connection, lk_queue = q, lk_sent = [], lk_closed = 0\<rparr> = Some (Inr lk)"
    "lk_sent lk = [(map Some (concat (welcome_pieces cfg)), ans 0)]" "lk_closed lk = (if ans 0 = -1 then 1 else 0)"
    using welcome_handled [OF short, of "wk_queue (fst (ms_workers ms ! (fd mod nat ?n)))" None ans q] by blast
  show ?thesis
    using in_map
    by (cases "ans 0 = -1")
       (simp_all add: master_accept_def socket_accept_def fd sys_def worker Let_def options lk
          events_del_event_def events_add_event_2_def calls_def ev_def)
qed

section \<open>Runs of the main loop\<close>

text \<open>
  The registrations in a log of calls; the \<open>epoll\<close> of the worker for a descriptor; and the relation
  of a state to a later one: what was sent since is one welcome for each descriptor that was
  registered, with its worker.
\<close>

fun registered :: "sys_call list \<Rightarrow> (int \<times> int) list" where
  "registered [] = []"
| "registered (Sys_Epoll_Add ev fd flags # calls) = (ev, fd) # registered calls"
| "registered (c # calls) = registered calls"

definition worker_ev :: "master_server \<Rightarrow> int \<Rightarrow> int" where
  "worker_ev ms fd = wk_ev_fd (fst (ms_workers ms ! nat (fd mod max_workers (ms_config ms))))"

definition greeting :: "config \<Rightarrow> (char option list \<times> int) list \<Rightarrow> bool" where
  "greeting cfg sent \<longleftrightarrow> (\<exists>r. sent = [(map Some (concat (welcome_pieces cfg)), r)])"

definition greeted_since :: "config \<Rightarrow> master_server \<Rightarrow> accept_state \<Rightarrow> accept_state \<Rightarrow> bool" where
  "greeted_since cfg ms st st' \<longleftrightarrow> (\<exists>calls gs. ma_calls st' = ma_calls st @ calls \<and> ma_sent st' = ma_sent st @ gs
     \<and> registered calls = map (\<lambda>g. (worker_ev ms (fst g), fst g)) gs \<and> list_all (\<lambda>g. greeting cfg (snd g)) gs)"

lemma registered_append [simp]: "registered (cs @ ds) = registered cs @ registered ds"
  by (induction cs rule: registered.induct) simp_all

lemma greeted_since_refl: "greeted_since cfg ms st st"
  by (simp add: greeted_since_def)

lemma greeted_since_trans:
  assumes "greeted_since cfg ms st1 st2" "greeted_since cfg ms st2 st3"
  shows "greeted_since cfg ms st1 st3"
proof -
  obtain c1 g1 c2 g2 where "ma_calls st2 = ma_calls st1 @ c1" "ma_sent st2 = ma_sent st1 @ g1"
    "registered c1 = map (\<lambda>g. (worker_ev ms (fst g), fst g)) g1" "list_all (\<lambda>g. greeting cfg (snd g)) g1"
    "ma_calls st3 = ma_calls st2 @ c2" "ma_sent st3 = ma_sent st2 @ g2"
    "registered c2 = map (\<lambda>g. (worker_ev ms (fst g), fst g)) g2" "list_all (\<lambda>g. greeting cfg (snd g)) g2"
    using assms unfolding greeted_since_def by blast
  then show ?thesis unfolding greeted_since_def by (intro exI [of _ "c1 @ c2"] exI [of _ "g1 @ g2"]) simp
qed

lemma socket_setup_registers: "\<exists>opts. snd (socket_setup os c fd calls) = calls @ opts \<and> registered opts = []"
  by (simp add: socket_setup_def sys_def)

lemma accept_since:
  assumes run: "master_accept os cfg ms s ans q st = Some (Inr st')"
    and workers: "map_workers (ms_config ms) (length (ms_workers ms)) = Inr (ms_worker_map ms)" "0 < max_workers (ms_config ms)"
    and short: "int (length (concat (welcome_pieces cfg))) \<le> write_buffer_size cfg"
  shows "greeted_since cfg ms st st'"
proof -
  obtain lfd where lfd: "so_fd s = Some lfd"
    using run by (cases "so_fd s") (auto simp: master_accept_def socket_accept_def)
  let ?fd = "os (ma_calls st @ [Sys_Accept lfd])"
  show ?thesis
  proof (cases "?fd = -1")
    case True
    then have "st' = st\<lparr>ma_calls := ma_calls st @ [Sys_Accept lfd]\<rparr>"
      using run lfd by (simp add: master_accept_def socket_accept_def sys_def)
    then show ?thesis by (simp add: greeted_since_def)
  next
    case False
    then have range: "0 \<le> ?fd" "?fd < int (length (ms_worker_map ms))"
      using run lfd by (auto simp: master_accept_def socket_accept_def sys_def split: if_splits)
    then obtain fd where fd: "?fd = int fd" using nonneg_int_cases by blast
    have "length (ms_worker_map ms) \<le> nat (max_clients (ms_config ms) * 2)"
      using workers(1) by (auto simp: map_workers_def dest: arg_cong [where f = length] split: if_splits)
    then have max: "int fd < 2 * max_clients (ms_config ms)" using range fd by simp
    obtain opts where opts: "snd (socket_setup os (config_settings (ms_config ms)) (int fd) (ma_calls st @ [Sys_Accept lfd]))
        = (ma_calls st @ [Sys_Accept lfd]) @ opts" "registered opts = []"
      using socket_setup_registers by blast
    have ev: "wk_ev_fd (fst (ms_workers ms ! (fd mod nat (max_workers (ms_config ms))))) = worker_ev ms (int fd)"
      using workers(2) by (simp add: worker_ev_def nat_mod_distrib)
    have "st' = \<lparr>ma_calls = snd (socket_setup os (config_settings (ms_config ms)) (int fd) (ma_calls st @ [Sys_Accept lfd]))
        @ (if ans 0 = -1 then [Sys_Epoll_Del (worker_ev ms (int fd)) (int fd), Sys_Close (int fd)] else [])
        @ [Sys_Epoll_Add (worker_ev ms (int fd)) (int fd) (EPOLLIN OR EPOLLET OR EPOLLRDHUP)],
      ma_sent = ma_sent st @ [(int fd, [(map Some (concat (welcome_pieces cfg)), ans 0)])]\<rparr>"
      using run unfolding accept_greets [where os = os and st = st and ans = ans, OF lfd fd workers max short refl refl] ev by (simp split: if_splits)
    then show ?thesis using opts by (auto simp: greeted_since_def greeting_def)
  qed
qed

lemma batch_since:
  assumes workers: "map_workers (ms_config ms) (length (ms_workers ms)) = Inr (ms_worker_map ms)" "0 < max_workers (ms_config ms)"
    and short: "int (length (concat (welcome_pieces cfg))) \<le> write_buffer_size cfg"
  shows "master_batch os cfg ms s evhand answers q i n st = Some (Inr st') \<Longrightarrow> greeted_since cfg ms st st'"
proof (induction n arbitrary: i st)
  case (Suc n)
  then obtain st1 where "master_accept os cfg ms s (answers i) q st = Some (Inr st1)"
    "master_batch os cfg ms s evhand answers q (Suc i) n st1 = Some (Inr st')"
    by (auto simp: abind_eq_value_iff)
  then show ?case using accept_since [OF _ workers short] Suc.IH greeted_since_trans by blast
qed (simp add: greeted_since_refl)

text \<open>
  C37. The main loop of a server that is set up, for any events and whatever the kernel answers: it
  never comes to its end by itself, and as long as it does not fault it sends nothing but one
  welcome, in one piece, to each connection that it registers, and registers each with the
  worker whose number is the descriptor modulo the number of workers.
\<close>

theorem master_loop_greets:
  assumes "master_loop os cfg ended ms s q xs (evhand, st) = Some (Inr ((evhand', st'), code))" "ms_running ms \<noteq> 0"
    and "map_workers (ms_config ms) (length (ms_workers ms)) = Inr (ms_worker_map ms)" "0 < max_workers (ms_config ms)"
    and "int (length (concat (welcome_pieces cfg))) \<le> write_buffer_size cfg"
  shows "code = None \<and> (\<exists>calls gs. ma_calls st' = ma_calls st @ calls \<and> ma_sent st' = ma_sent st @ gs
    \<and> registered calls = map (\<lambda>g. (worker_ev ms (fst g), fst g)) gs \<and> list_all (\<lambda>g. greeting cfg (snd g)) gs)"
proof -
  have "code = None \<and> greeted_since cfg ms st st'"
    using assms(1)
  proof (induction xs arbitrary: evhand st)
    case Nil
    then show ?case by (simp add: greeted_since_refl)
  next
    case (Cons x xs)
    obtain ready answers where x: "x = (ready, answers)" by (cases x)
    obtain e n e1 st1 where turn: "events_wait (ms_config ms) ready evhand = Inr (e, n)"
      "master_batch os cfg ms s e answers q 0 (nat n) st = Some (Inr st1)"
      "master_loop os cfg ended ms s q xs (e1, st1) = Some (Inr ((evhand', st'), code))"
      using Cons.prems assms(2) by (auto simp: x master_turn_def abind_eq_value_iff)
    show ?case
      using Cons.IH [OF turn(3)] batch_since [OF assms(3-5) turn(2)] greeted_since_trans by blast
  qed
  then show ?thesis by (simp add: greeted_since_def)
qed

section \<open>Concrete runs\<close>

definition small_config :: config where
  "small_config = config_init\<lparr>daemonize := 0, max_clients := 4, queue_size := 10\<rparr>"

definition small_config_text :: string where
  "small_config_text = ''daemonize = 0'' @ [LF] @ ''max-clients = 4'' @ [LF] @ ''queue-size = 10'' @ [LF]"

definition willing :: main_os where
  "willing = \<lparr>mo_options = [Opt_c ''dmarc.conf''], mo_config_files = \<lambda>f. Some small_config_text,
     mo_workers = \<lambda>i. \<lparr>wo_shmget = True, wo_shmat = True, wo_pq = os_good\<rparr>, mo_fork = 0, mo_setsid_ok = True,
     mo_chdir_ok = True, mo_chroot_ok = True, mo_kernel = \<lambda>calls. 3, mo_clone_ok = \<lambda>i. True\<rparr>"

lemma small_config_loads: "config_load (Some small_config_text) config_init = Inr (0, small_config)"
  by code_simp

lemma small_config_values:
  "max_workers small_config = 1" "max_clients small_config = 4" "queue_size small_config = 10" "daemonize small_config = 0"
  "chroot small_config = []" "queue_file small_config = ''/tmp/rest-queue''"
  by (simp_all add: small_config_def config_init_def config_load_default_def)

lemma small_server_starts:
  "\<exists>ms st. master_server_init (mo_workers willing) new_mail small_config (\<lambda>p. Missing, 0) = Inr (Some ms, st)
     \<and> length (ms_workers ms) = 1"
proof -
  obtain w st where "worker_init (mo_workers willing 0) new_mail small_config 0 (\<lambda>p. Missing, 0) = Inr (Some w, st)"
    using worker_created [of "mo_workers willing 0" small_config 0 "\<lambda>p. Missing" new_mail 0] os_good_ok
    by (auto simp: willing_def small_config_values max_queue_size_def no_nul_def)
  then show ?thesis
    by (simp add: master_server_init_def small_config_values map_workers_def Let_def signed_modulo_int_def)
qed

theorem start_writes_unset_pointer_witness:
  "\<exists>ms st. master_server_init (mo_workers willing) new_mail small_config (\<lambda>p. Missing, 0) = Inr (Some ms, st)
    \<and> length (ms_workers ms) = 1 \<and> sv_config (server_init (ms_server ms)) = None
    \<and> master_main willing new_mail (\<lambda>p. Missing, 0) = Inl Uninit_Read"
proof -
  obtain ms st where ms: "master_server_init (mo_workers willing) new_mail small_config (\<lambda>p. Missing, 0) = Inr (Some ms, st)"
    "length (ms_workers ms) = 1"
    using small_server_starts by blast
  have "parse_args (mo_options willing) None = Some (Some ''dmarc.conf'')"
    "config_load (mo_config_files willing ''dmarc.conf'') config_init = Inr (0, small_config)"
    by (simp_all add: willing_def small_config_loads)
  from start_writes_unset_pointer [OF this ms(1)] ms show ?thesis
    by (simp add: small_config_values chroot_fails_def willing_def)
qed

theorem handler_shares_queue_witness:
  "\<exists>w args files' ref ref' hs.
    worker_init \<lparr>wo_shmget = True, wo_shmat = True, wo_pq = os_good\<rparr> new_mail (config_init\<lparr>queue_size := 10\<rparr>) 0 (\<lambda>p. Missing, 0)
      = Inr (Some (w, args), (files', 1))
    \<and> handler_main os_good new_mail (files' (ha_filepath args)) (atoi (ha_message_count args)) 1 True
        = Inr (Some ref', files' (ha_filepath args), hs)
    \<and> wk_queue w = Some ref \<and> pq_ready ref (hs_queue hs) \<and> pq_items (hs_queue hs) = []
    \<and> pq_cap (hs_queue hs) = nat (queue_size (config_init\<lparr>queue_size := 10\<rparr>)) \<and> map_len ref' = map_len ref - sizeof_shared"
  by (rule handler_shares_queue)
     (simp_all add: os_good_ok max_queue_size_def config_init_def config_load_default_def no_nul_def)

definition sample_master :: master_server where
  "sample_master = \<lparr>ms_running = 1, ms_config = four_clients,
     ms_workers = [(\<lparr>wk_num = 0, wk_pid = 1, wk_queue = None, wk_ev_fd = 7\<rparr>, \<lparr>ha_filepath = [], ha_message_count = [], ha_url = []\<rparr>)],
     ms_worker_map = replicate 8 0, ms_server = new_server, ms_lock_log = 1\<rparr>"

lemma sample_map: "map_workers (ms_config sample_master) (length (ms_workers sample_master)) = Inr (ms_worker_map sample_master)"
  by (simp add: map_workers_def sample_master_def four_clients_def config_init_def config_load_default_def
      map_replicate_const comp_def signed_modulo_int_def)

lemma sample_accept:
  "master_accept (\<lambda>calls. 5) four_clients sample_master (socket_init\<lparr>so_fd := Some 3\<rparr>) (\<lambda>k. 40) (1, fresh_shared new_mail 1)
      \<lparr>ma_calls = [], ma_sent = []\<rparr>
   = Some (Inr \<lparr>ma_calls = [Sys_Accept 3, Sys_Setsockopt 5 TCP_NODELAY (Some 1), Sys_Setsockopt 5 SO_SNDBUF (Some 131072),
        Sys_Setsockopt 5 SO_RCVBUF (Some 4046), Sys_Epoll_Add 7 5 (EPOLLIN OR EPOLLET OR EPOLLRDHUP)],
      ma_sent = [(5, [(map Some (concat (welcome_pieces four_clients)), 40)])]\<rparr>)"
proof -
  let ?st = "\<lparr>ma_calls = [], ma_sent = []\<rparr>"
  have "master_accept (\<lambda>calls. 5) four_clients sample_master (socket_init\<lparr>so_fd := Some 3\<rparr>) (\<lambda>k. 40) (1, fresh_shared new_mail 1) ?st
    = Some (if (5 :: int) = -1 then Inl Uninit_Read
      else Inr \<lparr>ma_calls = snd (socket_setup (\<lambda>calls. 5) (config_settings (ms_config sample_master)) (int 5) (ma_calls ?st @ [Sys_Accept 3]))
          @ (if (40 :: int) = -1 then [Sys_Epoll_Del 7 (int 5), Sys_Close (int 5)] else [])
          @ [Sys_Epoll_Add 7 (int 5) (EPOLLIN OR EPOLLET OR EPOLLRDHUP)],
        ma_sent = ma_sent ?st @ [(int 5, [(map Some (concat (welcome_pieces four_clients)), 40)])]\<rparr>)"
    by (rule accept_greets [OF _ _ sample_map])
       (simp_all add: sample_master_def four_clients_def config_init_def config_load_default_def welcome_pieces_def)
  then show ?thesis
    by (simp add: socket_setup_def sys_def config_settings_def sample_master_def four_clients_def config_init_def
        config_load_default_def)
qed

text \<open>A loop over one event, a new connection with the descriptor 5.\<close>

lemma sample_loop:
  "\<exists>e. master_loop (\<lambda>calls. 5) four_clients (\<lambda>pid. False) sample_master (socket_init\<lparr>so_fd := Some 3\<rparr>) (1, fresh_shared new_mail 1)
      [(Some [\<lparr>ev_events = EPOLLIN, ev_fd = 3, ev_pad = 0\<rparr>], \<lambda>i k. 40)] (fst some_worker, \<lparr>ma_calls = [], ma_sent = []\<rparr>)
    = Some (Inr ((e, \<lparr>ma_calls = [Sys_Accept 3, Sys_Setsockopt 5 TCP_NODELAY (Some 1), Sys_Setsockopt 5 SO_SNDBUF (Some 131072),
        Sys_Setsockopt 5 SO_RCVBUF (Some 4046), Sys_Epoll_Add 7 5 (EPOLLIN OR EPOLLET OR EPOLLRDHUP)],
      ma_sent = [(5, [(map Some (concat (welcome_pieces four_clients)), 40)])]\<rparr>), None))"
proof -
  let ?es = "[\<lparr>ev_events = EPOLLIN, ev_fd = 3, ev_pad = 0\<rparr>]"
  have cfg: "ms_config sample_master = four_clients" "ms_running sample_master = 1" by (simp_all add: sample_master_def)
  have "length ?es \<le> nat (max_clients four_clients)" "3 * length ?es \<le> length (eh_array (fst some_worker))"
    by (simp_all add: some_worker_clients) (simp add: four_clients_def)
  from events_wait_fits [OF this] obtain e where
    e: "events_wait four_clients (Some ?es) (fst some_worker) = Inr (e, 1)" "events_get_fd e 0 = Inr 3" by auto
  then show ?thesis by (simp add: cfg master_turn_def sample_accept [simplified])
qed

theorem master_loop_greets_witness:
  "\<exists>e calls gs. master_loop (\<lambda>calls. 5) four_clients (\<lambda>pid. False) sample_master (socket_init\<lparr>so_fd := Some 3\<rparr>)
      (1, fresh_shared new_mail 1) [(Some [\<lparr>ev_events = EPOLLIN, ev_fd = 3, ev_pad = 0\<rparr>], \<lambda>i k. 40)]
      (fst some_worker, \<lparr>ma_calls = [], ma_sent = []\<rparr>) = Some (Inr ((e, \<lparr>ma_calls = calls, ma_sent = gs\<rparr>), None))
    \<and> registered calls = map (\<lambda>g. (worker_ev sample_master (fst g), fst g)) gs \<and> map fst gs = [5]
    \<and> list_all (\<lambda>g. greeting four_clients (snd g)) gs"
proof -
  obtain e where run: "master_loop (\<lambda>calls. 5) four_clients (\<lambda>pid. False) sample_master (socket_init\<lparr>so_fd := Some 3\<rparr>)
      (1, fresh_shared new_mail 1) [(Some [\<lparr>ev_events = EPOLLIN, ev_fd = 3, ev_pad = 0\<rparr>], \<lambda>i k. 40)]
      (fst some_worker, \<lparr>ma_calls = [], ma_sent = []\<rparr>)
    = Some (Inr ((e, \<lparr>ma_calls = [Sys_Accept 3, Sys_Setsockopt 5 TCP_NODELAY (Some 1), Sys_Setsockopt 5 SO_SNDBUF (Some 131072),
        Sys_Setsockopt 5 SO_RCVBUF (Some 4046), Sys_Epoll_Add 7 5 (EPOLLIN OR EPOLLET OR EPOLLRDHUP)],
      ma_sent = [(5, [(map Some (concat (welcome_pieces four_clients)), 40)])]\<rparr>), None))"
    using sample_loop by blast
  have small: "ms_running sample_master \<noteq> 0" "0 < max_workers (ms_config sample_master)"
    "int (length (concat (welcome_pieces four_clients))) \<le> write_buffer_size four_clients"
    by (simp_all add: sample_master_def four_clients_def config_init_def config_load_default_def welcome_pieces_def)
  show ?thesis
    using master_loop_greets [OF run small(1) sample_map small(2,3)] run by auto
qed

end
