(* ===== verification/Session.thy ===== *)
theory Session
  imports Worker
begin

text \<open>
  The events of one client in the worker, from the first one on a connection of the pool to the
  end of its message: \<open>session\<close> repeats \<open>serve_client\<close> of \<open>Worker\<close> for what the reads give. It is a
  refinement of the dialogue of \<open>Request_Dialogue\<close> turn by turn, and of the acceptance of a
  message as a whole.
\<close>

section \<open>Sessions\<close>

fun session ::
  "config \<Rightarrow> pq_ref option \<Rightarrow> (string \<times> (nat \<Rightarrow> int)) list \<Rightarrow> client \<times> mail pq_state \<Rightarrow> (client \<times> mail pq_state) act" where
  "session cfg ref [] st = Some (Inr st)"
| "session cfg ref ((t, ans) # xs) st =
     abind (serve_client cfg ref False (Some t) ans (fst st) (snd st)) (session cfg ref xs)"

lemma session_append:
  "session cfg ref (xs @ ys) st = abind (session cfg ref xs st) (session cfg ref ys)"
proof (induction xs arbitrary: st)
  case (Cons x xs)
  obtain t ans where x: "x = (t, ans)" by (cases x)
  show ?case
    by (cases "serve_client cfg ref False (Some t) ans (fst st) (snd st)")
       (auto simp: x abind_def Cons.IH split: sum.splits)
qed simp

text \<open>
  A client in state \<open>m\<close> of the dialogue: its connection waits in that state, or is not in use
  and begins the dialogue.
\<close>

definition client_link :: "connection \<Rightarrow> client \<times> mail pq_state \<Rightarrow> link" where
  "client_link conn st = \<lparr>lk_conn = conn, lk_queue = snd st, lk_sent = cl_sent (fst st), lk_closed = cl_closed (fst st)\<rparr>"

definition link_client :: "link \<Rightarrow> client \<times> mail pq_state" where
  "link_client lk = (\<lparr>cl_conn = Used (lk_conn lk), cl_sent = lk_sent lk, cl_closed = lk_closed lk\<rparr>, lk_queue lk)"

definition client_refines :: "client \<times> mail pq_state \<Rightarrow> smtp \<Rightarrow> bool" where
  "client_refines st m \<longleftrightarrow>
     (case cl_conn (fst st) of
        Unset \<Rightarrow> False
      | Raw s \<Rightarrow> s = CONN_INACTIVE \<and> m = smtp_start
      | Used conn \<Rightarrow> link_refines (client_link conn st) m \<or> cn_status conn = CONN_INACTIVE \<and> m = smtp_start)"

lemma client_link_simps [simp]:
  "lk_conn (client_link conn st) = conn" "lk_queue (client_link conn st) = snd st"
  "lk_sent (client_link conn st) = cl_sent (fst st)" "lk_closed (client_link conn st) = cl_closed (fst st)"
  by (simp_all add: client_link_def)

lemma link_client_simps [simp]:
  "cl_conn (fst (link_client lk)) = Used (lk_conn lk)" "snd (link_client lk) = lk_queue lk"
  "cl_sent (fst (link_client lk)) = lk_sent lk" "cl_closed (fst (link_client lk)) = lk_closed lk"
  by (simp_all add: link_client_def)

lemma client_link_client [simp]: "client_link (lk_conn lk) (link_client lk) = lk"
  by (simp add: client_link_def)

lemma link_client_refines: "link_refines lk m \<Longrightarrow> client_refines (link_client lk) m"
  by (simp add: client_refines_def)

lemma started_refines:
  "link_refines (client_link ((pool_start c)\<lparr>cn_status := CONN_READING\<rparr>) st) smtp_start"
  using start_refines request_init_sized
  by (simp add: link_refines_def pool_start_def connection_start_def smtp_start_def)

text \<open>Serving the client is handling its connection.\<close>

lemma serve_client_link:
  assumes "client_refines st m"
  obtains lk where "link_refines lk m" "lk_queue lk = snd st" "lk_sent lk = cl_sent (fst st)" "lk_closed lk = cl_closed (fst st)"
    "\<And>rd ans. serve_client cfg ref False rd ans (fst st) (snd st)
       = abind (connection_handle cfg ref rd ans lk) (\<lambda>lk. Some (Inr (link_client lk)))"
proof (cases "conn_inactive (cl_conn (fst st)) = Inr True")
  case True
  then have "m = smtp_start"
    using assms by (auto simp: client_refines_def conn_inactive_def link_refines_def split: pool_conn.splits)
  with True show ?thesis
    by (intro that [of "client_link ((pool_start (cl_conn (fst st)))\<lparr>cn_status := CONN_READING\<rparr>) st"])
       (simp_all add: started_refines [unfolded client_link_def] serve_client_def pool_handle_def client_link_def link_client_def)
next
  case False
  then obtain conn where conn: "cl_conn (fst st) = Used conn" "conn_inactive (cl_conn (fst st)) = Inr False"
    "link_refines (client_link conn st) m"
    using assms by (auto simp: client_refines_def conn_inactive_def split: pool_conn.splits)
  then show ?thesis
    by (intro that [of "client_link conn st"])
       (simp_all add: serve_client_def pool_handle_def client_link_def link_client_def)
qed

section \<open>The commands before the message\<close>

text \<open>A line that is answered and leaves the dialogue where it began.\<close>

definition answered :: "config \<Rightarrow> string \<Rightarrow> string \<Rightarrow> bool" where
  "answered cfg t r \<longleftrightarrow> t \<noteq> [] \<and> int (length t) \<le> read_buffer_size cfg \<and> last t = LF
     \<and> smtp_scan (data_buffer_size cfg) smtp_start t = smtp_start\<lparr>sm_out := r\<rparr>"

definition sends_answered :: "(string \<times> (nat \<Rightarrow> int)) list \<Rightarrow> bool" where
  "sends_answered xs \<longleftrightarrow> list_all (\<lambda>x. \<forall>k. snd x k \<noteq> -1) xs"

lemma sends_answered_simps [simp]:
  "sends_answered []" "sends_answered ((t, ans) # xs) \<longleftrightarrow> (\<forall>k. ans k \<noteq> -1) \<and> sends_answered xs"
  "sends_answered (xs @ ys) \<longleftrightarrow> sends_answered xs \<and> sends_answered ys"
  by (simp_all add: sends_answered_def)

lemma session_turn:
  assumes st: "client_refines st m" and sizes: "good_sizes cfg"
    and t: "t \<noteq> []" "int (length t) \<le> read_buffer_size cfg" "reads_ok (data_buffer_size cfg) m t"
    and m': "m' = smtp_scan (data_buffer_size cfg) m t" "\<not> sm_error m'" "\<not> sm_process m'" "\<not> sm_quit m'"
    and ans: "\<forall>k. ans k \<noteq> -1"
  obtains st' calls where "\<And>xs. session cfg ref ((t, ans) # xs) st = session cfg ref xs st'"
    "client_refines st' (next_turn m')" "snd st' = snd st" "cl_closed (fst st') = cl_closed (fst st)"
    "cl_sent (fst st') = cl_sent (fst st) @ calls" "concat (map fst calls) = map Some (sm_out m')"
proof -
  obtain lk where lk: "link_refines lk m" "lk_queue lk = snd st" "lk_sent lk = cl_sent (fst st)" "lk_closed lk = cl_closed (fst st)"
    "\<And>rd ans. serve_client cfg ref False rd ans (fst st) (snd st)
       = abind (connection_handle cfg ref rd ans lk) (\<lambda>lk. Some (Inr (link_client lk)))"
    by (rule serve_client_link [OF st]) blast
  obtain lk' calls where lk': "connection_handle cfg ref (Some t) ans lk = Some (Inr lk')"
    "lk_sent lk' = lk_sent lk @ calls" "concat (map fst calls) = map Some (sm_out m')"
    "lk_queue lk' = lk_queue lk" "link_refines lk' (next_turn m')" "lk_closed lk' = lk_closed lk"
    using turn_handled [OF lk(1) sizes t m'(1-3) ans, of ref] m'(4) unfolding if_not_P [OF m'(4)] by blast
  show thesis
    by (rule that [of "link_client lk'" calls])
       (simp_all add: lk lk' link_client_refines)
qed

lemma session_commands:
  "client_refines st smtp_start \<Longrightarrow> good_sizes cfg \<Longrightarrow> list_all2 (answered cfg) (map fst xs) rs \<Longrightarrow> sends_answered xs \<Longrightarrow>
     \<exists>st' calls. session cfg ref xs st = Some (Inr st') \<and> client_refines st' smtp_start \<and> snd st' = snd st
       \<and> cl_closed (fst st') = cl_closed (fst st) \<and> cl_sent (fst st') = cl_sent (fst st) @ calls
       \<and> concat (map fst calls) = map Some (concat rs)"
proof (induction xs arbitrary: st rs)
  case Nil
  then show ?case by auto
next
  case (Cons x xs)
  obtain t ans where x: "x = (t, ans)" by (cases x)
  obtain r rs' where rs: "rs = r # rs'" "answered cfg t r" "list_all2 (answered cfg) (map fst xs) rs'"
    using Cons.prems(3) x by (auto simp: list_all2_Cons1)
  let ?m = "smtp_start\<lparr>sm_out := r\<rparr>"
  have m: "?m = smtp_scan (data_buffer_size cfg) smtp_start t" "next_turn ?m = smtp_start"
    using rs(2) by (simp_all add: answered_def next_turn_def smtp_start_def)
  obtain st1 calls where st1: "session cfg ref ((t, ans) # xs) st = session cfg ref xs st1"
    "client_refines st1 smtp_start" "snd st1 = snd st" "cl_closed (fst st1) = cl_closed (fst st)"
    "cl_sent (fst st1) = cl_sent (fst st) @ calls" "concat (map fst calls) = map Some r"
    by (rule session_turn [OF Cons.prems(1,2) _ _ _ m(1), of ans ref])
       (use rs(2) Cons.prems(4) x m(2) in \<open>auto simp: answered_def smtp_start_def intro: reads_ok_line\<close>)
  obtain st' calls' where "session cfg ref xs st1 = Some (Inr st')" "client_refines st' smtp_start" "snd st' = snd st1"
    "cl_closed (fst st') = cl_closed (fst st1)" "cl_sent (fst st') = cl_sent (fst st1) @ calls'"
    "concat (map fst calls') = map Some (concat rs')"
    using Cons.IH [OF st1(2) Cons.prems(2) rs(3)] Cons.prems(4) unfolding x sends_answered_simps by blast
  then show ?case using st1 x rs(1)
    by (intro exI [of _ st'] exI [of _ "calls @ calls'"]) simp
qed

section \<open>The message\<close>

text \<open>The state of the dialogue when \<open>d\<close> has arrived of the message.\<close>

definition in_message :: "string \<Rightarrow> smtp" where
  "in_message d = smtp_start\<lparr>sm_in_data := True, sm_data := d\<rparr>"

lemma in_message_simps [simp]:
  "sm_in_data (in_message d)" "sm_data (in_message d) = d" "sm_out (in_message d) = []" "\<not> sm_quit (in_message d)"
  "\<not> sm_process (in_message d)" "\<not> sm_error (in_message d)" "(in_message d)\<lparr>sm_data := e\<rparr> = in_message e"
  "next_turn (in_message d) = in_message d"
  by (simp_all add: in_message_def smtp_start_def next_turn_def)

text \<open>What a message with the fields \<open>fs\<close> and the body \<open>txt\<close> must be like to be accepted as it is.\<close>

definition message_ok :: "config \<Rightarrow> field list \<Rightarrow> string \<Rightarrow> bool" where
  "message_ok cfg fs txt \<longleftrightarrow>
     quiet [] (butlast ((render_fields fs @ CRLF @ txt) @ END_DATA))
     \<and> int (length (render_fields fs @ CRLF @ txt) + 5) \<le> data_buffer_size cfg
     \<and> fs \<noteq> [] \<and> list_all field_ok fs \<and> length fs \<le> HEADER_MAX_LEN
     \<and> no_nul txt \<and> (txt = [] \<or> \<not> blank_char (hd txt))"

definition message_bytes :: "field list \<Rightarrow> string \<Rightarrow> string" where
  "message_bytes fs txt = (render_fields fs @ CRLF @ txt) @ END_DATA"

definition pieces_ok :: "config \<Rightarrow> (string \<times> (nat \<Rightarrow> int)) list \<Rightarrow> bool" where
  "pieces_ok cfg xs \<longleftrightarrow> list_all (\<lambda>x. fst x \<noteq> [] \<and> int (length (fst x)) \<le> read_buffer_size cfg) xs"

text \<open>What is left when the message has been handled.\<close>

definition message_taken ::
  "pq_ref \<Rightarrow> field list \<Rightarrow> string \<Rightarrow> client \<times> mail pq_state \<Rightarrow> client \<times> mail pq_state \<Rightarrow> mail \<Rightarrow> bool" where
  "message_taken ref fs txt st st' ml \<longleftrightarrow>
     mail_is ml fs (if length txt + 5 < BODY_MAX_LEN then txt else [])
     \<and> pq_ready ref (snd st') \<and> pq_cap (snd st') = pq_cap (snd st)
     \<and> pq_items (snd st') = (if length (pq_items (snd st)) < pq_cap (snd st) then pq_items (snd st) @ [ml] else pq_items (snd st))
     \<and> (\<exists>conn. cl_conn (fst st') = Used conn \<and> cn_status conn = CONN_INACTIVE)
     \<and> cl_closed (fst st') = cl_closed (fst st) + 1"

lemma quiet_piece:
  assumes "message_bytes fs txt = d @ t @ u" "u \<noteq> []" "message_ok cfg fs txt"
  shows "quiet d t" "int (length d + length t) \<le> data_buffer_size cfg"
proof -
  have "quiet [] (butlast (d @ t @ u))" using assms(1,3) by (simp add: message_ok_def message_bytes_def)
  then show "quiet d t" using assms(2) by (simp add: butlast_append quiet_append)
  have "length (d @ t @ u) = length (render_fields fs @ CRLF @ txt) + 5"
    using assms(1) by (simp add: message_bytes_def END_DATA_def flip: assms(1))
  then show "int (length d + length t) \<le> data_buffer_size cfg" using assms(3) by (simp add: message_ok_def)
qed

lemma session_last_piece:
  assumes st: "client_refines st (in_message d)" and sizes: "good_sizes cfg" and msg: "message_ok cfg fs txt"
    and t: "message_bytes fs txt = d @ t" "t \<noteq> []" "int (length t) \<le> read_buffer_size cfg" and ans: "\<forall>k. ans k \<noteq> -1"
    and q: "pq_ready ref (snd st)"
  shows "\<exists>st' calls ml. session cfg (Some ref) [(t, ans)] st = Some (Inr st') \<and> message_taken ref fs txt st st' ml
    \<and> cl_sent (fst st') = cl_sent (fst st) @ calls \<and> concat (map fst calls) = map Some reply_queued"
proof -
  obtain lk where lk: "link_refines lk (in_message d)" "lk_queue lk = snd st" "lk_sent lk = cl_sent (fst st)"
    "lk_closed lk = cl_closed (fst st)"
    "\<And>rd ans. serve_client cfg (Some ref) False rd ans (fst st) (snd st)
       = abind (connection_handle cfg (Some ref) rd ans lk) (\<lambda>lk. Some (Inr (link_client lk)))"
    by (rule serve_client_link [OF st]) blast
  note ok = msg [unfolded message_ok_def]
  obtain lk' calls ml where lk': "connection_handle cfg (Some ref) (Some t) ans lk = Some (Inr lk')"
    "mail_is ml fs (if length txt + 5 < BODY_MAX_LEN then txt else [])"
    "pq_ready ref (lk_queue lk')" "pq_cap (lk_queue lk') = pq_cap (lk_queue lk)" "pq_items (lk_queue lk') =
        (if length (pq_items (lk_queue lk)) < pq_cap (lk_queue lk)
         then pq_items (lk_queue lk) @ [ml] else pq_items (lk_queue lk))"
    "lk_sent lk' = lk_sent lk @ calls" "concat (map fst calls) = map Some reply_queued"
    "cn_status (lk_conn lk') = CONN_INACTIVE" "lk_closed lk' = lk_closed lk + 1"
    using message_handled [OF lk(1) in_message_simps(1) sizes t(2,3), of fs "txt" ref ans] ok q ans t(1) lk(2)
    unfolding message_bytes_def in_message_simps by metis
  show ?thesis
    by (intro exI [of _ "link_client lk'"] exI [of _ calls] exI [of _ ml])
       (simp add: lk lk' message_taken_def)
qed

lemma session_message:
  "client_refines st (in_message d) \<Longrightarrow> good_sizes cfg \<Longrightarrow> message_ok cfg fs txt \<Longrightarrow> xs \<noteq> [] \<Longrightarrow>
   message_bytes fs txt = d @ concat (map fst xs) \<Longrightarrow> pieces_ok cfg xs \<Longrightarrow> sends_answered xs \<Longrightarrow> pq_ready ref (snd st) \<Longrightarrow>
     \<exists>st' calls ml. session cfg (Some ref) xs st = Some (Inr st') \<and> message_taken ref fs txt st st' ml
       \<and> cl_sent (fst st') = cl_sent (fst st) @ calls \<and> concat (map fst calls) = map Some reply_queued"
proof (induction xs arbitrary: st d)
  case Nil
  then show ?case by simp
next
  case (Cons x xs)
  obtain t ans where x: "x = (t, ans)" by (cases x)
  have ok: "message_bytes fs txt = d @ t @ concat (map fst xs)"
    "t \<noteq> []" "int (length t) \<le> read_buffer_size cfg" "pieces_ok cfg xs" "\<forall>k. ans k \<noteq> -1" "sends_answered xs"
    using Cons.prems(5-7) by (simp_all add: x pieces_ok_def)
  show ?case
  proof (cases "xs = []")
    case True
    then show ?thesis
      using session_last_piece [OF Cons.prems(1-3) _ ok(2,3,5) Cons.prems(8)] ok(1) x by simp
  next
    case False
    let ?u = "concat (map fst xs)"
    have u: "?u \<noteq> []" using False ok(4) by (cases xs) (auto simp: pieces_ok_def)
    note piece = quiet_piece [OF ok(1) u Cons.prems(3)]
    have scan: "in_message (d @ t) = smtp_scan (data_buffer_size cfg) (in_message d) t"
      using smtp_scan_quiet [of "in_message d" t "data_buffer_size cfg"] piece by simp
    have reads: "reads_ok (data_buffer_size cfg) (in_message d) t"
    proof (rule reads_ok_quiet)
      show "quiet (sm_data (in_message d)) (butlast t)"
        using piece(1) by (cases t rule: rev_cases) (auto simp: quiet_append)
    qed (use piece(2) in simp_all)
    obtain st1 calls where st1: "session cfg (Some ref) ((t, ans) # xs) st = session cfg (Some ref) xs st1"
      "client_refines st1 (in_message (d @ t))" "snd st1 = snd st" "cl_closed (fst st1) = cl_closed (fst st)"
      "cl_sent (fst st1) = cl_sent (fst st) @ calls" "concat (map fst calls) = map Some (sm_out (in_message (d @ t)))"
      by (rule session_turn [OF Cons.prems(1,2) _ _ reads scan, of ans "Some ref"]) (use ok in auto)
    have "message_bytes fs txt = (d @ t) @ concat (map fst xs)" "pieces_ok cfg xs" "sends_answered xs" "pq_ready ref (snd st1)"
      using ok st1(3) Cons.prems(8) by (simp_all add: pieces_ok_def)
    then obtain st' calls' ml where "session cfg (Some ref) xs st1 = Some (Inr st')" "message_taken ref fs txt st1 st' ml"
      "cl_sent (fst st') = cl_sent (fst st1) @ calls'" "concat (map fst calls') = map Some reply_queued"
      using Cons.IH [OF st1(2) Cons.prems(2,3) False] by blast
    then show ?thesis using st1 x
      by (intro exI [of _ st'] exI [of _ "calls @ calls'"] exI [of _ ml]) (simp add: message_taken_def)
  qed
qed

section \<open>A conversation\<close>

text \<open>Commands, the announcement of the message, and the message in any pieces.\<close>

lemma data_turn:
  "smtp_scan limit smtp_start DATA_CMD = smtp_start\<lparr>sm_in_data := True, sm_out := reply_data\<rparr>"
  "reads_ok limit smtp_start DATA_CMD"
  by (simp add: smtp_cmd_def smtp_start_def DATA_CMD_def) (rule reads_ok_line, simp add: DATA_CMD_def)

lemma conversation_handled:
  assumes st: "client_refines st smtp_start" and sizes: "good_sizes cfg" "6 \<le> read_buffer_size cfg"
    and cmds: "list_all2 (answered cfg) (map fst cmds) rs"
    and msg: "message_ok cfg fs txt" "concat (map fst pieces) = message_bytes fs txt" "pieces_ok cfg pieces"
    and ans: "sends_answered (cmds @ (DATA_CMD, ans) # pieces)" and q: "pq_ready ref (snd st)"
  shows "\<exists>st' calls ml. session cfg (Some ref) (cmds @ (DATA_CMD, ans) # pieces) st = Some (Inr st')
    \<and> message_taken ref fs txt st st' ml \<and> cl_sent (fst st') = cl_sent (fst st) @ calls
    \<and> concat (map fst calls) = map Some (concat rs @ reply_data @ reply_queued)"
proof -
  have ans': "sends_answered cmds" "\<forall>k. ans k \<noteq> -1" "sends_answered pieces" using ans by simp_all
  obtain st1 calls1 where st1: "session cfg (Some ref) cmds st = Some (Inr st1)" "client_refines st1 smtp_start" "snd st1 = snd st"
    "cl_closed (fst st1) = cl_closed (fst st)" "cl_sent (fst st1) = cl_sent (fst st) @ calls1"
    "concat (map fst calls1) = map Some (concat rs)"
    using session_commands [OF st sizes(1) cmds ans'(1)] by blast
  have len: "DATA_CMD \<noteq> []" "int (length DATA_CMD) \<le> read_buffer_size cfg" using sizes(2) by (simp_all add: DATA_CMD_def)
  have then_in: "next_turn (smtp_start\<lparr>sm_in_data := True, sm_out := reply_data\<rparr>) = in_message []"
    by (simp add: next_turn_def in_message_def smtp_start_def)
  obtain st2 calls2 where st2: "session cfg (Some ref) ((DATA_CMD, ans) # pieces) st1 = session cfg (Some ref) pieces st2"
    "client_refines st2 (in_message [])" "snd st2 = snd st1" "cl_closed (fst st2) = cl_closed (fst st1)"
    "cl_sent (fst st2) = cl_sent (fst st1) @ calls2" "concat (map fst calls2) = map Some reply_data"
    by (rule session_turn [OF st1(2) sizes(1) len data_turn(2) data_turn(1) [symmetric] _ _ _ ans'(2), of "Some ref"])
       (auto simp: then_in, simp_all add: smtp_start_def)
  have q': "pq_ready ref (snd st2)" using q st1(3) st2(3) by simp
  have split: "message_bytes fs txt = [] @ concat (map fst pieces)" using msg(2) by simp
  have pieces: "pieces \<noteq> []" using msg(2) by (auto simp: message_bytes_def)
  obtain st3 calls3 ml where st3: "session cfg (Some ref) pieces st2 = Some (Inr st3)" "message_taken ref fs txt st2 st3 ml"
    "cl_sent (fst st3) = cl_sent (fst st2) @ calls3" "concat (map fst calls3) = map Some reply_queued"
    using session_message [OF st2(2) sizes(1) msg(1) pieces split msg(3) ans'(3) q'] by blast
  show ?thesis using st1 st2 st3
    by (intro exI [of _ st3] exI [of _ "calls1 @ calls2 @ calls3"] exI [of _ ml])
       (simp add: session_append message_taken_def)
qed

text \<open>
  C3. A whole conversation. A client on a connection that is not in use (or was closed before) sends
  lines that are answered, DATA, and a message, cut into reads anywhere: the worker answers
  every line, appends exactly one mail with the header fields and the body to the queue (where
  there is room), confirms it once and closes the connection once. The body is kept up to 7994
  bytes and is otherwise replaced by the empty one.
\<close>

theorem session_delivers:
  assumes "client_refines st smtp_start" "good_sizes cfg" "6 \<le> read_buffer_size cfg"
    and "list_all2 (answered cfg) (map fst cmds) rs"
    and "message_ok cfg fs txt" "concat (map fst pieces) = message_bytes fs txt" "pieces_ok cfg pieces"
    and "sends_answered (cmds @ (DATA_CMD, ans) # pieces)" "pq_ready ref (snd st)"
  shows "\<exists>cl q calls ml. session cfg (Some ref) (cmds @ (DATA_CMD, ans) # pieces) st = Some (Inr (cl, q))
    \<and> mail_is ml fs (if length txt + 5 < BODY_MAX_LEN then txt else [])
    \<and> pq_ready ref q \<and> pq_items q = (if length (pq_items (snd st)) < pq_cap (snd st) then pq_items (snd st) @ [ml]
        else pq_items (snd st))
    \<and> cl_sent cl = cl_sent (fst st) @ calls
    \<and> concat (map fst calls) = map Some (concat rs @ reply_data @ reply_queued)
    \<and> (\<exists>conn. cl_conn cl = Used conn \<and> cn_status conn = CONN_INACTIVE) \<and> cl_closed cl = cl_closed (fst st) + 1"
proof -
  obtain st' calls ml where "session cfg (Some ref) (cmds @ (DATA_CMD, ans) # pieces) st = Some (Inr st')"
    "message_taken ref fs txt st st' ml" "cl_sent (fst st') = cl_sent (fst st) @ calls"
    "concat (map fst calls) = map Some (concat rs @ reply_data @ reply_queued)"
    using conversation_handled [OF assms] by blast
  then show ?thesis
    by (intro exI [of _ "fst st'"] exI [of _ "snd st'"] exI [of _ calls] exI [of _ ml]) (simp add: message_taken_def)
qed

section \<open>A concrete conversation\<close>

text \<open>A message without a full stop cannot contain the end mark.\<close>

lemma quiet_no_stop: "CHR ''.'' \<notin> set (d @ t) \<Longrightarrow> quiet d t"
proof (induction t arbitrary: d)
  case (Cons c t)
  have "\<not> ends_data (d @ [c])"
  proof
    assume "ends_data (d @ [c])"
    then have "set END_DATA \<subseteq> set (d @ [c])" by (metis ends_data_def set_drop_subset)
    then show False using Cons.prems by (auto simp: END_DATA_def)
  qed
  then show ?case using Cons by simp
qed simp

lemma plain_message_quiet:
  assumes "CHR ''.'' \<notin> set msg"
  shows "quiet [] (butlast (msg @ END_DATA))"
proof -
  have "butlast (msg @ END_DATA) = (msg @ CRLF) @ [CHR ''.'', CR]" by (simp add: END_DATA_def butlast_append)
  moreover have "quiet [] (msg @ CRLF)" using assms by (intro quiet_no_stop) simp
  moreover have "\<not> ends_data ((msg @ CRLF) @ [CHR ''.''])" "\<not> ends_data ((msg @ CRLF) @ [CHR ''.'', CR])"
    by (auto simp: ends_data_def END_DATA_def dest!: arg_cong [where f = last])
  ultimately show ?thesis by (simp add: quiet_append)
qed


definition new_client :: client where
  "new_client = \<lparr>cl_conn = Raw CONN_INACTIVE, cl_sent = [], cl_closed = 0\<rparr>"

definition all_sent :: "string \<Rightarrow> string \<times> (nat \<Rightarrow> int)" where
  "all_sent t = (t, \<lambda>k. 100)"

lemma all_sent_simps [simp]:
  "fst (all_sent t) = t" "sends_answered (map all_sent ts)" "map (fst \<circ> all_sent) ts = ts"
  by (simp_all add: all_sent_def sends_answered_def comp_def list_all_iff)

lemma ehlo_answered: "answered config_init (''EHLO x'' @ CRLF) reply_ehlo"
  by (simp add: answered_def default_sizes smtp_cmd_def smtp_start_def DATA_CMD_def)

lemma small_message_ok: "message_ok config_init [(''From'', CHR '' '', ''a'', [])] ''hi''"
  by (simp add: message_ok_def default_sizes END_DATA_def ends_data_def blank_char_def max_len_defs)

theorem session_delivers_witness:
  "\<exists>cl q ml. session config_init (Some \<lparr>map_len = slot_addr 1\<rparr>)
      ([all_sent (''EHLO x'' @ CRLF)] @ all_sent DATA_CMD #
       [all_sent ''From: '', all_sent (''a'' @ CRLF @ CRLF @ ''hi'' @ CRLF), all_sent (''.'' @ CRLF)])
      (new_client, (1, fresh_shared new_mail 1)) = Some (Inr (cl, q))
    \<and> mail_is ml [(''From'', CHR '' '', ''a'', [])] ''hi'' \<and> pq_items q = [ml] \<and> cl_closed cl = 1"
proof -
  let ?st = "(new_client, (1, fresh_shared new_mail 1))" and ?fs = "[(''From'', CHR '' '', ''a'', [])]"
  let ?cmds = "[all_sent (''EHLO x'' @ CRLF)]"
    and ?pieces = "[all_sent ''From: '', all_sent (''a'' @ CRLF @ CRLF @ ''hi'' @ CRLF), all_sent (''.'' @ CRLF)]"
  have st: "client_refines ?st smtp_start" by (simp add: client_refines_def new_client_def)
  have cmds: "list_all2 (answered config_init) (map fst ?cmds) [reply_ehlo]" using ehlo_answered by simp
  have pieces: "concat (map fst ?pieces) = message_bytes ?fs ''hi''" "pieces_ok config_init ?pieces"
    by (simp_all add: message_bytes_def END_DATA_def pieces_ok_def default_sizes)
  have sends: "sends_answered (?cmds @ (DATA_CMD, \<lambda>k. 100) # ?pieces)"
    using all_sent_simps(2) [of "[''EHLO x'' @ CRLF, ''From: '', ''a'' @ CRLF @ CRLF @ ''hi'' @ CRLF, ''.'' @ CRLF]"]
    by (simp add: sends_answered_def)
  have q: "pq_ready \<lparr>map_len = slot_addr 1\<rparr> (snd ?st)" "pq_items (snd ?st) = []" "pq_cap (snd ?st) = 1"
    using fresh_shared_inv [of 1 new_mail] by (simp_all add: pq_ready_def pq_items_def pq_cap_def fresh_shared_def)
  have small: "length ''hi'' + 5 < BODY_MAX_LEN" "6 \<le> read_buffer_size config_init"
    by (simp_all add: max_len_defs default_sizes)
  show ?thesis
    using session_delivers [OF st default_sizes(1) small(2) cmds small_message_ok pieces sends q(1)] small(1) q(2,3)
    by (auto simp: all_sent_def new_client_def)
qed

end
