(* ===== verification/Report_Path.thy ===== *)
theory Report_Path
  imports Session Mail_Handler
begin

text \<open>
  The way of a report through both processes: what a client says to a worker ends up at the web
  service. The mail that a worker queues is known by its header fields and its body
  (\<open>mail_is\<close>), and the mail handler depends on nothing else of it.
\<close>

section \<open>What the mail handler reads of a mail\<close>

lemma strncmp_lit_whole:
  "blk_holds b (pre @ s @ [NUL]) \<Longrightarrow> no_nul s \<Longrightarrow> no_nul lit \<Longrightarrow>
     strncmp_lit b (length pre) (lit @ [NUL]) = Inr (s = lit)"
proof (induction lit arbitrary: pre s)
  case Nil
  then have "blk_get b (length pre) = Inr ((s @ [NUL]) ! 0)"
    using blk_holds_get [OF Nil.prems(1), of "length pre"] by (simp add: nth_append)
  then show ?case using Nil.prems(2) by (cases s) auto
next
  case (Cons c lit)
  have get: "blk_get b (length pre) = Inr ((s @ [NUL]) ! 0)"
    using blk_holds_get [OF Cons.prems(1), of "length pre"] by (simp add: nth_append)
  show ?case
  proof (cases s)
    case Nil
    then show ?thesis using get Cons.prems(3) by auto
  next
    case (Cons x s')
    then have "strncmp_lit b (length (pre @ [x])) (lit @ [NUL]) = Inr (s' = lit)"
      using Cons.IH [of "pre @ [x]" s'] Cons.prems by simp
    then show ?thesis using get Cons by auto
  qed
qed

lemma strncmp_cstr_whole:
  "holds_cstr b s \<Longrightarrow> no_nul lit \<Longrightarrow> strncmp_lit b 0 (lit @ [NUL]) = Inr (s = lit)"
  using strncmp_lit_whole [of b "[]" s lit] by (simp add: holds_cstr_def)

definition field_pair :: "field \<Rightarrow> stringpair" where
  "field_pair f = \<lparr>sp_key = field_key f, sp_value = field_value f\<rparr>"

lemma mail_headers_fields:
  "length fs \<le> length hs \<Longrightarrow> \<forall>i<length fs. hdr_is (hs ! i) (fs ! i) \<Longrightarrow> mail_headers hs (length fs) = Inr (map field_pair fs)"
proof (induction fs arbitrary: hs)
  case (Cons f fs)
  then obtain h hs' where hs: "hs = h # hs'" by (cases hs) auto
  have "blk_cstr (hdr_key h) = Inr (field_key f)" "blk_cstr (hdr_value h) = Inr (field_value f)"
    using Cons.prems(2) hs by (auto simp: hdr_is_def holds_cstr_read dest: spec [of _ 0])
  moreover have "mail_headers hs' (length fs) = Inr (map field_pair fs)"
    using Cons.prems hs by (intro Cons.IH) auto
  ultimately show ?case by (simp add: hs field_pair_def [of f])
qed simp

definition encoding_of :: "field list \<Rightarrow> string option" where
  "encoding_of fs = map_option field_value (find (\<lambda>f. field_key f = ''Content-Transfer-Encoding'') fs)"

lemma find_encoding_fields:
  "length fs \<le> length hs \<Longrightarrow> \<forall>i<length fs. hdr_is (hs ! i) (fs ! i) \<Longrightarrow>
     (case encoding_of fs of
        None \<Rightarrow> find_encoding hs (length fs) = Inr None
      | Some v \<Rightarrow> \<exists>b. find_encoding hs (length fs) = Inr (Some b) \<and> holds_cstr b v)"
proof (induction fs arbitrary: hs)
  case Nil
  then show ?case by (simp add: encoding_of_def)
next
  case (Cons f fs)
  then obtain h hs' where hs: "hs = h # hs'" by (cases hs) auto
  have h: "holds_cstr (hdr_key h) (field_key f)" "holds_cstr (hdr_value h) (field_value f)"
    using Cons.prems(2) hs by (auto simp: hdr_is_def dest: spec [of _ 0])
  have "strncmp_lit (hdr_key h) 0 (''Content-Transfer-Encoding'' @ [NUL]) = Inr (field_key f = ''Content-Transfer-Encoding'')"
    by (rule strncmp_cstr_whole [OF h(1)]) (simp add: no_nul_def)
  then have step: "find_encoding hs (length (f # fs)) = (if field_key f = ''Content-Transfer-Encoding''
      then Inr (Some (hdr_value h)) else find_encoding hs' (length fs))"
    by (simp add: hs del: strncmp_lit.simps append.simps)
  show ?case
  proof (cases "field_key f = ''Content-Transfer-Encoding''")
    case True
    then show ?thesis using h(2) unfolding step by (simp add: encoding_of_def)
  next
    case False
    have "case encoding_of fs of None \<Rightarrow> find_encoding hs' (length fs) = Inr None
      | Some v \<Rightarrow> \<exists>b. find_encoding hs' (length fs) = Inr (Some b) \<and> holds_cstr b v"
      using Cons.prems hs by (intro Cons.IH) auto
    then show ?thesis using False unfolding step by (simp add: encoding_of_def)
  qed
qed

text \<open>The handler cannot tell apart two mails with the same fields and the same body.\<close>

lemma decode_content_fields:
  assumes "mail_is m fs txt"
  shows "decode_content w m =
    (case encoding_of fs of
       None \<Rightarrow> Inl Null_Deref
     | Some v \<Rightarrow> if v = ''base64'' then rbind (base64_decode_ssl (b64 (wd_crypto w)) txt) (\<lambda>r. Inr (Some r)) else Inr None)"
proof -
  have m: "ml_header_count m = length fs" "length fs \<le> length (ml_headers m)"
    "\<forall>i<length fs. hdr_is (ml_headers m ! i) (fs ! i)" "blk_cstr (ml_body m) = Inr txt"
    using assms by (simp_all add: mail_is_def)
  show ?thesis
  proof (cases "encoding_of fs")
    case None
    then show ?thesis using find_encoding_fields [OF m(2,3)] by (simp add: decode_content_def m(1))
  next
    case (Some v)
    then obtain b where b: "find_encoding (ml_headers m) (length fs) = Inr (Some b)" "holds_cstr b v"
      using find_encoding_fields [OF m(2,3)] by auto
    have "strncmp_lit b 0 (''base64'' @ [NUL]) = Inr (v = ''base64'')"
      by (rule strncmp_cstr_whole [OF b(2)]) (simp add: no_nul_def)
    then show ?thesis using Some b(1) m by (simp add: decode_content_def del: strncmp_lit.simps append.simps)
  qed
qed

lemma validate_dkim_alike:
  assumes "mail_is m fs txt" "mail_is m' fs txt"
  shows "validate_dkim w m = validate_dkim w m'"
proof -
  have read: "mail_headers (ml_headers x) (ml_header_count x) = Inr (map field_pair fs)" "blk_cstr (ml_body x) = Inr txt"
    if "mail_is x fs txt" for x
    using that mail_headers_fields by (auto simp: mail_is_def)
  show ?thesis unfolding validate_dkim_def read [OF assms(1)] read [OF assms(2)] by (rule refl)
qed

section \<open>From the client to the web service\<close>

text \<open>
  C1. A report on its way from the client to the web service. A client holds a conversation with the
  worker and sends, in any pieces, a mail whose signature is valid and whose body, below 7995 bytes,
  is the base64 text of an archive with one deflated report. The queue has room and holds only mails that
  the handler passes over. The worker takes the whole conversation. Then the mail handler, which maps
  the same file its own way and has posted nothing yet, takes as many turns as there are mails, and
  the last one is for the report:
  where the inflated bytes have a NUL behind the document, and this is a report of plain texts with
  its metadata first, the handler has posted the JSON of the report (without the braces around it) to the web
  service, once and nothing else, and the queue is empty; where the inflated bytes have no NUL, as
  those of a text file, the handler faults.
\<close>

theorem report_reaches_service:
  assumes client: "client_refines st smtp_start" "good_sizes cfg" "6 \<le> read_buffer_size cfg"
      "list_all2 (answered cfg) (map fst cmds) rs"
      "message_ok cfg fs txt" "concat (map fst pieces) = message_bytes fs txt" "pieces_ok cfg pieces"
      "sends_answered (cmds @ (DATA_CMD, ans) # pieces)"
    and queue: "pq_ready ref (snd st)" "pq_ready ref' (snd st)" "list_all (passed_over w) (pq_items (snd st))"
      "length (pq_items (snd st)) < pq_cap (snd st)" "length txt + 5 < BODY_MAX_LEN"
    and valid: "mail_is m fs txt" "validate_dkim w m = Inr ok" "ok \<noteq> 0"
    and archive: "encoding_of fs = Some ''base64''" "base64_decode_ssl (b64 (wd_crypto w)) txt = Inr (len, z)"
      "blk_holds z (zip_entry version stamps n name extra data)" "zip_fits version stamps n name extra data"
      "wd_inflate_init w"
  shows "\<exists>cl q. session cfg (Some ref) (cmds @ (DATA_CMD, ans) # pieces) st = Some (Inr (cl, q))
    \<and> (no_nul (inflated w n data) \<longrightarrow>
         handler_run w (Some ref') (Suc (length (pq_items (snd st)))) \<lparr>hs_queue = q, hs_curl = True, hs_posts = []\<rparr> = Inl Uninit_Read)
    \<and> (\<forall>doc rest nodes. inflated w n data = doc @ NUL # rest \<longrightarrow> no_nul doc \<longrightarrow> wd_read_memory w doc = Some nodes \<longrightarrow>
         plain_report (wd_content w) nodes \<longrightarrow> metadata_first False nodes \<longrightarrow>
         (\<exists>hs out. handler_run w (Some ref') (Suc (length (pq_items (snd st)))) \<lparr>hs_queue = q, hs_curl = True, hs_posts = []\<rparr>
              = Inr (Some hs)
            \<and> hs_posts hs = [(wd_url w, out)] \<and> render (report_json (wd_content w) nodes) = ''{'' @ out @ ''}''
            \<and> pq_items (hs_queue hs) = []))"
proof -
  let ?old = "pq_items (snd st)"
  obtain cl q ml where s: "session cfg (Some ref) (cmds @ (DATA_CMD, ans) # pieces) st = Some (Inr (cl, q))"
    "mail_is ml fs txt" "pq_ready ref q" "pq_cap q = pq_cap (snd st)" "pq_items q = ?old @ [ml]"
    using conversation_handled [OF client queue(1)] queue(4,5) by (auto simp: message_taken_def)
  let ?hs = "\<lparr>hs_queue = q, hs_curl = True, hs_posts = []\<rparr>"
  have q: "pq_ready ref' (hs_queue ?hs)" "pq_items (hs_queue ?hs) = ?old @ [ml]"
    using pq_ready_other [OF s(3) queue(2) s(4)] s(5) by simp_all
  obtain hs where hs: "\<And>n. handler_run w (Some ref') (length ?old + n) ?hs = handler_run w (Some ref') n hs"
    "pq_ready ref' (hs_queue hs)" "pq_items (hs_queue hs) = [ml]" "hs_posts hs = []" "hs_curl hs"
    using passed_over_run [OF q queue(3)] by auto
  have content: "decode_content w ml = Inr (Some (len, z))"
    using archive(1,2) by (simp add: decode_content_fields [OF s(2), of w])
  have valid': "validate_dkim w ml = Inr ok" using valid(2) by (simp add: validate_dkim_alike [OF s(2) valid(1)])
  note turn = report_turn [OF hs(2,3) valid' valid(3) content archive(3-5)]
  have last: "handler_run w (Some ref') (Suc (length ?old)) ?hs = rbind (handler_turn w (Some ref') hs)
      (case_option (Inr None) (handler_run w (Some ref') 0))"
  proof -
    have "handler_run w (Some ref') (Suc (length ?old)) ?hs = handler_run w (Some ref') (Suc 0) hs"
      using hs(1) [of "Suc 0"] unfolding add_Suc_right add_0_right .
    then show ?thesis by (rule trans) (rule handler_run.simps)
  qed
  show ?thesis
  proof (intro exI conjI, rule s(1), goal_cases)
    case 1
    then show ?case unfolding last using turn(1) by simp
  next
    case 2
    then show ?case unfolding last using turn(2) hs(4,5) by fastforce
  qed
qed

section \<open>A concrete report\<close>

definition sample_field_texts :: "field list" where
  "sample_field_texts = [(''From'', CHR '' '', ''a'', []), (''Content-Transfer-Encoding'', CHR '' '', ''base64'', []),
     (''DKIM-Signature'', CHR '' '', ''a=rsa-sha256;c=relaxed/relaxed;d=e;s=m;h=from;bh=h;b=xy'', [])]"

lemma sample_mail_is: "mail_is sample_message sample_field_texts (replicate 40 (CHR ''A''))"
proof -
  have "ml_header_count sample_message = 3" "length sample_field_texts = 3" "length (ml_headers sample_message) = 20"
    by (simp_all add: sample_message_def sample_field_texts_def)
  moreover have "hdr_is (ml_headers sample_message ! i) (sample_field_texts ! i)" if "i < 3" for i
  proof -
    have "i = 0 \<or> i = 1 \<or> i = 2" using that by linarith
    then show ?thesis
      by (auto simp: sample_message_def sample_field_texts_def sample_field_def hdr_is_def holds_cstr_def blk_holds_def
          no_nul_def max_len_defs)
  qed
  ultimately show ?thesis using sample_steps(2) by (simp add: mail_is_def)
qed

lemma sample_message_ok: "message_ok config_init sample_field_texts (replicate 40 (CHR ''A''))"
proof -
  let ?txt = "replicate 40 (CHR ''A'')"
  have rendered: "render_fields sample_field_texts = ''From: a'' @ CRLF @ ''Content-Transfer-Encoding: base64'' @ CRLF
      @ ''DKIM-Signature: a=rsa-sha256;c=relaxed/relaxed;d=e;s=m;h=from;bh=h;b=xy'' @ CRLF"
    by (simp add: sample_field_texts_def)
  have "quiet [] (butlast ((render_fields sample_field_texts @ CRLF @ ?txt) @ END_DATA))"
    by (rule plain_message_quiet) (simp add: rendered)
  moreover have "int (length (render_fields sample_field_texts @ CRLF @ ?txt) + 5) \<le> data_buffer_size config_init"
    by (simp add: rendered default_sizes)
  moreover have "list_all field_ok sample_field_texts" "sample_field_texts \<noteq> []" "length sample_field_texts \<le> HEADER_MAX_LEN"
    by (simp_all add: sample_field_texts_def max_len_defs blank_char_def)
  ultimately show ?thesis by (simp add: message_ok_def no_nul_def list_all_iff blank_char_def)
qed

lemma sample_archive:
  "encoding_of sample_field_texts = Some ''base64''"
  "base64_decode_ssl (b64 (wd_crypto sample_world)) (replicate 40 (CHR ''A'')) = Inr (33, sample_zip_block)"
proof -
  show enc: "encoding_of sample_field_texts = Some ''base64''" by code_simp
  show "base64_decode_ssl (b64 (wd_crypto sample_world)) (replicate 40 (CHR ''A'')) = Inr (33, sample_zip_block)"
    using sample_decoded by (auto simp: decode_content_fields [OF sample_mail_is] enc rbind_eq_Inr_iff)
qed

theorem report_reaches_service_witness:
  "\<exists>cl q hs out. session config_init (Some \<lparr>map_len = slot_addr 1\<rparr>)
      ([all_sent (''EHLO x'' @ CRLF)] @ all_sent DATA_CMD # [all_sent (message_bytes sample_field_texts (replicate 40 (CHR ''A'')))])
      (new_client, (1, fresh_shared new_mail 1)) = Some (Inr (cl, q))
    \<and> handler_run sample_world (Some sample_ref) 1 \<lparr>hs_queue = q, hs_curl = True, hs_posts = []\<rparr> = Inr (Some hs)
    \<and> hs_posts hs = [(wd_url sample_world, out)] \<and> render (report_json sample_content sample_report) = ''{'' @ out @ ''}''
    \<and> pq_items (hs_queue hs) = []"
proof -
  let ?st = "(new_client, (1, fresh_shared new_mail 1))" and ?txt = "replicate 40 (CHR ''A'')"
  let ?msg = "message_bytes sample_field_texts ?txt"
  have st: "client_refines ?st smtp_start" by (simp add: client_refines_def new_client_def)
  have cmds: "list_all2 (answered config_init) (map fst [all_sent (''EHLO x'' @ CRLF)]) [reply_ehlo]" using ehlo_answered by simp
  have "?msg \<noteq> []" "int (length ?msg) \<le> read_buffer_size config_init"
    by (simp_all add: message_bytes_def END_DATA_def default_sizes sample_field_texts_def)
  then have pieces: "concat (map fst [all_sent ?msg]) = ?msg" "pieces_ok config_init [all_sent ?msg]"
    by (simp_all add: pieces_ok_def)
  have sends: "sends_answered ([all_sent (''EHLO x'' @ CRLF)] @ (DATA_CMD, \<lambda>k. 100) # [all_sent ?msg])"
    by (simp add: sends_answered_def all_sent_def)
  have q: "pq_ready \<lparr>map_len = slot_addr 1\<rparr> (snd ?st)" "pq_ready sample_ref (snd ?st)"
      "list_all (passed_over sample_world) (pq_items (snd ?st))" "length (pq_items (snd ?st)) < pq_cap (snd ?st)"
    and none: "pq_items (snd ?st) = []"
    using fresh_shared_inv [of 1 new_mail]
    by (simp_all add: pq_ready_def pq_items_def pq_cap_def fresh_shared_def all_mapped_def sample_ref_def slot_addr_def page_up_def
        page_size_def sz_values)
  have small: "6 \<le> read_buffer_size config_init" "length ?txt + 5 < BODY_MAX_LEN"
    by (simp_all add: max_len_defs default_sizes)
  note sent = report_reaches_service [OF st default_sizes(1) small(1) cmds sample_message_ok pieces sends q small(2)
      sample_mail_is sample_valid one_neq_zero sample_archive sample_zip_holds(1) [unfolded sample_zip_def]
      sample_zip_holds(2) sample_inflated(2)]
  have "inflated sample_world 4 ''dd'' = ''xml'' @ NUL # []" "no_nul ''xml''"
    by (simp_all add: sample_inflated(1) no_nul_def)
  then show ?thesis
    using sent sample_inflated(3,4) sample_report_plain unfolding none by (fastforce simp: all_sent_def)
qed

end
