(* ===== verification/Server_Spec.thy ===== *)
theory Server_Spec
  imports Session
begin

text \<open>
  The worker against a specification: a server that keeps for every descriptor a state of the
  dialogue and a bounded list of messages (header fields and body), and takes one event at a
  time. \<open>server_step\<close> are its steps, \<open>server_fault\<close> the events that it does not survive, and
  \<open>worker_refines\<close> is the simulation relation.
\<close>

section \<open>The specification\<close>

text \<open>
  The state of the dialogue of every descriptor, \<open>None\<close> for one on which no client was served
  yet, and the messages accepted. The first bytes on a descriptor find the dialogue at its start.
\<close>

type_synonym server_state = "(nat \<rightharpoonup> smtp) \<times> (field list \<times> string) list"

definition dialogue :: "smtp option \<Rightarrow> smtp" where
  "dialogue p = (case p of None \<Rightarrow> smtp_start | Some m \<Rightarrow> m)"

lemma dialogue_simps [simp]: "dialogue None = smtp_start" "dialogue (Some m) = m"
  by (simp_all add: dialogue_def)

text \<open>An event of the descriptor \<open>fd\<close> that is not a hang-up.\<close>

definition event_of :: "nat \<Rightarrow> client_event \<Rightarrow> nat \<Rightarrow> bool" where
  "event_of clients e fd \<longleftrightarrow> ce_fd e = int fd \<and> fd < clients \<and> \<not> ce_closed e"

definition hang_up_of :: "nat \<Rightarrow> client_event \<Rightarrow> nat \<Rightarrow> bool" where
  "hang_up_of clients e fd \<longleftrightarrow> ce_fd e = int fd \<and> fd < clients \<and> ce_closed e"

definition reads_bytes :: "config \<Rightarrow> client_event \<Rightarrow> string \<Rightarrow> bool" where
  "reads_bytes cfg e t \<longleftrightarrow> ce_read e = Some t \<and> t \<noteq> [] \<and> int (length t) \<le> read_buffer_size cfg"

text \<open>
  An answer is given to \<open>send\<close> in pieces of \<open>w\<close> bytes, up to the first call that fails: what was
  given to it, and whether none failed.
\<close>

function handed :: "nat \<Rightarrow> (nat \<Rightarrow> int) \<Rightarrow> nat \<Rightarrow> string \<Rightarrow> string \<times> bool" where
  "handed w ans k s =
     (if w = 0 \<or> length s \<le> w then (s, ans k \<noteq> -1)
      else if ans k = -1 then (take w s, False)
      else (case handed w ans (Suc k) (drop w s) of (r, ok) \<Rightarrow> (take w s @ r, ok)))"
  by pat_completeness auto

termination handed by (relation "measure (\<lambda>(w, ans, k, s). length s)") auto

declare handed.simps [simp del]

definition answer_handed :: "config \<Rightarrow> client_event \<Rightarrow> string \<Rightarrow> string \<times> bool" where
  "answer_handed cfg e s = handed (nat (write_buffer_size cfg)) (ce_send e) 0 s"

definition body_kept :: "string \<Rightarrow> string" where
  "body_kept txt = (if length txt + 5 < BODY_MAX_LEN then txt else [])"

text \<open>
  Bytes that complete no message are answered, and QUIT ends the dialogue; the end of a message puts
  it into the list, where there is room; an answer that is not sent, a message that is too large, a
  failed read and a hang-up end the dialogue; an empty read changes nothing. The string is what is
  given to \<open>send\<close>.
\<close>

inductive server_step ::
  "config \<Rightarrow> nat \<Rightarrow> nat \<Rightarrow> client_event \<Rightarrow> server_state \<Rightarrow> string \<Rightarrow> server_state \<Rightarrow> bool"
  for cfg :: config and clients cap :: nat where
  talk: "event_of clients e fd \<Longrightarrow> reads_bytes cfg e t \<Longrightarrow> reads_ok (data_buffer_size cfg) (dialogue (ms fd)) t \<Longrightarrow>
    m' = smtp_scan (data_buffer_size cfg) (dialogue (ms fd)) t \<Longrightarrow> \<not> sm_error m' \<Longrightarrow> \<not> sm_process m' \<Longrightarrow>
    answer_handed cfg e (sm_out m') = (r, ok) \<Longrightarrow>
    server_step cfg clients cap e (ms, q) r (ms(fd \<mapsto> if sm_quit m' \<or> \<not> ok then smtp_start else next_turn m'), q)"
| take: "event_of clients e fd \<Longrightarrow> reads_bytes cfg e t \<Longrightarrow> dialogue (ms fd) = in_message d \<Longrightarrow> message_ok cfg fs txt \<Longrightarrow>
    message_bytes fs txt = d @ t \<Longrightarrow> answer_handed cfg e reply_queued = (r, ok) \<Longrightarrow>
    server_step cfg clients cap e (ms, q) r
      (ms(fd \<mapsto> smtp_start), if length q < cap then q @ [(fs, body_kept txt)] else q)"
| refuse: "event_of clients e fd \<Longrightarrow> reads_bytes cfg e t \<Longrightarrow> reads_ok (data_buffer_size cfg) (dialogue (ms fd)) t \<Longrightarrow>
    sm_error (smtp_scan (data_buffer_size cfg) (dialogue (ms fd)) t) \<Longrightarrow>
    server_step cfg clients cap e (ms, q) [] (ms(fd \<mapsto> smtp_start), q)"
| lost: "event_of clients e fd \<Longrightarrow> ce_read e = None \<Longrightarrow>
    server_step cfg clients cap e (ms, q) [] (ms(fd \<mapsto> smtp_start), q)"
| silent: "event_of clients e fd \<Longrightarrow> ce_read e = Some [] \<Longrightarrow>
    server_step cfg clients cap e (ms, q) [] (ms(fd \<mapsto> dialogue (ms fd)), q)"
| hang_up: "hang_up_of clients e fd \<Longrightarrow> ms fd = Some m \<Longrightarrow>
    server_step cfg clients cap e (ms, q) [] (ms(fd \<mapsto> smtp_start), q)"

text \<open>
  The events that the worker does not survive: of a descriptor outside its pool, a hang-up before
  the first event of a descriptor, and the end of a message of fewer than 20 lines without a blank one.
\<close>

inductive server_fault :: "config \<Rightarrow> nat \<Rightarrow> client_event \<Rightarrow> server_state \<Rightarrow> fault \<Rightarrow> bool"
  for cfg :: config and clients :: nat where
  outside: "ce_fd e < 0 \<or> int clients \<le> ce_fd e \<Longrightarrow> server_fault cfg clients e S Out_Of_Bounds"
| unstarted: "hang_up_of clients e fd \<Longrightarrow> ms fd = None \<Longrightarrow> server_fault cfg clients e (ms, q) Uninit_Read"
| bodyless: "event_of clients e fd \<Longrightarrow> reads_bytes cfg e t \<Longrightarrow> dialogue (ms fd) = in_message d \<Longrightarrow>
    d @ t = msg @ END_DATA \<Longrightarrow> quiet [] (butlast (msg @ END_DATA)) \<Longrightarrow> int (length msg + 5) \<le> data_buffer_size cfg \<Longrightarrow>
    no_blank_line (stored_message msg) \<Longrightarrow> count_list msg CR < HEADER_MAX_LEN \<Longrightarrow>
    server_fault cfg clients e (ms, q) Uninit_Read"

text \<open>A run goes through the events, or up to the one that is a fault.\<close>

inductive server_run ::
  "config \<Rightarrow> nat \<Rightarrow> nat \<Rightarrow> client_event list \<Rightarrow> server_state \<Rightarrow> (int \<times> string) list \<Rightarrow> server_state res \<Rightarrow> bool"
  for cfg :: config and clients cap :: nat where
  idle: "server_run cfg clients cap [] S [] (Inr S)"
| event: "server_step cfg clients cap e S r S1 \<Longrightarrow> server_run cfg clients cap es S1 rs R \<Longrightarrow>
    server_run cfg clients cap (e # es) S ((ce_fd e, r) # rs) R"
| fault: "server_fault cfg clients e S f \<Longrightarrow> server_run cfg clients cap (e # es) S [] (Inl f)"

inductive_cases server_stepE [consumes 1, case_names talk take refuse lost silent hang_up]: "server_step cfg clients cap e S r S'"
inductive_cases server_faultE [consumes 1, case_names outside unstarted bodyless]: "server_fault cfg clients e S f"

inductive_simps server_run_Nil [simp]: "server_run cfg clients cap [] S rs R"

section \<open>Answers\<close>

lemma send_chunks_handed:
  "0 < w \<Longrightarrow> blk_holds b (pre @ t) \<Longrightarrow> t \<noteq> [] \<Longrightarrow>
   \<exists>calls. send_chunks (int w) ans b (length (pre @ t)) (length pre) k sent
       = Some (Inr (sent @ calls, snd (handed w ans k t)))
     \<and> concat (map fst calls) = map Some (fst (handed w ans k t))"
proof (induction w ans k t arbitrary: pre sent rule: handed.induct)
  case (1 w ans k t)
  let ?size = "min w (length t)"
  let ?u = "take ?size t" and ?v = "drop ?size t"
  have t: "pre @ t = (pre @ ?u) @ ?v" by simp
  have "blk_holds b (pre @ ?u)" using "1.prems"(2) blk_holds_prefix unfolding t by blast
  from blk_slice_holds [OF this] have slice: "blk_slice b (length pre) ?size = Inr (map Some ?u)"
    by (simp add: min_absorb2)
  have size: "nat (if int (length t) \<ge> int w then int w else int (length t)) = ?size" by auto
  have step: "send_chunks (int w) ans b (length (pre @ t)) (length pre) k sent =
    (if ans k = -1 then Some (Inr (sent @ [(map Some ?u, -1)], False))
     else send_chunks (int w) ans b (length (pre @ t)) (length (pre @ ?u)) (Suc k) (sent @ [(map Some ?u, ans k)]))"
    using slice "1.prems"(3) size
    by (subst send_chunks.simps) (simp add: Let_def min_absorb2 of_nat_diff)
  show ?case
  proof (cases "length t \<le> w")
    case True
    then have "send_chunks (int w) ans b (length (pre @ t)) (length (pre @ ?u)) (Suc k) sent' = Some (Inr (sent', True))" for sent'
      by (subst send_chunks.simps) simp
    then show ?thesis using True unfolding step handed.simps [of w ans k t]
      by (intro exI [of _ "[(map Some ?u, ans k)]"]) simp
  next
    case long: False
    show ?thesis
    proof (cases "ans k = -1")
      case True
      then show ?thesis using long "1.prems"(1) unfolding step handed.simps [of w ans k t]
        by (intro exI [of _ "[(map Some ?u, -1)]"]) simp
    next
      case False
      have v: "w \<noteq> 0 \<and> \<not> length t \<le> w" "?size = w" using long "1.prems"(1) by auto
      have "\<not> (w = 0 \<or> length t \<le> w)" using v(1) by simp
      note IH = "1.IH" [OF this False, of "pre @ ?u" "sent @ [(map Some ?u, ans k)]"]
      obtain calls where c: "send_chunks (int w) ans b (length (pre @ t)) (length (pre @ ?u)) (Suc k) (sent @ [(map Some ?u, ans k)])
          = Some (Inr ((sent @ [(map Some ?u, ans k)]) @ calls, snd (handed w ans (Suc k) (drop w t))))"
        "concat (map fst calls) = map Some (fst (handed w ans (Suc k) (drop w t)))"
        using IH "1.prems"(1,2) v by auto
      then show ?thesis using False v unfolding step handed.simps [of w ans k t]
        by (intro exI [of _ "(map Some ?u, ans k) # calls"]) (auto split: prod.split)
    qed
  qed
qed

lemma send_response_handed:
  assumes "0 < write_buffer_size cfg" "response_holds resp s"
  shows "\<exists>calls. send_response cfg ans resp = Some (Inr (calls, snd (handed (nat (write_buffer_size cfg)) ans 0 s)))
    \<and> concat (map fst calls) = map Some (fst (handed (nat (write_buffer_size cfg)) ans 0 s))"
proof (cases "int (length s) \<le> write_buffer_size cfg")
  case True
  then have "length s \<le> nat (write_buffer_size cfg)" by simp
  then show ?thesis using send_response_small [OF assms(2) True, of ans] by (simp add: handed.simps [of _ ans 0 s])
next
  case False
  then have "s \<noteq> []" using assms(1) by auto
  then obtain b where b: "rs_data resp = Some b" "blk_holds b s" "rs_data_len resp = length s"
    using assms(2) by (auto simp: response_holds_def dest: blk_holds_prefix split: option.splits)
  then show ?thesis using False assms(1) \<open>s \<noteq> []\<close> send_chunks_handed [of "nat (write_buffer_size cfg)" b "[]" s ans 0 "[]"]
    by (simp add: send_response_def)
qed

text \<open>The writing stage and the closing of the handler, whether the answer is sent or not.\<close>

lemma answer_given:
  assumes a: "answering lk0 lk req m" and sizes: "good_sizes cfg"
    and h: "handed (nat (write_buffer_size cfg)) ans 0 (sm_out m) = (r, ok)"
  obtains lk2 calls where "write_stage cfg ans lk = Some (Inr lk2)" "lk_sent (close_stage lk2) = lk_sent lk0 @ calls"
    "concat (map fst calls) = map Some r" "lk_queue (close_stage lk2) = lk_queue lk"
    "sm_quit m \<or> \<not> ok \<Longrightarrow> cn_status (lk_conn (close_stage lk2)) = CONN_INACTIVE"
    "\<not> sm_quit m \<Longrightarrow> ok \<Longrightarrow> close_stage lk2 = lk\<lparr>lk_sent := lk_sent lk0 @ calls, lk_conn := (lk_conn lk)\<lparr>cn_status := CONN_READING,
          cn_request := Some (clear_request req), cn_response := Some response_init, cn_read_buffer := None, cn_buffer_len := 0\<rparr>\<rparr>"
proof -
  obtain resp where resp: "cn_response (lk_conn lk) = Some resp" "response_holds resp (sm_out m)"
    using a by (auto simp: answering_def)
  obtain calls where c: "send_response cfg ans resp = Some (Inr (calls, ok))" "concat (map fst calls) = map Some r"
    using send_response_handed [OF _ resp(2), of cfg ans] sizes h by (auto simp: good_sizes_def)
  let ?lk = "lk\<lparr>lk_sent := lk_sent lk0 @ calls, lk_conn := (if ok then (lk_conn lk)\<lparr>cn_status := (if sm_quit m then CONN_CLOSED else CONN_READING),
      cn_request := Some (clear_request req), cn_response := Some response_init, cn_read_buffer := None, cn_buffer_len := 0\<rparr>
    else (lk_conn lk)\<lparr>cn_status := CONN_ERROR\<rparr>)\<rparr>"
  have "write_stage cfg ans lk = Some (Inr ?lk)"
    using a resp(1) c(1) by (auto simp: write_stage_def answering_def Let_def)
  then show thesis
    by (rule that [of ?lk calls]) (use c(2) in \<open>auto simp: Let_def close_stage_def connection_reset_def\<close>)
qed

lemma turn_given:
  assumes lk: "link_refines lk m" and sizes: "good_sizes cfg"
    and t: "t \<noteq> []" "int (length t) \<le> read_buffer_size cfg" "reads_ok (data_buffer_size cfg) m t"
    and m': "m' = smtp_scan (data_buffer_size cfg) m t" "\<not> sm_error m'" "\<not> sm_process m'"
    and h: "handed (nat (write_buffer_size cfg)) ans 0 (sm_out m') = (r, ok)"
  shows "\<exists>lk' calls. connection_handle cfg ref (Some t) ans lk = Some (Inr lk')
    \<and> lk_sent lk' = lk_sent lk @ calls \<and> concat (map fst calls) = map Some r \<and> lk_queue lk' = lk_queue lk
    \<and> (if sm_quit m' \<or> \<not> ok then cn_status (lk_conn lk') = CONN_INACTIVE else link_refines lk' (next_turn m'))"
proof -
  obtain lk1 req where r: "read_stage cfg ref (Some t) lk = Some (Inr lk1)" "answering lk lk1 req m'"
    "data_holds req (sm_data m')" "rq_process req = sm_process m'" "hdrs_sized (rq_headers req)"
    "rq_body req = None" "rq_body_len req = 0" "lk_queue lk1 = lk_queue lk"
    using read_stage_turn [OF lk sizes t m'] by blast
  obtain lk2 calls where w: "write_stage cfg ans lk1 = Some (Inr lk2)" "lk_sent (close_stage lk2) = lk_sent lk @ calls"
    "concat (map fst calls) = map Some r" "lk_queue (close_stage lk2) = lk_queue lk1"
    "sm_quit m' \<or> \<not> ok \<Longrightarrow> cn_status (lk_conn (close_stage lk2)) = CONN_INACTIVE"
    "\<not> sm_quit m' \<Longrightarrow> ok \<Longrightarrow> close_stage lk2 = lk1\<lparr>lk_sent := lk_sent lk @ calls, lk_conn := (lk_conn lk1)\<lparr>cn_status := CONN_READING,
          cn_request := Some (clear_request req), cn_response := Some response_init, cn_read_buffer := None, cn_buffer_len := 0\<rparr>\<rparr>"
    by (rule answer_given [OF r(2) sizes h]) blast
  have "cn_status (lk_conn lk) = CONN_READING" using lk by (simp add: link_refines_def)
  then have handle: "connection_handle cfg ref (Some t) ans lk = Some (Inr (close_stage lk2))"
    using r(1) w(1) by (simp add: connection_handle_def start_stage_def)
  have "link_refines (close_stage lk2) (next_turn m')" if "\<not> sm_quit m'" ok
    using r(2-7) m' response_holds_init start_refines request_init_sized that(1) unfolding w(6) [OF that]
    by (auto simp: link_refines_def next_turn_def clear_request_def request_refines_def answering_def smtp_start_def)
  then show ?thesis using handle w(2-5) r(8) by (intro exI [of _ "close_stage lk2"] exI [of _ calls]) simp
qed

lemma message_given:
  assumes lk: "link_refines lk (in_message d)" and sizes: "good_sizes cfg" and msg: "message_ok cfg fs txt"
    and t: "message_bytes fs txt = d @ t" "t \<noteq> []" "int (length t) \<le> read_buffer_size cfg"
    and q: "pq_ready ref (lk_queue lk)" and h: "handed (nat (write_buffer_size cfg)) ans 0 reply_queued = (r, ok)"
  shows "\<exists>lk' calls ml. connection_handle cfg (Some ref) (Some t) ans lk = Some (Inr lk')
    \<and> mail_is ml fs (body_kept txt) \<and> pq_ready ref (lk_queue lk') \<and> pq_cap (lk_queue lk') = pq_cap (lk_queue lk)
    \<and> pq_items (lk_queue lk') = (if length (pq_items (lk_queue lk)) < pq_cap (lk_queue lk)
         then pq_items (lk_queue lk) @ [ml] else pq_items (lk_queue lk))
    \<and> lk_sent lk' = lk_sent lk @ calls \<and> concat (map fst calls) = map Some r \<and> cn_status (lk_conn lk') = CONN_INACTIVE"
proof -
  let ?m = "(in_message d)\<lparr>sm_out := reply_queued, sm_in_data := False, sm_process := True, sm_quit := True\<rparr>"
  obtain lk1 req ml where r: "read_stage cfg (Some ref) (Some t) lk = Some (Inr lk1)" "answering lk lk1 req ?m"
    "mail_is ml fs (body_kept txt)" "pq_ready ref (lk_queue lk1)" "pq_cap (lk_queue lk1) = pq_cap (lk_queue lk)"
    "pq_items (lk_queue lk1) = (if length (pq_items (lk_queue lk)) < pq_cap (lk_queue lk)
         then pq_items (lk_queue lk) @ [ml] else pq_items (lk_queue lk))"
    using read_stage_message [OF lk in_message_simps(1) sizes t(2,3), of fs "txt" ref] msg q t(1)
    unfolding message_bytes_def message_ok_def in_message_simps body_kept_def by metis
  have out: "handed (nat (write_buffer_size cfg)) ans 0 (sm_out ?m) = (r, ok)" and quit: "sm_quit ?m" using h by simp_all
  obtain lk2 calls where w: "write_stage cfg ans lk1 = Some (Inr lk2)" "lk_sent (close_stage lk2) = lk_sent lk @ calls"
    "concat (map fst calls) = map Some r" "lk_queue (close_stage lk2) = lk_queue lk1"
    "sm_quit ?m \<or> \<not> ok \<Longrightarrow> cn_status (lk_conn (close_stage lk2)) = CONN_INACTIVE"
    by (rule answer_given [OF r(2) sizes out]) blast
  have "cn_status (lk_conn lk) = CONN_READING" using lk by (simp add: link_refines_def)
  then have "connection_handle cfg (Some ref) (Some t) ans lk = Some (Inr (close_stage lk2))"
    using r(1) w(1) by (simp add: connection_handle_def start_stage_def)
  then show ?thesis using r(3-6) w(2-4) w(5) quit
    by (intro exI [of _ "close_stage lk2"] exI [of _ calls] exI [of _ ml]) simp
qed

section \<open>One client\<close>

lemma client_refines_queue: "client_refines (cl, q) m \<Longrightarrow> client_refines (cl, q') m"
  by (auto simp: client_refines_def link_refines_def split: pool_conn.splits)

lemma client_refines_inactive:
  "cl_conn (fst st) = Used conn \<Longrightarrow> cn_status conn = CONN_INACTIVE \<Longrightarrow> client_refines st smtp_start"
  by (simp add: client_refines_def)

text \<open>
  What serving a client gives: its new state \<open>st'\<close> in state \<open>m\<close> of the dialogue, its connection
  in use, and \<open>r\<close> given to \<open>send\<close>.
\<close>

definition served :: "client \<times> mail pq_state \<Rightarrow> client \<times> mail pq_state \<Rightarrow> smtp \<Rightarrow> string \<Rightarrow> bool" where
  "served st st' m r \<longleftrightarrow> client_refines st' m \<and> (\<exists>conn. cl_conn (fst st') = Used conn)
     \<and> (\<exists>calls. cl_sent (fst st') = cl_sent (fst st) @ calls \<and> concat (map fst calls) = map Some r)"

lemma serve_handled:
  assumes st: "client_refines st m"
    and handled: "\<And>lk. link_refines lk m \<Longrightarrow> lk_queue lk = snd st \<Longrightarrow> \<exists>lk' calls. connection_handle cfg ref rd ans lk = Some (Inr lk')
      \<and> lk_sent lk' = lk_sent lk @ calls \<and> concat (map fst calls) = map Some r
      \<and> (link_refines lk' m' \<or> cn_status (lk_conn lk') = CONN_INACTIVE \<and> m' = smtp_start) \<and> P (lk_queue lk')"
  shows "\<exists>st'. serve_client cfg ref False rd ans (fst st) (snd st) = Some (Inr st') \<and> served st st' m' r \<and> P (snd st')"
proof -
  obtain lk where lk: "link_refines lk m" "lk_queue lk = snd st" "lk_sent lk = cl_sent (fst st)"
    "\<And>rd ans. serve_client cfg ref False rd ans (fst st) (snd st)
       = abind (connection_handle cfg ref rd ans lk) (\<lambda>lk. Some (Inr (link_client lk)))"
    by (rule serve_client_link [OF st]) blast
  obtain lk' calls where lk': "connection_handle cfg ref rd ans lk = Some (Inr lk')" "lk_sent lk' = lk_sent lk @ calls"
    "concat (map fst calls) = map Some r" "P (lk_queue lk')"
    "link_refines lk' m' \<or> cn_status (lk_conn lk') = CONN_INACTIVE \<and> m' = smtp_start"
    using handled [OF lk(1,2)] by blast
  have "client_refines (link_client lk') m'"
    using lk'(5) by (auto simp: link_client_refines client_refines_inactive)
  then show ?thesis by (intro exI [of _ "link_client lk'"]) (simp add: lk lk' served_def)
qed

lemma serve_fault:
  assumes st: "client_refines st m" and handled: "\<And>lk. link_refines lk m \<Longrightarrow> connection_handle cfg ref rd ans lk = Some (Inl f)"
  shows "serve_client cfg ref False rd ans (fst st) (snd st) = Some (Inl f)"
proof -
  obtain lk where lk: "link_refines lk m"
    "\<And>rd ans. serve_client cfg ref False rd ans (fst st) (snd st)
       = abind (connection_handle cfg ref rd ans lk) (\<lambda>lk. Some (Inr (link_client lk)))"
    by (rule serve_client_link [OF st]) blast
  show ?thesis by (simp add: lk(2) handled [OF lk(1)])
qed

text \<open>A hang-up: the connection is closed without being read.\<close>

lemma serve_hang_up:
  assumes "cl_conn (fst st) = Used conn"
  shows "\<exists>st'. serve_client cfg ref True rd ans (fst st) (snd st) = Some (Inr st') \<and> snd st' = snd st \<and> served st st' smtp_start []"
  using assms by (auto simp: serve_client_def close_conn_def pool_handle_def connection_handle_def start_stage_def read_stage_def
      write_stage_def close_stage_def Let_def connection_reset_def served_def client_refines_def)

text \<open>A message that is too large, a failed read and an empty read.\<close>

lemma handle_refused:
  assumes lk: "link_refines lk m" and t: "t \<noteq> []" "int (length t) \<le> read_buffer_size cfg" "reads_ok (data_buffer_size cfg) m t"
    and error: "sm_error (smtp_scan (data_buffer_size cfg) m t)" and sizes: "good_sizes cfg"
  shows "\<exists>lk'. connection_handle cfg ref (Some t) ans lk = Some (Inr lk') \<and> lk_sent lk' = lk_sent lk
    \<and> lk_queue lk' = lk_queue lk \<and> cn_status (lk_conn lk') = CONN_INACTIVE"
proof -
  obtain req resp conn where r: "read_socket cfg (Some t) (lk_conn lk) = Inr conn"
    "received conn req resp t" "cn_status conn = CONN_READING" "request_refines req resp m"
    using read_socket_received [OF lk _ t(1,2)] sizes by (auto simp: good_sizes_def)
  have m: "\<not> sm_error m" "cn_status (lk_conn lk) = CONN_READING" using lk by (simp_all add: link_refines_def)
  obtain req' resp' where p: "request_parse_commands cfg conn = Inr (conn\<lparr>cn_request := Some req',
       cn_response := Some resp', cn_status := CONN_ERROR\<rparr>, 1)"
    using parse_commands_loop [OF r(2) t(3) r(4) m(1) r(3)] error by (auto simp: Let_def)
  have "cn_buffer_len conn > 0" using r(2) t(1) by (simp add: received_def)
  then show ?thesis
    by (simp add: connection_handle_def start_stage_def m(2) read_stage_def r(1,3) p write_stage_def close_stage_def Let_def
        connection_reset_def)
qed

lemma handle_lost:
  assumes "link_refines lk m" "good_sizes cfg"
  shows "\<exists>lk'. connection_handle cfg ref None ans lk = Some (Inr lk') \<and> lk_sent lk' = lk_sent lk
    \<and> lk_queue lk' = lk_queue lk \<and> cn_status (lk_conn lk') = CONN_INACTIVE"
  using assms by (simp add: link_refines_def good_sizes_def connection_handle_def start_stage_def read_stage_def read_socket_def
      write_stage_def close_stage_def Let_def connection_reset_def)

lemma handle_silent:
  assumes "link_refines lk m" "good_sizes cfg"
  shows "\<exists>lk'. connection_handle cfg ref (Some []) ans lk = Some (Inr lk') \<and> lk_sent lk' = lk_sent lk
    \<and> lk_queue lk' = lk_queue lk \<and> link_refines lk' m"
  using assms by (auto simp: link_refines_def good_sizes_def connection_handle_def start_stage_def read_stage_def read_socket_def
      write_stage_def close_stage_def Let_def blk_copy_def)

section \<open>The simulation\<close>

definition queue_refines :: "pq_ref \<Rightarrow> nat \<Rightarrow> mail pq_state \<Rightarrow> (field list \<times> string) list \<Rightarrow> bool" where
  "queue_refines ref cap q ms \<longleftrightarrow> pq_ready ref q \<and> pq_cap q = cap \<and> list_all2 (\<lambda>ml m. mail_is ml (fst m) (snd m)) (pq_items q) ms"

text \<open>A client that was served before has a connection in use.\<close>

definition peer_refines :: "client \<times> mail pq_state \<Rightarrow> smtp option \<Rightarrow> bool" where
  "peer_refines st p \<longleftrightarrow> client_refines st (dialogue p) \<and> (p = None \<longleftrightarrow> \<not> (\<exists>conn. cl_conn (fst st) = Used conn))"

lemma peer_refines_queue: "peer_refines (cl, q) p \<Longrightarrow> peer_refines (cl, q') p"
  unfolding peer_refines_def using client_refines_queue [of cl q "dialogue p" q'] by simp

definition worker_refines :: "pq_ref \<Rightarrow> nat \<Rightarrow> worker_state \<Rightarrow> server_state \<Rightarrow> bool" where
  "worker_refines ref cap ws S \<longleftrightarrow> queue_refines ref cap (ws_queue ws) (snd S)
     \<and> (\<forall>i < length (ws_clients ws). peer_refines (ws_clients ws ! i, ws_queue ws) (fst S i))"

text \<open>All that was sent to the descriptor \<open>i\<close>, and what the answers in a run are for it.\<close>

definition sent_to :: "worker_state \<Rightarrow> nat \<Rightarrow> char option list" where
  "sent_to ws i = concat (map fst (cl_sent (ws_clients ws ! i)))"

definition answers_to :: "nat \<Rightarrow> (int \<times> string) list \<Rightarrow> string" where
  "answers_to i rs = concat (map snd (filter (\<lambda>r. fst r = int i) rs))"

text \<open>Every step of the specification on the client of its event, and on the queue.\<close>

lemma serve_step:
  assumes step: "server_step cfg clients cap e S r S'" and fd: "ce_fd e = int fd"
    and sizes: "good_sizes cfg" and peer: "peer_refines (cl, q) (fst S fd)" and queue: "queue_refines ref cap q (snd S)"
  shows "\<exists>st' m. serve_client cfg (Some ref) (ce_closed e) (ce_read e) (ce_send e) cl q = Some (Inr st')
    \<and> fst S' = (fst S)(fd \<mapsto> m) \<and> served (cl, q) st' m r \<and> queue_refines ref cap (snd st') (snd S') \<and> fd < clients"
proof -
  note st = peer [unfolded peer_refines_def, THEN conjunct1]
  show ?thesis
    using step
  proof (cases rule: server_stepE)
    case (talk fd' t ms ok q')
    let ?m = "smtp_scan (data_buffer_size cfg) (dialogue (fst S fd)) t"
    from talk have e: "fd' = fd" "\<not> ce_closed e" "fd < clients" "ce_read e = Some t" "t \<noteq> []" "int (length t) \<le> read_buffer_size cfg"
      using fd by (auto simp: event_of_def reads_bytes_def)
    have h: "handed (nat (write_buffer_size cfg)) (ce_send e) 0 (sm_out ?m) = (r, ok)"
      using talk e(1) by (simp add: answer_handed_def)
    have "\<exists>st'. serve_client cfg (Some ref) False (Some t) (ce_send e) (fst (cl, q)) (snd (cl, q)) = Some (Inr st')
        \<and> served (cl, q) st' (if sm_quit ?m \<or> \<not> ok then smtp_start else next_turn ?m) r \<and> snd st' = q"
    proof (rule serve_handled [OF st])
      fix lk assume lk: "link_refines lk (dialogue (fst S fd))" "lk_queue lk = snd (cl, q)"
      have m': "reads_ok (data_buffer_size cfg) (dialogue (fst S fd)) t" "?m = smtp_scan (data_buffer_size cfg) (dialogue (fst S fd)) t"
        "\<not> sm_error ?m" "\<not> sm_process ?m"
        using talk e(1) by simp_all
      from turn_given [OF lk(1) sizes e(5,6) m' h, of "Some ref"] lk(2)
      show "\<exists>lk' calls. connection_handle cfg (Some ref) (Some t) (ce_send e) lk = Some (Inr lk')
        \<and> lk_sent lk' = lk_sent lk @ calls \<and> concat (map fst calls) = map Some r
        \<and> (link_refines lk' (if sm_quit ?m \<or> \<not> ok then smtp_start else next_turn ?m)
            \<or> cn_status (lk_conn lk') = CONN_INACTIVE \<and> (if sm_quit ?m \<or> \<not> ok then smtp_start else next_turn ?m) = smtp_start)
        \<and> lk_queue lk' = q"
        by (auto split: if_splits)
    qed
    then show ?thesis using talk e queue by auto
  next
    case (take fd' t ms d fs txt' ok q')
    then have e: "fd' = fd" "\<not> ce_closed e" "fd < clients" "ce_read e = Some t" "t \<noteq> []" "int (length t) \<le> read_buffer_size cfg"
      using fd by (auto simp: event_of_def reads_bytes_def)
    have h: "handed (nat (write_buffer_size cfg)) (ce_send e) 0 reply_queued = (r, ok)"
      using take by (simp add: answer_handed_def)
    have d: "client_refines (cl, q) (in_message d)" using st take e(1) by simp
    have len: "length (pq_items q) = length q'" using queue take by (auto simp: queue_refines_def dest: list_all2_lengthD)
    have "\<exists>st'. serve_client cfg (Some ref) False (Some t) (ce_send e) (fst (cl, q)) (snd (cl, q)) = Some (Inr st')
        \<and> served (cl, q) st' smtp_start r
        \<and> queue_refines ref cap (snd st') (if length q' < cap then q' @ [(fs, body_kept txt')] else q')"
    proof (rule serve_handled [OF d])
      fix lk assume lk: "link_refines lk (in_message d)" "lk_queue lk = snd (cl, q)"
      have "pq_ready ref (lk_queue lk)" using lk(2) queue by (simp add: queue_refines_def)
      from message_given [OF lk(1) sizes _ _ e(5,6) this h, of fs txt'] take obtain lk' calls ml where
        lk': "connection_handle cfg (Some ref) (Some t) (ce_send e) lk = Some (Inr lk')"
          "mail_is ml fs (body_kept txt')" "pq_ready ref (lk_queue lk')" "pq_cap (lk_queue lk') = pq_cap (lk_queue lk)"
          "pq_items (lk_queue lk') = (if length (pq_items (lk_queue lk)) < pq_cap (lk_queue lk)
            then pq_items (lk_queue lk) @ [ml] else pq_items (lk_queue lk))"
          "lk_sent lk' = lk_sent lk @ calls" "concat (map fst calls) = map Some r" "cn_status (lk_conn lk') = CONN_INACTIVE"
        by blast
      have "queue_refines ref cap (lk_queue lk') (if length q' < cap then q' @ [(fs, body_kept txt')] else q')"
        using lk'(2-5) lk(2) queue len take by (auto simp: queue_refines_def intro: list_all2_appendI)
      then show "\<exists>lk' calls. connection_handle cfg (Some ref) (Some t) (ce_send e) lk = Some (Inr lk')
        \<and> lk_sent lk' = lk_sent lk @ calls \<and> concat (map fst calls) = map Some r
        \<and> (link_refines lk' smtp_start \<or> cn_status (lk_conn lk') = CONN_INACTIVE \<and> smtp_start = smtp_start)
        \<and> queue_refines ref cap (lk_queue lk') (if length q' < cap then q' @ [(fs, body_kept txt')] else q')"
        using lk'(1,6-8) by blast
    qed
    then show ?thesis using take e by auto
  next
    case (refuse fd' t ms q')
    then have e: "fd' = fd" "\<not> ce_closed e" "fd < clients" "ce_read e = Some t" "t \<noteq> []" "int (length t) \<le> read_buffer_size cfg"
      using fd by (auto simp: event_of_def reads_bytes_def)
    have "\<exists>st'. serve_client cfg (Some ref) False (Some t) (ce_send e) (fst (cl, q)) (snd (cl, q)) = Some (Inr st')
        \<and> served (cl, q) st' smtp_start [] \<and> snd st' = q"
    proof (rule serve_handled [OF st])
      fix lk assume lk: "link_refines lk (dialogue (fst S fd))" "lk_queue lk = snd (cl, q)"
      have m: "reads_ok (data_buffer_size cfg) (dialogue (fst S fd)) t" "sm_error (smtp_scan (data_buffer_size cfg) (dialogue (fst S fd)) t)"
        using refuse e(1) by simp_all
      then show "\<exists>lk' calls. connection_handle cfg (Some ref) (Some t) (ce_send e) lk = Some (Inr lk')
        \<and> lk_sent lk' = lk_sent lk @ calls \<and> concat (map fst calls) = map Some []
        \<and> (link_refines lk' smtp_start \<or> cn_status (lk_conn lk') = CONN_INACTIVE \<and> smtp_start = smtp_start) \<and> lk_queue lk' = q"
        using handle_refused [OF lk(1) e(5,6) m sizes, of "Some ref" "ce_send e"] lk(2) by auto
    qed
    then show ?thesis using refuse queue e by auto
  next
    case (lost fd' ms q')
    then have e: "fd' = fd" "\<not> ce_closed e" "fd < clients" using fd by (auto simp: event_of_def)
    have "\<exists>st'. serve_client cfg (Some ref) False None (ce_send e) (fst (cl, q)) (snd (cl, q)) = Some (Inr st')
        \<and> served (cl, q) st' smtp_start [] \<and> snd st' = q"
      by (rule serve_handled [OF st]) (use handle_lost [OF _ sizes, of _ _ "Some ref" "ce_send e"] in fastforce)
    then show ?thesis using lost queue e by auto
  next
    case (silent fd' ms q')
    then have e: "fd' = fd" "\<not> ce_closed e" "fd < clients" using fd by (auto simp: event_of_def)
    have "\<exists>st'. serve_client cfg (Some ref) False (Some []) (ce_send e) (fst (cl, q)) (snd (cl, q)) = Some (Inr st')
        \<and> served (cl, q) st' (dialogue (fst S fd)) [] \<and> snd st' = q"
      by (rule serve_handled [OF st]) (use handle_silent [OF _ sizes, of _ _ "Some ref" "ce_send e"] in fastforce)
    then show ?thesis using silent queue e by auto
  next
    case (hang_up fd' ms m q')
    then have e: "fd' = fd" "ce_closed e" "fd < clients" using fd by (auto simp: hang_up_of_def)
    then obtain conn where "cl_conn (fst (cl, q)) = Used conn" using peer hang_up by (auto simp: peer_refines_def)
    from serve_hang_up [OF this, of cfg "Some ref" "ce_read e" "ce_send e"] show ?thesis using hang_up queue e by auto
  qed
qed

lemma worker_step:
  assumes step: "server_step cfg (length (ws_clients ws)) cap e S r S'" and sizes: "good_sizes cfg"
    and ws: "worker_refines ref cap ws S"
  shows "\<exists>ws'. worker_event cfg (Some ref) (ce_fd e) (ce_closed e) (ce_read e) (ce_send e) ws = Some (Inr ws')
    \<and> worker_refines ref cap ws' S' \<and> length (ws_clients ws') = length (ws_clients ws)
    \<and> (\<forall>i < length (ws_clients ws). sent_to ws' i = sent_to ws i @ map Some (answers_to i [(ce_fd e, r)]))"
proof -
  obtain fd where fd: "ce_fd e = int fd" "fd < length (ws_clients ws)"
    using step by (cases rule: server_stepE) (auto simp: event_of_def hang_up_of_def)
  have st: "peer_refines (ws_clients ws ! fd, ws_queue ws) (fst S fd)" "queue_refines ref cap (ws_queue ws) (snd S)"
    using ws fd(2) by (simp_all add: worker_refines_def)
  obtain st' m where st': "serve_client cfg (Some ref) (ce_closed e) (ce_read e) (ce_send e) (ws_clients ws ! fd) (ws_queue ws) = Some (Inr st')"
    "served (ws_clients ws ! fd, ws_queue ws) st' m r" "queue_refines ref cap (snd st') (snd S')" "fst S' = (fst S)(fd \<mapsto> m)"
    using serve_step [OF step fd(1) sizes st] by blast
  obtain cl q where cq: "st' = (cl, q)" by (cases st')
  let ?ws = "ws\<lparr>ws_clients := (ws_clients ws)[fd := cl], ws_queue := q\<rparr>"
  have "worker_event cfg (Some ref) (ce_fd e) (ce_closed e) (ce_read e) (ce_send e) ws = Some (Inr ?ws)"
    using st'(1) fd by (simp add: worker_event_def cq)
  moreover have "peer_refines (ws_clients ?ws ! i, ws_queue ?ws) (fst S' i)" if "i < length (ws_clients ?ws)" for i
    using st'(2) ws that peer_refines_queue [of "ws_clients ws ! i" "ws_queue ws"] unfolding st'(4)
    by (cases "i = fd") (auto simp: served_def cq worker_refines_def peer_refines_def)
  moreover have "sent_to ?ws i = sent_to ws i @ map Some (answers_to i [(ce_fd e, r)])" if "i < length (ws_clients ws)" for i
    using st'(2) that fd by (cases "i = fd") (auto simp: served_def sent_to_def answers_to_def cq)
  ultimately show ?thesis using st'(3) by (intro exI [of _ ?ws]) (simp add: worker_refines_def cq)
qed

lemma worker_fault:
  assumes bad: "server_fault cfg (length (ws_clients ws)) e S f" and sizes: "good_sizes cfg"
    and ws: "worker_refines ref cap ws S"
  shows "worker_event cfg (Some ref) (ce_fd e) (ce_closed e) (ce_read e) (ce_send e) ws = Some (Inl f)"
  using bad
proof (cases rule: server_faultE)
  case outside
  then show ?thesis by (auto simp: worker_event_def)
next
  case (unstarted fd ms q)
  then have fd: "ce_fd e = int fd" "fd < length (ws_clients ws)" "ce_closed e" by (simp_all add: hang_up_of_def)
  then have "peer_refines (ws_clients ws ! fd, ws_queue ws) None" using ws unstarted by (auto simp: worker_refines_def)
  then have "cl_conn (ws_clients ws ! nat (ce_fd e)) = Raw CONN_INACTIVE"
    using fd(1) by (auto simp: peer_refines_def client_refines_def split: pool_conn.splits)
  then show ?thesis using fd raw_hangup_faults [of ws "ce_fd e"] unstarted by simp
next
  case (bodyless fd t ms d msg q)
  then have fd: "ce_fd e = int fd" "fd < length (ws_clients ws)" "\<not> ce_closed e" "ce_read e = Some t" "t \<noteq> []"
    "int (length t) \<le> read_buffer_size cfg"
    by (simp_all add: event_of_def reads_bytes_def)
  have st: "client_refines (ws_clients ws ! fd, ws_queue ws) (in_message d)"
    using ws fd(2) bodyless by (auto simp: worker_refines_def peer_refines_def)
  have "serve_client cfg (Some ref) False (Some t) (ce_send e) (ws_clients ws ! fd) (ws_queue ws) = Some (Inl Uninit_Read)"
    using serve_fault [OF st, of cfg "Some ref" "Some t" "ce_send e" Uninit_Read] bodyless
      bodyless_handled [OF _ in_message_simps(1) sizes fd(5,6)] by simp
  then show ?thesis using fd bodyless by (simp add: worker_event_def)
qed

definition run_result :: "pq_ref \<Rightarrow> nat \<Rightarrow> worker_state \<Rightarrow> (int \<times> string) list \<Rightarrow> worker_state \<Rightarrow> server_state \<Rightarrow> bool" where
  "run_result ref cap ws rs ws' S' \<longleftrightarrow> worker_refines ref cap ws' S'
     \<and> (\<forall>i < length (ws_clients ws). sent_to ws' i = sent_to ws i @ map Some (answers_to i rs))"

lemma worker_run:
  "server_run cfg n cap es S rs R \<Longrightarrow> n = length (ws_clients ws) \<Longrightarrow> good_sizes cfg \<Longrightarrow> worker_refines ref cap ws S \<Longrightarrow>
     (case R of Inl f \<Rightarrow> worker_events cfg (Some ref) es ws = Some (Inl f)
      | Inr S' \<Rightarrow> \<exists>ws'. worker_events cfg (Some ref) es ws = Some (Inr ws') \<and> run_result ref cap ws rs ws' S')"
proof (induction es S rs R arbitrary: ws rule: server_run.induct)
  case (idle S)
  then show ?case by (simp add: answers_to_def run_result_def)
next
  case (event e S r S1 es rs R)
  obtain ws1 where ws1: "worker_event cfg (Some ref) (ce_fd e) (ce_closed e) (ce_read e) (ce_send e) ws = Some (Inr ws1)"
    "worker_refines ref cap ws1 S1" "length (ws_clients ws1) = length (ws_clients ws)"
    "\<forall>i < length (ws_clients ws). sent_to ws1 i = sent_to ws i @ map Some (answers_to i [(ce_fd e, r)])"
    using worker_step [OF event.hyps(1) [unfolded event.prems(1)] event.prems(2,3)] by blast
  have IH: "case R of Inl f \<Rightarrow> worker_events cfg (Some ref) es ws1 = Some (Inl f)
      | Inr S' \<Rightarrow> \<exists>ws'. worker_events cfg (Some ref) es ws1 = Some (Inr ws') \<and> run_result ref cap ws1 rs ws' S'"
    by (rule event.IH) (use ws1 event.prems(1,2) in simp_all)
  have "run_result ref cap ws ((ce_fd e, r) # rs) ws' S'" if "run_result ref cap ws1 rs ws' S'" for ws' S'
    using that ws1(3,4) by (simp add: run_result_def answers_to_def)
  then show ?case using IH ws1(1) by (cases R) auto
next
  case (fault e S f es)
  then show ?case using worker_fault [of cfg ws e S f ref cap] by simp
qed

section \<open>The loop\<close>

lemma worker_loop_reaches:
  "inputs_fit cfg evhand xs \<Longrightarrow> worker_events cfg ref (concat (map input_events xs)) ws = Some (Inr ws') \<Longrightarrow>
     \<exists>evhand'. worker_loop cfg ref xs (evhand, ws) = Some (Inr (evhand', ws'))"
proof (induction xs arbitrary: evhand ws)
  case (Cons x xs)
  have "inputs_fit cfg evhand [x]" using Cons.prems(1) by (simp add: inputs_fit_def)
  from worker_turn_events [OF this, of ref ws] obtain e where
    e: "worker_turn cfg ref x (evhand, ws) = abind (worker_events cfg ref (input_events x) ws) (\<lambda>ws. Some (Inr (e, ws)))"
    "length (eh_array e) = length (eh_array evhand)" by blast
  obtain ws1 where ws1: "worker_events cfg ref (input_events x) ws = Some (Inr ws1)"
    "worker_events cfg ref (concat (map input_events xs)) ws1 = Some (Inr ws')"
    using Cons.prems(2) by (auto simp: worker_events_append abind_eq_value_iff)
  have "inputs_fit cfg e xs" using Cons.prems(1) unfolding inputs_fit_def e(2) by simp
  then show ?case using Cons.IH [OF _ ws1(2)] ws1(1) e(1) by simp
qed simp

lemma worker_loop_faults:
  "inputs_fit cfg evhand xs \<Longrightarrow> worker_events cfg ref (concat (map input_events xs)) ws = Some (Inl f) \<Longrightarrow>
     worker_loop cfg ref xs (evhand, ws) = Some (Inl f)"
proof (induction xs arbitrary: evhand ws)
  case (Cons x xs)
  have "inputs_fit cfg evhand [x]" using Cons.prems(1) by (simp add: inputs_fit_def)
  from worker_turn_events [OF this, of ref ws] obtain e where
    e: "worker_turn cfg ref x (evhand, ws) = abind (worker_events cfg ref (input_events x) ws) (\<lambda>ws. Some (Inr (e, ws)))"
    "length (eh_array e) = length (eh_array evhand)" by blast
  have fit: "inputs_fit cfg e xs" using Cons.prems(1) unfolding inputs_fit_def e(2) by simp
  consider "worker_events cfg ref (input_events x) ws = Some (Inl f)"
    | ws1 where "worker_events cfg ref (input_events x) ws = Some (Inr ws1)"
        "worker_events cfg ref (concat (map input_events xs)) ws1 = Some (Inl f)"
    using Cons.prems(2) by (cases "worker_events cfg ref (input_events x) ws")
      (auto simp: worker_events_append abind_def split: sum.splits)
  then show ?case by cases (use e(1) Cons.IH [OF fit] in simp_all)
qed simp

text \<open>
  C2. The worker loop refines the specified server. The events of a run are any that the steps of the
  specification describe: bytes that complete no message, the end of a message that can be accepted
  (whatever the read boundaries), a message that is too large, empty and failed reads, answers of which
  a \<open>send\<close> fails, hang-ups of clients served before; and the three kinds of events of
  \<open>server_fault\<close>, which end the run. As long as the array of events holds what epoll reports: the
  loop takes the events of a run without a fault and ends in a state the specification's state
  describes (every connection in the state of its dialogue, the queue file with the messages
  accepted, in their order, and those dropped because it was full left out), and every client was
  sent what the specification gives it for its own events, in order, and nothing else; and where the
  run ends in a fault, so does the loop. Messages of another form than \<open>message_ok\<close> are no steps of
  the specification.
\<close>

theorem worker_refines_server:
  assumes fit: "inputs_fit cfg evhand xs" and sizes: "good_sizes cfg"
    and run: "server_run cfg (length (ws_clients ws)) cap (concat (map input_events xs)) S rs R"
    and ws: "worker_refines ref cap ws S"
  shows "case R of
      Inl f \<Rightarrow> worker_loop cfg (Some ref) xs (evhand, ws) = Some (Inl f)
    | Inr S' \<Rightarrow> \<exists>evhand' ws'. worker_loop cfg (Some ref) xs (evhand, ws) = Some (Inr (evhand', ws'))
        \<and> worker_refines ref cap ws' S'
        \<and> (\<forall>i < length (ws_clients ws). sent_to ws' i = sent_to ws i @ map Some (answers_to i rs))"
proof (cases R)
  case (Inl f)
  then show ?thesis using worker_run [OF run refl sizes ws] worker_loop_faults [OF fit] by simp
next
  case (Inr S')
  then obtain ws' where ws': "worker_events cfg (Some ref) (concat (map input_events xs)) ws = Some (Inr ws')"
    "run_result ref cap ws rs ws' S'"
    using worker_run [OF run refl sizes ws] by auto
  then show ?thesis using worker_loop_reaches [OF fit ws'(1)] Inr by (auto simp: run_result_def)
qed

section \<open>Two clients\<close>

definition bytes_event :: "nat \<times> string \<Rightarrow> client_event" where
  "bytes_event x = \<lparr>ce_fd = int (fst x), ce_closed = False, ce_read = Some (snd x), ce_send = \<lambda>k. 100\<rparr>"

definition bytes_ready :: "(nat \<times> string) list \<Rightarrow> epoll_event list option \<times> io" where
  "bytes_ready xs = (Some (map (\<lambda>x. \<lparr>ev_events = EPOLLIN, ev_fd = int (fst x), ev_pad = 0\<rparr>) xs),
     \<lambda>i. (Some (snd (xs ! i)), \<lambda>k. 100))"

lemma bytes_ready_events: "input_events (bytes_ready xs) = map bytes_event xs"
  by (rule nth_equalityI) (simp_all add: bytes_ready_def bytes_event_def client_event_def ready_values)

lemma bytes_event_ok:
  "fd < clients \<Longrightarrow> event_of clients (bytes_event (fd, t)) fd"
  "t \<noteq> [] \<Longrightarrow> int (length t) \<le> read_buffer_size cfg \<Longrightarrow> reads_bytes cfg (bytes_event (fd, t)) t"
  by (simp_all add: event_of_def reads_bytes_def bytes_event_def)

lemma handed_answered: "\<forall>k. ans k \<noteq> -1 \<Longrightarrow> handed w ans k s = (s, True)"
  by (induction w ans k s rule: handed.induct) (subst handed.simps, simp)

lemma bytes_event_handed: "answer_handed cfg (bytes_event x) s = (s, True)"
  by (simp add: answer_handed_def bytes_event_def handed_answered)

lemma run_talk:
  assumes "server_run cfg clients cap es (ms(fd \<mapsto> if sm_quit m' then smtp_start else next_turn m'), q) rs R"
    and "smtp_scan (data_buffer_size cfg) (dialogue (ms fd)) t = m'" "\<not> sm_error m'" "\<not> sm_process m'"
    and "fd < clients" "t \<noteq> []" "int (length t) \<le> read_buffer_size cfg" "last t = LF"
  shows "server_run cfg clients cap (bytes_event (fd, t) # es) (ms, q) ((int fd, sm_out m') # rs) R"
proof -
  have "server_step cfg clients cap (bytes_event (fd, t)) (ms, q) (sm_out m')
      (ms(fd \<mapsto> if sm_quit m' \<or> \<not> True then smtp_start else next_turn m'), q)"
    by (rule server_step.talk [where t = t and m' = m'])
      (use assms(2-) in \<open>simp_all add: bytes_event_ok bytes_event_handed reads_ok_line\<close>)
  then have "server_step cfg clients cap (bytes_event (fd, t)) (ms, q) (sm_out m')
      (ms(fd \<mapsto> if sm_quit m' then smtp_start else next_turn m'), q)" by simp
  from server_run.event [OF this assms(1)] show ?thesis by (simp add: bytes_event_def)
qed

definition ehlo_line :: string where "ehlo_line = ''EHLO x'' @ CRLF"
definition quit_line :: string where "quit_line = ''QUIT'' @ CRLF"

lemma some_lines:
  "ehlo_line \<noteq> []" "last ehlo_line = LF" "length ehlo_line = 8" "quit_line \<noteq> []" "last quit_line = LF" "length quit_line = 6"
  "DATA_CMD \<noteq> []" "last DATA_CMD = LF" "length DATA_CMD = 6"
  by (simp_all add: ehlo_line_def quit_line_def DATA_CMD_def)

definition small_message :: string where
  "small_message = ''From: a'' @ CRLF @ CRLF @ ''hi'' @ CRLF @ ''.'' @ CRLF"

text \<open>Client 2 hangs up after its QUIT, while client 1 sends a message.\<close>

definition bytes_and_hang_up :: "epoll_event list option \<times> io" where
  "bytes_and_hang_up = (Some [\<lparr>ev_events = EPOLLRDHUP, ev_fd = 2, ev_pad = 0\<rparr>, \<lparr>ev_events = EPOLLIN, ev_fd = 1, ev_pad = 0\<rparr>],
     \<lambda>i. (if i = 0 then None else Some small_message, \<lambda>k. 100))"

definition gone :: client_event where
  "gone = \<lparr>ce_fd = 2, ce_closed = True, ce_read = None, ce_send = \<lambda>k. 100\<rparr>"

lemma hang_up_bit: "EPOLLRDHUP \<noteq> 0"
  by (simp add: EPOLLRDHUP_def)

lemma bytes_and_hang_up_events: "input_events bytes_and_hang_up = [gone, bytes_event (1, small_message)]"
  by (simp add: bytes_and_hang_up_def gone_def bytes_event_def client_event_def ready_values hang_up_bit numeral_2_eq_2)

definition two_clients :: "(epoll_event list option \<times> io) list" where
  "two_clients = [bytes_ready [(1, ehlo_line), (2, ehlo_line)],
     bytes_ready [(1, DATA_CMD), (2, quit_line)], bytes_and_hang_up]"

definition three_slots :: worker_state where
  "three_slots = \<lparr>ws_clients = replicate 3 new_client, ws_queue = (1, fresh_shared new_mail 1)\<rparr>"

lemma some_scans:
  "smtp_scan limit smtp_start ehlo_line = smtp_start\<lparr>sm_out := reply_ehlo\<rparr>"
  "smtp_scan limit smtp_start quit_line = smtp_start\<lparr>sm_out := reply_quit, sm_quit := True\<rparr>"
  by (simp_all add: smtp_cmd_def smtp_start_def DATA_CMD_def ehlo_line_def quit_line_def)

lemma two_clients_run:
  "\<exists>ms. server_run config_init 3 1 (concat (map input_events two_clients)) (\<lambda>i. None, [])
     [(1, reply_ehlo), (2, reply_ehlo), (1, reply_data), (2, reply_quit), (2, []), (1, reply_queued)]
     (Inr (ms, [([(''From'', CHR '' '', ''a'', [])], ''hi'')]))"
proof -
  let ?m0 = "(\<lambda>i::nat. None)(1 \<mapsto> smtp_start, 2 \<mapsto> smtp_start)" and ?m1 = "(\<lambda>i::nat. None)(1 \<mapsto> in_message [], 2 \<mapsto> smtp_start)"
  let ?got = "[([(''From'', CHR '' '', ''a'', [])], body_kept ''hi'')]"
  have start: "\<not> sm_error smtp_start" "\<not> sm_process smtp_start" "\<not> sm_quit smtp_start" "next_turn (smtp_start\<lparr>sm_out := r\<rparr>) = smtp_start"
    "next_turn (smtp_start\<lparr>sm_in_data := True, sm_out := r\<rparr>) = in_message []" for r
    by (simp_all add: smtp_start_def next_turn_def in_message_def)
  have "server_step config_init 3 1 (bytes_event (1, small_message)) (?m1, q) reply_queued
      (?m1(1 \<mapsto> smtp_start), if length q < 1 then q @ ?got else q)" for q
    by (rule server_step.take [where d = "[]" and t = small_message])
       (simp_all add: bytes_event_ok small_message_ok bytes_event_handed,
        simp_all add: small_message_def message_bytes_def END_DATA_def default_sizes bytes_event_ok)
  note taken = this [of "[]"]
  have "server_step config_init 3 1 gone (?m1, []) [] (?m1(2 \<mapsto> smtp_start), [])"
    by (rule server_step.hang_up [where m = smtp_start]) (simp_all add: hang_up_of_def gone_def)
  then have left: "server_step config_init 3 1 gone (?m1, []) [] (?m1, [])" by simp
  have end_of: "server_run config_init 3 1 [gone, bytes_event (1, small_message)] (?m1, [])
      [(2, []), (1, reply_queued)] (Inr (?m1(1 \<mapsto> smtp_start), ?got))"
    using server_run.event [OF left server_run.event [OF taken server_run.idle]]
    by (simp add: bytes_event_def gone_def)
  note facts = some_lines some_scans data_turn(1) default_sizes start
  have "server_run config_init 3 1 (bytes_event (2, quit_line) # [gone, bytes_event (1, small_message)])
      (?m1, []) ((int 2, sm_out (smtp_start\<lparr>sm_out := reply_quit, sm_quit := True\<rparr>)) # [(2, []), (1, reply_queued)])
      (Inr (?m1(1 \<mapsto> smtp_start), ?got))"
    by (rule run_talk) (use end_of in \<open>simp_all add: facts\<close>)
  then have "server_run config_init 3 1 (bytes_event (1, DATA_CMD) # bytes_event (2, quit_line) # [gone, bytes_event (1, small_message)])
      (?m0, []) ((int 1, sm_out (smtp_start\<lparr>sm_in_data := True, sm_out := reply_data\<rparr>)) # [(2, reply_quit), (2, []), (1, reply_queued)])
      (Inr (?m1(1 \<mapsto> smtp_start), ?got))"
    by (intro run_talk) (simp_all add: facts fun_upd_twist)
  then have "server_run config_init 3 1 (bytes_event (2, ehlo_line) # bytes_event (1, DATA_CMD) # bytes_event (2, quit_line)
        # [gone, bytes_event (1, small_message)]) ((\<lambda>i::nat. None)(1 \<mapsto> smtp_start), [])
      ((int 2, sm_out (smtp_start\<lparr>sm_out := reply_ehlo\<rparr>)) # [(1, reply_data), (2, reply_quit), (2, []), (1, reply_queued)])
      (Inr (?m1(1 \<mapsto> smtp_start), ?got))"
    by (intro run_talk) (simp_all add: facts)
  then have "server_run config_init 3 1 (bytes_event (1, ehlo_line) # bytes_event (2, ehlo_line) # bytes_event (1, DATA_CMD)
        # bytes_event (2, quit_line) # [gone, bytes_event (1, small_message)]) (\<lambda>i. None, [])
      ((int 1, sm_out (smtp_start\<lparr>sm_out := reply_ehlo\<rparr>)) # [(2, reply_ehlo), (1, reply_data), (2, reply_quit), (2, []), (1, reply_queued)])
      (Inr (?m1(1 \<mapsto> smtp_start), ?got))"
    by (intro run_talk) (simp_all add: facts)
  then show ?thesis unfolding two_clients_def
    by (auto simp: bytes_ready_events bytes_and_hang_up_events body_kept_def max_len_defs)
qed

theorem worker_refines_server_witness:
  "\<exists>evhand ws. worker_loop config_init (Some \<lparr>map_len = slot_addr 1\<rparr>) two_clients
        (\<lparr>eh_fd = 3, eh_array = replicate 6 (Half 0)\<rparr>, three_slots) = Some (Inr (evhand, ws))
    \<and> sent_to ws 1 = map Some (reply_ehlo @ reply_data @ reply_queued) \<and> sent_to ws 2 = map Some (reply_ehlo @ reply_quit)
    \<and> (\<exists>ml. pq_items (ws_queue ws) = [ml] \<and> mail_is ml [(''From'', CHR '' '', ''a'', [])] ''hi'')"
proof -
  let ?ref = "\<lparr>map_len = slot_addr 1\<rparr>" and ?evhand = "\<lparr>eh_fd = 3, eh_array = replicate 6 (Half 0)\<rparr>"
  have fit: "inputs_fit config_init ?evhand two_clients"
    by (simp add: inputs_fit_def two_clients_def bytes_ready_def bytes_and_hang_up_def config_init_def config_load_default_def)
  have slots: "length (ws_clients three_slots) = 3" "sent_to three_slots 1 = []" "sent_to three_slots 2 = []"
    by (simp_all add: three_slots_def sent_to_def new_client_def)
  have "peer_refines (new_client, q) None" for q by (simp add: peer_refines_def client_refines_def new_client_def)
  then have ws: "worker_refines ?ref 1 three_slots (\<lambda>i. None, [])"
    using fresh_shared_inv [of 1 new_mail]
    by (simp add: worker_refines_def queue_refines_def three_slots_def pq_ready_def pq_items_def pq_cap_def fresh_shared_def)
  obtain ms where run: "server_run config_init (length (ws_clients three_slots)) 1 (concat (map input_events two_clients))
      (\<lambda>i. None, [])
      [(1, reply_ehlo), (2, reply_ehlo), (1, reply_data), (2, reply_quit), (2, []), (1, reply_queued)]
      (Inr (ms, [([(''From'', CHR '' '', ''a'', [])], ''hi'')]))"
    using two_clients_run unfolding slots(1) by blast
  obtain evhand ws where ran: "worker_loop config_init (Some ?ref) two_clients (?evhand, three_slots) = Some (Inr (evhand, ws))"
    "worker_refines ?ref 1 ws (ms, [([(''From'', CHR '' '', ''a'', [])], ''hi'')])"
    "\<forall>i < length (ws_clients three_slots). sent_to ws i = sent_to three_slots i
       @ map Some (answers_to i [(1, reply_ehlo), (2, reply_ehlo), (1, reply_data), (2, reply_quit), (2, []), (1, reply_queued)])"
    using worker_refines_server [OF fit default_sizes(1) run ws] by auto
  have "sent_to ws 1 = map Some (reply_ehlo @ reply_data @ reply_queued)" "sent_to ws 2 = map Some (reply_ehlo @ reply_quit)"
    using ran(3) [rule_format, of 1] ran(3) [rule_format, of 2] slots by (simp_all add: answers_to_def)
  moreover have "\<exists>ml. pq_items (ws_queue ws) = [ml] \<and> mail_is ml [(''From'', CHR '' '', ''a'', [])] ''hi''"
    using ran(2) by (auto simp: worker_refines_def queue_refines_def list_all2_Cons2)
  ultimately show ?thesis using ran(1) by blast
qed

end
