(* ===== verification/Spec2Isabelle.thy ===== *)
theory Spec2Isabelle
  imports Connection String_Buffer Cache_Trie Base64_Decode Queue_Processes Master_Server Report_Path Server_Spec
begin

text \<open>
  The Comfirm DMARC report server: an SMTP server that receives DMARC aggregate reports by mail,
  and a mail handler process that validates their DKIM signatures and posts them as JSON to a web
  service. File names are those of the repository.

  \<^bold>\<open>The program and how its parts interact.\<close> The master server (\<^verbatim>\<open>src/master_server.c\<close>)
  reads the configuration (\<^verbatim>\<open>src/config_file.c\<close>), makes a shared struct, a queue file and a mail
  handler for each worker (\<^verbatim>\<open>src/worker.c\<close>), accepts connections (\<^verbatim>\<open>src/socket.c\<close>), greets them and
  adds their descriptors to the \<open>epoll\<close> of a worker (\<^verbatim>\<open>src/events.c\<close>). A worker takes events
  and drives the connections of its pool through \<open>connection_handle\<close> (\<^verbatim>\<open>src/connection.c\<close>): read,
  parse the SMTP commands (\<^verbatim>\<open>src/request.c\<close>), answer (\<^verbatim>\<open>src/response.c\<close>), and on the end of a
  message put a \<open>mail\<close> into its queue file (\<^verbatim>\<open>src/lib-pq\<close>). The mail handler
  (\<^verbatim>\<open>src/mailhandler\<close>) takes mails out of that file, fetches the key from DNS, validates the
  signature (\<^verbatim>\<open>firm-dkim-extended\<close>), decodes and inflates the attachment, and posts its JSON.

  \<^bold>\<open>How C is modelled.\<close> \<open>Prelude\<close>: a result is \<open>fault + 'a\<close>; everything C leaves undefined that
  the code can do (NULL, out of bounds, an unwritten byte, a freed handle, a bad \<open>free\<close>, a
  division by zero) is \<open>Inl\<close> of the fault, so that \<open>Inr\<close> in a theorem says that memory is used
  properly. A \<open>block\<close> is a \<open>malloc\<close>ed array with the bytes written so far. \<open>'a act\<close> is an optional
  result, \<open>None\<close> for a call that does not return. An \<open>int\<close> is wrapped to 32 bits (\<open>i32\<close>) where the
  code can overflow it. System and library calls (sockets, \<open>epoll\<close>, \<open>mmap\<close>, semaphores;
  OpenSSL, zlib, libxml2, libcurl, the resolver) are parameters: functions or records of answers.
  The base64 filter and the signature operations of OpenSSL are assumed to be what their
  documentation says only where a theorem lists that as a hypothesis (the filter: \<open>documented_bio\<close>,
  which reads texts that have a line end in their first 1024 bytes). A fault says that the code does what the
  language leaves undefined, not what a machine then does.

  \<^bold>\<open>Theories.\<close>
  \<^item> \<open>Prelude\<close>, \<open>C_Library\<close>, \<open>Base_Types\<close>: results, blocks, C strings; \<open>atoi\<close> and \<open>sprintf\<close>; the
    structs of \<^verbatim>\<open>src/base.h\<close>. \<open>Prelude\<close> has the interfaces \<open>append_buffer\<close> (a buffer that holds what
    was appended) and \<open>bounded_fifo\<close> (a queue that behaves as a bounded list).
  \<^item> \<open>Response\<close>, \<open>String_Buffer\<close>: the two growing buffers, both instances of \<open>append_buffer\<close>.
  \<^item> \<open>Persisted_Queue\<close>: \<^verbatim>\<open>src/lib-pq\<close>, an instance of \<open>bounded_fifo\<close>; reopening, the semaphore
    with failing \<open>semop\<close>s and \<open>SEM_UNDO\<close>, what is flushed. The other theories use the calls where
    \<open>semop\<close> does not fail. \<open>Queue_Processes\<close>: the same calls split into accesses to the shared file, with any
    number of processes interleaved; serializability, that every mail is taken out once and in
    order, and the loss of both when a process starts.
  \<^item> \<open>Request\<close>, \<open>Request_Dialogue\<close>, \<open>Request_Headers\<close>: \<^verbatim>\<open>src/request.c\<close>; the dialogue refines
    a machine on strings (\<open>smtp_scan\<close>), the header parser inverts a rendering of messages.
  \<^item> \<open>Connection\<close>: \<open>connection_handle\<close> in its stages, a refinement of one turn of the dialogue.
  \<^item> \<open>Config_File\<close>: the parser of the configuration; what it computes and a round trip.
  \<^item> \<open>Sockets_Events\<close>: \<^verbatim>\<open>src/lock.c\<close>, \<^verbatim>\<open>src/safe.c\<close>, \<^verbatim>\<open>src/socket.c\<close>, \<^verbatim>\<open>src/events.c\<close>; every call of
    the kernel goes into a log, on which its answers depend.
  \<^item> \<open>Worker\<close>: \<^verbatim>\<open>src/worker.c\<close> and \<^verbatim>\<open>src/server.c\<close>; the typing of the pool and the independence of the
    clients over any run of the loop.
  \<^item> \<open>Session\<close>: all events of one client from its first to the end of its message, as a refinement of
    the dialogue. \<open>Server_Spec\<close>: a server of any number of clients as a step relation (with failing
    reads and sends, hang-ups, and the events that are faults), and the simulation by which the
    worker loop implements it; messages that are not of the form \<open>message_ok\<close> are outside of it.
    \<open>Report_Path\<close>: a session followed by the turns of the mail handler, which take a report from the
    client to the web service, or into a fault.
  \<^item> \<open>Master_Server\<close>: \<^verbatim>\<open>src/master_server.c\<close> with \<open>worker_init\<close> and \<open>worker_spawn\<close>; the start, up to
    the pointer it does not set and from there on, the accept loop over any events, and the end of the program.
  \<^item> \<open>Dkim_Canon\<close>, \<open>Dkim_Parse\<close>, \<open>Dkim_Validate\<close>, \<open>Base64_Ssl\<close>: \<^verbatim>\<open>firm-dkim-extended\<close>;
    canonicalization against a specification by lines and words, the tag parsers as instances of
    \<open>field_store\<close>, validation and signing, base64 around OpenSSL.
  \<^item> \<open>Report_Json\<close>, \<open>Mail_Handler\<close>: \<^verbatim>\<open>src/mailhandler\<close>; the JSON against a rendering of reports, and
    the process: what its check of a mail answers, in terms of the tags of the signature header and
    of the key record; what it posts, that it posts nothing unsigned, that it drains its queue.
  \<^item> \<open>Cache_Trie\<close> (an instance of \<open>keyed_store\<close>) and \<open>Base64_Decode\<close>: \<^verbatim>\<open>src/cache.c\<close> and
    \<^verbatim>\<open>src/base64.c\<close>, which the server links and does not call.

  \<^bold>\<open>Loops and bounds.\<close> Loops that end are structural recursions on what is left to do. The sending
  loop, which can run for ever, is a \<open>partial_function\<close> into \<open>option\<close>, and its end is proved.
  The loops of the processes, which are meant to run for ever, are functions of the list of
  inputs or of the number of turns, and theorems about them hold for all of these. Queue sizes
  are bounded by \<open>max_queue_size\<close>, the largest whose file size fits into an \<open>int\<close>.

  \<^bold>\<open>What holds only in part.\<close> The theorems say where the code leaves its intended behaviour: the start
  of the server copies the configuration through a pointer that was never set, which is undefined
  behaviour (\<open>Master_Server\<close>; the theorems about accepting and serving are about servers that are
  set up); the inflated text of an archive has no terminator, so that a report posts only where the
  archive has a NUL behind it, and the handler posts one report and then uses a freed handle (\<open>Mail_Handler\<close>); the
  array of events overflows above two thirds of \<open>max_clients\<close> (\<open>Sockets_Events\<close>); a start of a
  process breaks the mutual exclusion of the queue (\<open>Queue_Processes\<close>).

  \<^bold>\<open>Not modelled.\<close> Log output; \<open>mlockall\<close>, \<open>usleep\<close>, \<open>umask\<close>, the scheduling of processes other than on
  the queue file; a signal as an interruption (the handler is modelled as a function); the
  \<open>kqueue\<close> branches, which do not compile; \<^verbatim>\<open>src/mailhandler/base64.c\<close>, which is a copy of
  \<^verbatim>\<open>firm-dkim-extended/base64.c\<close>; headers that only declare functions, build files and tests.
\<close>

end
